(* ===== verification/Orb_Prelude.thy ===== *)
theory Orb_Prelude
  imports Main "HOL-Library.Word"
begin

text \<open>
  Shared vocabulary of the development. The program is C17, so an operation either
  returns or runs into undefined behaviour. A run is a value of \<open>fault + 'a\<close>:
  \<open>Inl f\<close> when the C code performs an access the language leaves undefined (the
  constructor of \<open>fault\<close> says which), \<open>Inr x\<close> when it returns \<open>x\<close>. A
  \<open>return false\<close> of the source is an ordinary result, \<open>Inr\<close> of a pair whose first
  component is \<open>False\<close>.

  Arrays and heap blocks are lists of their cells; an index outside the list is
  \<open>Out_Of_Bounds\<close>. Pointers to heap objects the code frees are values of \<open>ptr\<close>,
  so that a dereference after \<open>free\<close> is \<open>Use_After_Free\<close> and a second
  \<open>free\<close> is \<open>Invalid_Free\<close>.
\<close>

section \<open>Runs of C code\<close>

type_synonym byte = "8 word"

type_synonym size_t = "64 word"

datatype fault =
    Null_Deref
  | Out_Of_Bounds
  | Use_After_Free
  | Invalid_Free
  | Uninit_Read

named_theorems run_simps \<open>rewriting of runs and of accesses to cells\<close>

text \<open>Sequencing: the rest of the function runs only if the access before it was defined.\<close>

definition cbind :: "fault + 'a \<Rightarrow> ('a \<Rightarrow> fault + 'b) \<Rightarrow> fault + 'b" where
  "cbind m f = (case m of Inl e \<Rightarrow> Inl e | Inr x \<Rightarrow> f x)"

lemma cbind_Inl [simp]: "cbind (Inl e) f = Inl e"
  by (simp add: cbind_def)

lemma cbind_Inr [simp]: "cbind (Inr x) f = f x"
  by (simp add: cbind_def)

lemma cbind_cong [fundef_cong]:
  "m = m' \<Longrightarrow> (\<And>x. m' = Inr x \<Longrightarrow> f x = f' x) \<Longrightarrow> cbind m f = cbind m' f'"
  by (cases m') (simp_all add: cbind_def)

lemma cbind_eq_Inr: "cbind m f = Inr y \<longleftrightarrow> (\<exists>x. m = Inr x \<and> f x = Inr y)"
  by (cases m) simp_all

lemma cbind_eq_InrE:
  assumes "cbind m f = Inr y"
  obtains x where "m = Inr x" and "f x = Inr y"
  using assms by (auto simp: cbind_eq_Inr)

section \<open>Cells of an array\<close>

definition rd :: "'a list \<Rightarrow> nat \<Rightarrow> fault + 'a" where
  "rd xs i = (if i < length xs then Inr (xs ! i) else Inl Out_Of_Bounds)"

definition wr :: "'a list \<Rightarrow> nat \<Rightarrow> 'a \<Rightarrow> fault + 'a list" where
  "wr xs i v = (if i < length xs then Inr (xs[i := v]) else Inl Out_Of_Bounds)"

lemma rd_in [run_simps]: "i < length xs \<Longrightarrow> rd xs i = Inr (xs ! i)"
  by (simp add: rd_def)

lemma rd_out [run_simps]: "length xs \<le> i \<Longrightarrow> rd xs i = Inl Out_Of_Bounds"
  by (simp add: rd_def)

lemma wr_in [run_simps]: "i < length xs \<Longrightarrow> wr xs i v = Inr (xs[i := v])"
  by (simp add: wr_def)

lemma wr_out [run_simps]: "length xs \<le> i \<Longrightarrow> wr xs i v = Inl Out_Of_Bounds"
  by (simp add: wr_def)

lemma rd_eq_Inr: "rd xs i = Inr x \<longleftrightarrow> i < length xs \<and> xs ! i = x"
  by (auto simp: rd_def)

lemma wr_eq_Inr: "wr xs i v = Inr ys \<longleftrightarrow> i < length xs \<and> ys = xs[i := v]"
  by (auto simp: wr_def)

lemma rd_append_head [run_simps]: "rd (xs @ y # ys) (length xs) = Inr y"
  by (simp add: rd_def)

text \<open>A zeroed array whose first cells have been written, the shape every line buffer keeps.\<close>

lemma wr_next_cell [run_simps]:
  "k = length xs \<Longrightarrow> 0 < n \<Longrightarrow>
     wr (xs @ replicate n a) k v = Inr ((xs @ [v]) @ replicate (n - 1) a)"
  by (cases n) (simp_all add: wr_def)

lemma wr_append_next [run_simps]:
  "k = length xs \<Longrightarrow> wr (xs @ y # ys) k v = Inr ((xs @ [v]) @ ys)"
  by (simp add: wr_def)

section \<open>Pointers to objects the code frees\<close>

datatype 'a ptr = Null | Live 'a | Freed

definition is_null :: "'a ptr \<Rightarrow> bool" where
  "is_null p \<longleftrightarrow> (case p of Null \<Rightarrow> True | _ \<Rightarrow> False)"

definition deref :: "'a ptr \<Rightarrow> fault + 'a" where
  "deref p = (case p of Null \<Rightarrow> Inl Null_Deref | Live x \<Rightarrow> Inr x | Freed \<Rightarrow> Inl Use_After_Free)"

text \<open>\<open>free\<close> leaves the pointer variable as it is: it is not NULL afterwards.\<close>

definition cfree :: "'a ptr \<Rightarrow> fault + 'a ptr" where
  "cfree p = (case p of Null \<Rightarrow> Inr Null | Live x \<Rightarrow> Inr Freed | Freed \<Rightarrow> Inl Invalid_Free)"

lemma is_null_simps [simp]: "is_null Null" "\<not> is_null (Live x)" "\<not> is_null Freed"
  by (simp_all add: is_null_def)

lemma deref_simps [simp]:
  "deref Null = Inl Null_Deref" "deref (Live x) = Inr x" "deref Freed = Inl Use_After_Free"
  by (simp_all add: deref_def)

lemma cfree_simps [simp]:
  "cfree Null = Inr Null" "cfree (Live x) = Inr Freed" "cfree Freed = Inl Invalid_Free"
  by (simp_all add: cfree_def)

section \<open>Allocation\<close>

text \<open>
  Whether an allocation succeeds is up to the machine: \<open>alloc k\<close> says whether the
  \<open>k\<close>-th allocation of the run returns memory, and the operations that allocate pass
  the number of allocations made so far along.
\<close>

type_synonym allocator = "nat \<Rightarrow> bool"

end
