(* ===== verification/C_String.thy ===== *)
theory C_String
  imports Orb_Prelude "HOL-Library.Sublist"
begin

text \<open>
  The functions of \<open>string.h\<close> the program calls, on the bytes of the region a pointer
  points into (from the pointer to the end of its array). Reading past the region is
  \<open>Out_Of_Bounds\<close>. \<open>cstring\<close> is the string a region holds, \<open>terminated\<close> says
  that its terminating NUL lies inside the region.
\<close>

section \<open>Strings in memory\<close>

definition cstring :: "byte list \<Rightarrow> byte list" where
  "cstring r = takeWhile (\<lambda>c. c \<noteq> 0) r"

definition terminated :: "byte list \<Rightarrow> bool" where
  "terminated r \<longleftrightarrow> 0 \<in> set r"

text \<open>The array a string literal of the source denotes.\<close>

definition literal :: "string \<Rightarrow> byte list" where
  "literal s = map of_char s @ [0]"

lemma cstring_append [simp]: "0 \<notin> set xs \<Longrightarrow> cstring (xs @ 0 # ys) = xs"
  by (induction xs) (auto simp: cstring_def)

lemma cstring_simps [simp]:
  "cstring [] = []" "cstring (0 # r) = []" "c \<noteq> 0 \<Longrightarrow> cstring (c # r) = c # cstring r"
  by (simp_all add: cstring_def)

lemma terminated_simps [simp]:
  "\<not> terminated []" "terminated (c # r) \<longleftrightarrow> c = 0 \<or> terminated r"
  by (auto simp: terminated_def)

lemma terminated_append [simp]: "terminated (xs @ ys) \<longleftrightarrow> terminated xs \<or> terminated ys"
  by (auto simp: terminated_def)

lemma replicate_nul [simp]: "cstring (replicate n 0) = []" "terminated (replicate n 0) \<longleftrightarrow> 0 < n"
  by (cases n; simp)+

lemma no_nul_cstring: "0 \<notin> set (cstring r)"
  by (induction r) (auto simp: cstring_def)

lemma cstring_split:
  "terminated r \<Longrightarrow> \<exists>rest. r = cstring r @ 0 # rest"
proof (induction r)
  case (Cons c r)
  then show ?case by (cases "c = 0") auto
qed simp

section \<open>The library calls\<close>

text \<open>\<open>strcmp(a, b) == 0\<close>: it stops at the first difference, so the rest is not read.\<close>

fun c_streq :: "byte list \<Rightarrow> byte list \<Rightarrow> fault + bool" where
  "c_streq (a # as) (b # bs) =
     (if a \<noteq> b then Inr False else if a = 0 then Inr True else c_streq as bs)"
| "c_streq _ _ = Inl Out_Of_Bounds"

fun c_strlen :: "byte list \<Rightarrow> fault + nat" where
  "c_strlen [] = Inl Out_Of_Bounds"
| "c_strlen (c # r) = (if c = 0 then Inr 0 else cbind (c_strlen r) (\<lambda>n. Inr (Suc n)))"

text \<open>The bytes \<open>strndup(r, n)\<close> copies; the new block ends with a NUL.\<close>

fun c_strndup :: "byte list \<Rightarrow> nat \<Rightarrow> fault + byte list" where
  "c_strndup r 0 = Inr [0]"
| "c_strndup [] (Suc n) = Inl Out_Of_Bounds"
| "c_strndup (c # r) (Suc n) =
     (if c = 0 then Inr [0] else cbind (c_strndup r n) (\<lambda>s. Inr (c # s)))"

text \<open>The source side and the destination side of \<open>memcpy\<close>.\<close>

definition c_load :: "'a list \<Rightarrow> nat \<Rightarrow> fault + 'a list" where
  "c_load r n = (if n \<le> length r then Inr (take n r) else Inl Out_Of_Bounds)"

definition c_store :: "'a list \<Rightarrow> nat \<Rightarrow> 'a list \<Rightarrow> fault + 'a list" where
  "c_store r off bs =
     (if off + length bs \<le> length r then Inr (take off r @ bs @ drop (off + length bs) r)
      else Inl Out_Of_Bounds)"

text \<open>\<open>memmem(hay, n, needle, m) != NULL\<close> on the \<open>n\<close> bytes of \<open>hay\<close>.\<close>

definition c_memmem :: "byte list \<Rightarrow> byte list \<Rightarrow> bool" where
  "c_memmem hay needle = list_ex (prefix needle) (suffixes hay)"

text \<open>\<open>strstr\<close>: the offset of the first occurrence in the string the region holds.\<close>

fun c_strstr :: "byte list \<Rightarrow> byte list \<Rightarrow> nat \<Rightarrow> fault + nat option" where
  "c_strstr [] needle pos = Inl Out_Of_Bounds"
| "c_strstr (c # r) needle pos =
     (if prefix needle (cstring (c # r)) then Inr (Some pos)
      else if c = 0 then Inr None
      else c_strstr r needle (Suc pos))"

section \<open>What they compute\<close>

lemma c_streq_terminated:
  "terminated a \<Longrightarrow> terminated b \<Longrightarrow> c_streq a b = Inr (cstring a = cstring b)"
proof (induction a b rule: c_streq.induct)
  case (1 a as b bs)
  then show ?case by (cases "a = 0"; cases "b = 0") auto
qed auto

lemma c_streq_prefix:
  "0 \<notin> set x \<Longrightarrow> 0 \<notin> set y \<Longrightarrow> x \<noteq> y \<Longrightarrow> length y < length (x @ r) \<Longrightarrow> \<not> prefix x y \<Longrightarrow>
     c_streq (x @ r) (y @ [0]) = Inr False"
proof (induction x arbitrary: y)
  case (Cons c x)
  then show ?case by (cases y) auto
qed simp

lemma c_strlen_terminated: "terminated r \<Longrightarrow> c_strlen r = Inr (length (cstring r))"
  by (induction r) (auto simp: cstring_def)

lemma c_strndup_short:
  "0 \<notin> set s \<Longrightarrow> length s \<le> n \<Longrightarrow> c_strndup (s @ 0 # r) n = Inr (s @ [0])"
proof (induction s arbitrary: n)
  case Nil
  then show ?case by (cases n) simp_all
next
  case (Cons c s)
  then show ?case by (cases n) auto
qed

lemma c_load_in [run_simps]: "n \<le> length r \<Longrightarrow> c_load r n = Inr (take n r)"
  by (simp add: c_load_def)

lemma c_store_in [run_simps]:
  "off + length bs \<le> length r \<Longrightarrow>
     c_store r off bs = Inr (take off r @ bs @ drop (off + length bs) r)"
  by (simp add: c_store_def)

lemma c_memmem_sublist: "c_memmem hay needle \<longleftrightarrow> sublist needle hay"
  by (auto simp: c_memmem_def list_ex_iff sublist_altdef')

end
