(* ===== verification/Hash_Tools.thy ===== *)
theory Hash_Tools
  imports C_String
begin

text \<open>
  \<open>utilities/hash-tools/hash_tools.c\<close>: the open-addressing hash table. Slot 0 is never
  used, an allocation of \<open>n\<close> entries has \<open>2 * n\<close> slots. A table is the list of its
  slots, \<open>None\<close> for a NULL slot. Pointer arguments are \<open>None\<close> for NULL; the cell an
  out parameter points at is handed back. Sizes are 64-bit words, so doubling and the hash
  wrap as in C; the probe counters stay below the table size and are naturals.
\<close>

section \<open>The state\<close>

text \<open>
  An entry is one flat block; \<open>entry_key\<close> and \<open>entry_value\<close> are its two parts, each
  with the NUL the code appends.
\<close>

record hash_entry =
  entry_key_size :: size_t
  entry_value_size :: size_t
  entry_key :: "byte list"
  entry_value :: "byte list"

type_synonym hash_table = "hash_entry option list"

definition KEYGEN_SALT :: size_t where
  "KEYGEN_SALT = 31"

definition sizeof_hash_entry :: size_t where
  "sizeof_hash_entry = 32"

section \<open>The hash\<close>

text \<open>The loop of \<open>_generate_hash_index\<close>; \<open>(size_t)key[cursor]\<close> extends the sign.\<close>

fun keygen_loop :: "byte list \<Rightarrow> nat \<Rightarrow> size_t \<Rightarrow> fault + size_t" where
  "keygen_loop key 0 keygen_value = Inr keygen_value"
| "keygen_loop [] (Suc n) keygen_value = Inl Out_Of_Bounds"
| "keygen_loop (c # key) (Suc n) keygen_value =
     keygen_loop key n (keygen_value * KEYGEN_SALT + scast c)"

definition generate_hash_index ::
  "byte list option \<Rightarrow> size_t \<Rightarrow> size_t \<Rightarrow> size_t option \<Rightarrow> fault + (bool \<times> size_t option)" where
  "generate_hash_index key key_size table_size hash_index =
     (case key of
        None \<Rightarrow> Inr (False, hash_index)
      | Some k \<Rightarrow>
          if key_size < 1 \<or> table_size < 2 then Inr (False, hash_index)
          else (case hash_index of
                  None \<Rightarrow> Inr (False, None)
                | Some _ \<Rightarrow>
                    cbind (keygen_loop k (unat key_size) 0)
                      (\<lambda>keygen_value.
                         let result = keygen_value mod table_size
                         in Inr (True, Some (if result = 0 then result + 1 else result)))))"

section \<open>Probing\<close>

text \<open>
  The \<open>while\<close> of \<open>hash_add_entry\<close>: \<open>Some i\<close> is the empty slot it stops at,
  \<open>None\<close> the full loop.
\<close>

function add_probe :: "hash_table \<Rightarrow> nat \<Rightarrow> nat \<Rightarrow> nat \<Rightarrow> fault + nat option" where
  "add_probe table table_size probe_counter step_counter =
     cbind (rd table probe_counter)
       (\<lambda>slot. case slot of
          None \<Rightarrow> Inr (Some probe_counter)
        | Some _ \<Rightarrow>
            if Suc step_counter \<ge> table_size then Inr None
            else if Suc probe_counter \<ge> table_size
              then add_probe table table_size 1 (Suc (Suc step_counter))
              else add_probe table table_size (Suc probe_counter) (Suc step_counter))"
  by pat_completeness auto
termination
  by (relation "measure (\<lambda>(table, table_size, probe, step). table_size - step)") auto

text \<open>The \<open>for\<close> of \<open>_hash_seek_entry\<close>, with the two counters as it leaves them.\<close>

function seek_loop :: "byte list \<Rightarrow> hash_table \<Rightarrow> nat \<Rightarrow> nat \<Rightarrow> nat \<Rightarrow> fault + nat option" where
  "seek_loop key table table_size probe_counter step_counter =
     (if step_counter < table_size then
        (let wrapped = Suc probe_counter \<ge> table_size;
             probe = (if wrapped then 1 else Suc probe_counter);
             step = (if wrapped then Suc step_counter else step_counter)
         in cbind (rd table probe)
              (\<lambda>slot. case slot of
                 None \<Rightarrow> seek_loop key table table_size probe (Suc step)
               | Some e \<Rightarrow>
                   cbind (c_streq (entry_key e) key)
                     (\<lambda>eq. if eq then Inr (Some probe)
                            else seek_loop key table table_size probe (Suc step))))
      else Inr None)"
  by pat_completeness auto
termination
  by (relation "measure (\<lambda>(key, table, table_size, probe, step). table_size - step)") auto

declare add_probe.simps [simp del] seek_loop.simps [simp del]

definition hash_seek_entry ::
  "byte list \<Rightarrow> hash_table \<Rightarrow> nat \<Rightarrow> nat \<Rightarrow> fault + (bool \<times> nat)" where
  "hash_seek_entry key table table_size hash_index =
     cbind (seek_loop key table table_size hash_index 0)
       (\<lambda>r. case r of None \<Rightarrow> Inr (False, 0) | Some i \<Rightarrow> Inr (True, i))"

section \<open>The operations\<close>

text \<open>The block that holds a new entry, flattened, with its two copies.\<close>

definition new_entry ::
  "byte list \<Rightarrow> size_t \<Rightarrow> byte list \<Rightarrow> size_t \<Rightarrow> fault + hash_entry" where
  "new_entry key key_size value value_size =
     (let block = sizeof_hash_entry + (key_size + 1) + (value_size + 1)
      in cbind (c_load key (unat key_size))
           (\<lambda>kb. cbind (c_load value (unat value_size))
             (\<lambda>vb. if unat sizeof_hash_entry + (length kb + 1) + (length vb + 1) \<le> unat block
                   then Inr \<lparr>entry_key_size = key_size, entry_value_size = value_size,
                             entry_key = kb @ [0], entry_value = vb @ [0]\<rparr>
                   else Inl Out_Of_Bounds)))"

definition hash_add_entry ::
  "bool \<Rightarrow> byte list option \<Rightarrow> size_t \<Rightarrow> byte list option \<Rightarrow> size_t \<Rightarrow> hash_table option \<Rightarrow> size_t
     \<Rightarrow> size_t option \<Rightarrow> fault + (bool \<times> hash_table option \<times> size_t option)" where
  "hash_add_entry allocated key key_size value value_size table table_size hash_index =
     (case (key, value) of
        (Some k, Some v) \<Rightarrow>
          if key_size < 1 \<or> value_size < 1 then Inr (False, table, hash_index)
          else (case table of
            None \<Rightarrow> Inr (False, table, hash_index)
          | Some t \<Rightarrow>
              if table_size < 1 then Inr (False, table, hash_index)
              else if hash_index = None then Inr (False, table, hash_index)
              else
                (let slots = table_size * 2
                 in cbind (generate_hash_index key key_size slots (Some 0))
                  (\<lambda>(generated, cell).
                     if \<not> generated then Inr (False, table, Some 0)
                     else if the cell \<ge> slots \<or> the cell = 0 then Inr (False, table, Some 0)
                     else cbind (add_probe t (unat slots) (unat (the cell)) 0)
                       (\<lambda>found. case found of
                          None \<Rightarrow> Inr (False, table, cell)
                        | Some i \<Rightarrow>
                            if \<not> allocated then Inr (False, table, Some (of_nat i))
                            else cbind (new_entry k key_size v value_size)
                              (\<lambda>entry. cbind (wr t i (Some entry))
                                (\<lambda>t'. Inr (True, Some t', Some (of_nat i))))))))
      | _ \<Rightarrow> Inr (False, table, hash_index))"

text \<open>The slot a lookup settles on: the hashed slot if it holds the key, else a search.\<close>

definition locate_entry ::
  "byte list \<Rightarrow> hash_table \<Rightarrow> nat \<Rightarrow> nat \<Rightarrow> fault + nat option" where
  "locate_entry key table table_size hash_index =
     cbind (rd table hash_index)
       (\<lambda>slot. cbind (case slot of None \<Rightarrow> Inr False | Some e \<Rightarrow> c_streq (entry_key e) key)
         (\<lambda>here.
            if here then Inr (Some hash_index)
            else cbind (hash_seek_entry key table table_size hash_index)
              (\<lambda>(found, result_index).
                 if \<not> found \<or> result_index = 0 \<or> result_index \<ge> table_size then Inr None
                 else Inr (Some result_index))))"

definition hash_remove_entry ::
  "byte list option \<Rightarrow> size_t \<Rightarrow> hash_table option \<Rightarrow> size_t \<Rightarrow> fault + (bool \<times> hash_table option)" where
  "hash_remove_entry key key_size table table_size =
     (case key of
        None \<Rightarrow> Inr (False, table)
      | Some k \<Rightarrow>
          if key_size < 1 then Inr (False, table)
          else (case table of
            None \<Rightarrow> Inr (False, table)
          | Some t \<Rightarrow>
              if table_size < 1 then Inr (False, table)
              else
                (let slots = table_size * 2
                 in cbind (generate_hash_index key key_size slots (Some 0))
                  (\<lambda>(generated, cell).
                     if \<not> generated then Inr (False, table)
                     else if the cell = 0 \<or> the cell \<ge> slots then Inr (False, table)
                     else cbind (locate_entry k t (unat slots) (unat (the cell)))
                       (\<lambda>found. case found of
                          None \<Rightarrow> Inr (False, table)
                        | Some i \<Rightarrow> cbind (wr t i None) (\<lambda>t'. Inr (True, Some t')))))))"

text \<open>\<open>value\<close> is the out cell: the outer option is its address, the inner one its content.\<close>

definition hash_fetch_entry ::
  "byte list option \<Rightarrow> size_t \<Rightarrow> hash_table option \<Rightarrow> size_t \<Rightarrow> byte list option option
     \<Rightarrow> fault + (bool \<times> byte list option option)" where
  "hash_fetch_entry key key_size table table_size value =
     (case key of
        None \<Rightarrow> Inr (False, value)
      | Some k \<Rightarrow>
          if key_size < 1 then Inr (False, value)
          else (case table of
            None \<Rightarrow> Inr (False, value)
          | Some t \<Rightarrow>
              if table_size < 1 then Inr (False, value)
              else if value = None then Inr (False, value)
              else
                (let slots = table_size * 2
                 in cbind (generate_hash_index key key_size slots (Some 0))
                  (\<lambda>(generated, cell).
                     if \<not> generated then Inr (False, value)
                     else if the cell = 0 \<or> the cell \<ge> slots then Inr (False, value)
                     else cbind (locate_entry k t (unat slots) (unat (the cell)))
                       (\<lambda>found. case found of
                          None \<Rightarrow> Inr (False, value)
                        | Some i \<Rightarrow> cbind (rd t i)
                            (\<lambda>slot. case slot of
                               Some e \<Rightarrow> Inr (True, Some (Some (entry_value e)))
                             | None \<Rightarrow> Inr (False, value)))))))"

text \<open>
  \<open>hash_free\<close> indexes before it dereferences: \<open>*table[cursor]\<close> is \<open>*(table[cursor])\<close>.
  \<open>tables\<close> is the array its argument points into, one cell long where a caller passes
  the address of its table variable.
\<close>

function hash_free_loop ::
  "hash_table ptr list \<Rightarrow> nat \<Rightarrow> nat \<Rightarrow> fault + hash_table ptr list" where
  "hash_free_loop tables cursor table_size =
     (if cursor < table_size then
        cbind (rd tables cursor) (\<lambda>p. cbind (deref p) (\<lambda>t. cbind (rd t 0)
          (\<lambda>slot. hash_free_loop
             (case slot of None \<Rightarrow> tables | Some _ \<Rightarrow> tables[cursor := Live (t[0 := None])])
             (Suc cursor) table_size)))
      else Inr tables)"
  by pat_completeness auto
termination
  by (relation "measure (\<lambda>(tables, cursor, table_size). table_size - cursor)") auto

declare hash_free_loop.simps [simp del]

definition hash_free ::
  "hash_table ptr list option \<Rightarrow> size_t \<Rightarrow> fault + (bool \<times> hash_table ptr list option)" where
  "hash_free table table_size =
     (case table of
        None \<Rightarrow> Inr (False, table)
      | Some tables \<Rightarrow>
          cbind (rd tables 0)
            (\<lambda>p. if is_null p \<or> table_size < 1 then Inr (False, table)
                 else cbind (hash_free_loop tables 0 (unat (table_size * 2)))
                   (\<lambda>tables'. cbind (rd tables' 0)
                     (\<lambda>p'. cbind (cfree p') (\<lambda>_. Inr (True, Some (tables'[0 := Null])))))))"

text \<open>Slots are pointers, NULL after \<open>calloc\<close>; the allocation does not depend on what they point to.\<close>

definition hash_allocate ::
  "bool \<Rightarrow> size_t \<Rightarrow> 'e option list option \<Rightarrow> bool \<times> 'e option list option" where
  "hash_allocate allocated num_entries table =
     (if table \<noteq> None then (False, table)
      else if num_entries < 2 then (False, table)
      else if \<not> allocated then (False, None)
      else (True, Some (replicate (unat (num_entries * 2)) None)))"

end
