(* ===== verification/Hash_Map.thy ===== *)
theory Hash_Map
  imports Hash_Tools
begin

text \<open>
  The hash table as a map. Both probe loops visit every slot but slot 0 once, in the
  cyclic order that starts at the hashed slot (\<open>probe_order\<close>); each operation is a
  \<open>find\<close> over that order (\<open>hash_add_run\<close>, \<open>hash_locate_run\<close>). While keys are
  unique the order does not matter, and the operations refine lookup, insertion of a fresh
  key and deletion on \<open>table_map\<close>.
\<close>

section \<open>The hash of a key\<close>

definition hash_slot :: "byte list \<Rightarrow> size_t \<Rightarrow> size_t" where
  "hash_slot key slots =
     (let r = foldl (\<lambda>v c. v * KEYGEN_SALT + scast c) 0 key mod slots
      in if r = 0 then r + 1 else r)"

lemma keygen_loop_run:
  "n \<le> length key \<Longrightarrow>
     keygen_loop key n v = Inr (foldl (\<lambda>v c. v * KEYGEN_SALT + scast c) v (take n key))"
  by (induction key n v rule: keygen_loop.induct) auto

lemma hash_slot_bounds:
  assumes "2 \<le> unat slots"
  shows "0 < unat (hash_slot key slots)" and "unat (hash_slot key slots) < unat slots"
proof -
  define r where "r = foldl (\<lambda>v c. v * KEYGEN_SALT + scast c) 0 key mod slots"
  have "unat r < unat slots"
    using assms by (simp add: r_def unat_mod_distrib)
  moreover have "unat (r + 1) = 1" if "r = 0"
    using that by simp
  ultimately show "0 < unat (hash_slot key slots)" and "unat (hash_slot key slots) < unat slots"
    using assms by (auto simp: hash_slot_def r_def [symmetric] unat_gt_0)
qed

lemma generate_hash_index_run:
  assumes "1 \<le> unat key_size" and "unat key_size \<le> length k" and "2 \<le> unat slots"
  shows "generate_hash_index (Some k) key_size slots (Some c)
           = Inr (True, Some (hash_slot (take (unat key_size) k) slots))"
proof -
  have "\<not> key_size < 1" and "\<not> slots < 2"
    using assms(1,3) by (auto simp: word_less_nat_alt)
  then show ?thesis
    using assms(2)
    by (simp add: generate_hash_index_def keygen_loop_run hash_slot_def Let_def)
qed

section \<open>The probe order\<close>

definition probe_order :: "nat \<Rightarrow> nat \<Rightarrow> nat list" where
  "probe_order h slots = [h..<slots] @ [1..<h]"

lemma set_probe_order: "0 < h \<Longrightarrow> h < slots \<Longrightarrow> set (probe_order h slots) = {1..<slots}"
  by (auto simp: probe_order_def)

lemma find_append: "find P (xs @ ys) = (case find P xs of None \<Rightarrow> find P ys | Some x \<Rightarrow> Some x)"
  by (induction xs) auto

lemma find_cong_set:
  "\<forall>x y. x \<in> set xs \<and> y \<in> set xs \<and> P x \<and> P y \<longrightarrow> x = y \<Longrightarrow> set xs = set ys \<Longrightarrow> find P xs = find P ys"
proof (cases "find P xs")
  case None
  assume "set xs = set ys"
  with None have "find P ys = None" by (simp add: find_None_iff)
  with None show ?thesis by simp
next
  case (Some x)
  assume uniq: "\<forall>x y. x \<in> set xs \<and> y \<in> set xs \<and> P x \<and> P y \<longrightarrow> x = y" and eq: "set xs = set ys"
  from Some have x: "x \<in> set xs" "P x" by (auto simp: find_Some_iff)
  with eq obtain y where y: "find P ys = Some y"
    by (metis find_None_iff option.exhaust)
  then have "y \<in> set xs" "P y" using eq by (auto simp: find_Some_iff)
  with x uniq have "x = y" by blast
  with Some y show ?thesis by simp
qed

lemma upt_step: "p < n \<Longrightarrow> [p..<n] = p # [Suc p..<n]"
  by (simp add: upt_conv_Cons)

abbreviation free_slot :: "hash_table \<Rightarrow> nat \<Rightarrow> bool" where
  "free_slot t i \<equiv> t ! i = None"

lemma add_probe_wrapped:
  assumes "1 \<le> p" and "p \<le> h" and "h < slots" and "slots \<le> length t" and "\<not> free_slot t h"
    and "step + h = slots + p"
  shows "add_probe t slots p step = Inr (find (free_slot t) [p..<h])"
  using assms
proof (induction "h - p" arbitrary: p step)
  case 0
  then show ?case
    by (auto simp: add_probe.simps [of t slots p] rd_in)
next
  case (Suc m)
  then have p: "p < h" by simp
  then have IH: "add_probe t slots (Suc p) (Suc step) = Inr (find (free_slot t) [Suc p..<h])"
    using Suc by simp
  show ?case
  proof (cases "t ! p")
    case None
    with p Suc.prems show ?thesis
      by (simp add: add_probe.simps [of t slots p] rd_in upt_step)
  next
    case (Some e)
    with p Suc.prems IH show ?thesis
      by (cases "Suc p = h") (auto simp: add_probe.simps [of t slots p] rd_in upt_step)
  qed
qed

lemma add_probe_run:
  assumes "0 < h" and "h \<le> p" and "p < slots" and "slots \<le> length t"
    and "\<forall>i \<in> {h..<p}. \<not> free_slot t i" and "step + h = p"
  shows "add_probe t slots p step = Inr (find (free_slot t) ([p..<slots] @ [1..<h]))"
  using assms
proof (induction "slots - p" arbitrary: p step)
  case (Suc m)
  show ?case
  proof (cases "t ! p")
    case None
    with Suc.prems show ?thesis
      by (simp add: add_probe.simps [of t slots p] rd_in upt_step)
  next
    case (Some e)
    have occ: "\<forall>i \<in> {h..<Suc p}. \<not> free_slot t i"
      using Suc.prems Some by (auto simp: less_Suc_eq)
    show ?thesis
    proof (cases "Suc p < slots")
      case True
      have "add_probe t slots (Suc p) (Suc step) = Inr (find (free_slot t) ([Suc p..<slots] @ [1..<h]))"
        using Suc True occ by simp
      with True Some Suc.prems show ?thesis
        by (simp add: add_probe.simps [of t slots p] rd_in upt_step)
    next
      case False
      then have p: "Suc p = slots" using Suc.prems by simp
      have "add_probe t slots 1 (Suc (Suc step)) = Inr (find (free_slot t) [1..<h])"
        using Suc.prems occ p by (intro add_probe_wrapped) auto
      with p Some Suc.prems show ?thesis
        by (auto simp: add_probe.simps [of t slots p] rd_in upt_step [of p slots])
    qed
  qed
qed simp

section \<open>Searching for a key\<close>

definition entry_name :: "hash_entry \<Rightarrow> byte list" where
  "entry_name e = cstring (entry_key e)"

definition slot_holds :: "hash_table \<Rightarrow> byte list \<Rightarrow> nat \<Rightarrow> bool" where
  "slot_holds t k i \<longleftrightarrow> (case t ! i of None \<Rightarrow> False | Some e \<Rightarrow> entry_name e = k)"

definition names_ok :: "hash_table \<Rightarrow> bool" where
  "names_ok t \<longleftrightarrow> list_all (\<lambda>s. case s of None \<Rightarrow> True | Some e \<Rightarrow> terminated (entry_key e)) t"

lemma names_okD: "names_ok t \<Longrightarrow> i < length t \<Longrightarrow> t ! i = Some e \<Longrightarrow> terminated (entry_key e)"
  by (auto simp: names_ok_def list_all_length split: option.splits)

lemma compare_slot:
  "names_ok t \<Longrightarrow> terminated key \<Longrightarrow> i < length t \<Longrightarrow> t ! i = Some e \<Longrightarrow>
     c_streq (entry_key e) key = Inr (entry_name e = cstring key)"
  by (simp add: c_streq_terminated names_okD entry_name_def)

lemma slot_holds_Some: "t ! i = Some e \<Longrightarrow> slot_holds t k i \<longleftrightarrow> entry_name e = k"
  by (simp add: slot_holds_def)

lemma slot_holds_None: "t ! i = None \<Longrightarrow> \<not> slot_holds t k i"
  by (simp add: slot_holds_def)

lemma seek_step:
  assumes "names_ok t" and "terminated key" and "slots \<le> length t" and "step < slots"
    and "q = (if Suc p \<ge> slots then 1 else Suc p)" and "q < slots"
    and "s = (if Suc p \<ge> slots then Suc step else step)"
  shows "seek_loop key t slots p step =
           (if slot_holds t (cstring key) q then Inr (Some q)
            else seek_loop key t slots q (Suc s))"
proof -
  have unfolded: "seek_loop key t slots p step =
      cbind (rd t q) (\<lambda>slot. case slot of None \<Rightarrow> seek_loop key t slots q (Suc s)
        | Some e \<Rightarrow> cbind (c_streq (entry_key e) key)
            (\<lambda>eq. if eq then Inr (Some q) else seek_loop key t slots q (Suc s)))"
    unfolding seek_loop.simps [of key t slots p] Let_def assms(5,7) [symmetric] using assms(4) by simp
  show ?thesis
    unfolding unfolded using assms(1-3,6)
    by (cases "t ! q") (simp_all add: rd_in compare_slot [of t key q] slot_holds_Some slot_holds_None)
qed

lemma seek_wrapped:
  assumes "names_ok t" and "terminated key" and "slots \<le> length t"
    and "1 \<le> p" and "p \<le> h" and "h < slots" and "step + h = slots + p"
  shows "seek_loop key t slots p step = Inr (find (slot_holds t (cstring key)) [Suc p..<Suc h])"
  using assms
proof (induction "h - p" arbitrary: p step)
  case 0
  then show ?case by (simp add: seek_loop.simps [of key t slots p])
next
  case (Suc m)
  then have p: "p < h" by simp
  then have "seek_loop key t slots (Suc p) (Suc step)
          = Inr (find (slot_holds t (cstring key)) [Suc (Suc p)..<Suc h])"
    using Suc by simp
  with p Suc.prems show ?case
    by (subst seek_step [where q = "Suc p" and s = step])
       (auto simp: upt_step [of "Suc p" "Suc h"] simp del: upt_Suc)
qed

lemma seek_run:
  assumes "names_ok t" and "terminated key" and "slots \<le> length t"
    and "0 < h" and "h \<le> p" and "p < slots" and "step + h = p"
  shows "seek_loop key t slots p step
           = Inr (find (slot_holds t (cstring key)) ([Suc p..<slots] @ [1..<Suc h]))"
  using assms
proof (induction "slots - p" arbitrary: p step)
  case (Suc m)
  show ?case
  proof (cases "Suc p < slots")
    case True
    have "seek_loop key t slots (Suc p) (Suc step)
            = Inr (find (slot_holds t (cstring key)) ([Suc (Suc p)..<slots] @ [1..<Suc h]))"
      using Suc True by simp
    with True Suc.prems show ?thesis
      by (subst seek_step [where q = "Suc p" and s = step]) (auto simp: upt_step [of "Suc p" slots])
  next
    case False
    then have p: "Suc p = slots" using Suc.prems by simp
    have "seek_loop key t slots 1 (Suc (Suc step))
            = Inr (find (slot_holds t (cstring key)) [Suc 1..<Suc h])"
      using Suc.prems p by (intro seek_wrapped) auto
    with p Suc.prems show ?thesis
      by (subst seek_step [where q = 1 and s = "Suc step"]) (auto simp: upt_step [of "Suc 0" "Suc h"] simp del: upt_Suc)
  qed
qed simp

lemma hash_locate_run:
  assumes "names_ok t" and "terminated key" and "slots \<le> length t" and "0 < h" and "h < slots"
  shows "locate_entry key t slots h = Inr (find (slot_holds t (cstring key)) (probe_order h slots))"
proof -
  let ?P = "slot_holds t (cstring key)"
  have here: "(case t ! h of None \<Rightarrow> Inr False | Some e \<Rightarrow> c_streq (entry_key e) key) = Inr (?P h)"
    using assms by (auto simp: compare_slot [of t key h] slot_holds_Some slot_holds_None split: option.split)
  have seek: "seek_loop key t slots h 0 = Inr (find ?P ([Suc h..<slots] @ [1..<Suc h]))"
    using seek_run [OF assms(1-4) order_refl assms(5), of 0] by simp
  have order: "find ?P (probe_order h slots) = find ?P ([Suc h..<slots] @ [1..<Suc h])" if "\<not> ?P h"
    using assms(4,5) that
    by (simp add: probe_order_def upt_step find_append split: option.split)
  have bounds: "0 < i \<and> i < slots" if "find ?P ([Suc h..<slots] @ [1..<Suc h]) = Some i" for i
  proof -
    have "i \<in> set ([Suc h..<slots] @ [1..<Suc h])"
      using that by (metis find_Some_iff nth_mem)
    then show ?thesis using assms(4,5) by auto
  qed
  show ?thesis
  proof (cases "?P h")
    case True
    with assms here show ?thesis
      by (simp add: locate_entry_def rd_in probe_order_def upt_step)
  next
    case False
    with assms here seek order bounds show ?thesis
      by (auto simp: locate_entry_def rd_in hash_seek_entry_def split: option.split)
  qed
qed

section \<open>The operations as runs\<close>

text \<open>
  The invariant of an allocation of \<open>n\<close> entries: twice as many slots, slot 0 unused,
  every stored key terminated inside its block.
\<close>

definition table_ok :: "hash_table \<Rightarrow> size_t \<Rightarrow> bool" where
  "table_ok t n \<longleftrightarrow>
     2 \<le> unat n \<and> unat n < 2 ^ 63 \<and> length t = 2 * unat n \<and> t ! 0 = None \<and> names_ok t"

definition key_ok :: "byte list \<Rightarrow> size_t \<Rightarrow> bool" where
  "key_ok k key_size \<longleftrightarrow> 1 \<le> unat key_size \<and> unat key_size \<le> length k"

definition stored :: "byte list \<Rightarrow> size_t \<Rightarrow> byte list \<Rightarrow> size_t \<Rightarrow> hash_entry" where
  "stored k key_size v value_size =
     \<lparr>entry_key_size = key_size, entry_value_size = value_size,
      entry_key = take (unat key_size) k @ [0], entry_value = take (unat value_size) v @ [0]\<rparr>"

lemma unat_double: "unat n < 2 ^ 63 \<Longrightarrow> unat (n * 2 :: size_t) = 2 * unat n"
  by (simp add: unat_word_ariths)

lemma table_ok_slots:
  assumes "table_ok t n"
  shows "unat (n * 2) = length t" and "2 \<le> unat (n * 2)" and "n \<noteq> 0"
  using assms by (auto simp: table_ok_def unat_double)

lemma table_okD:
  assumes "table_ok t n"
  shows "names_ok t" and "2 \<le> length t" and "t ! 0 = None"
  using assms by (auto simp: table_ok_def)

lemma names_ok_update:
  "names_ok t \<Longrightarrow> (\<And>e. s = Some e \<Longrightarrow> terminated (entry_key e)) \<Longrightarrow> names_ok (t[i := s])"
  using set_update_subset_insert [of t i s]
  by (fastforce simp: names_ok_def list_all_iff split: option.splits)

lemma table_ok_update:
  "table_ok t n \<Longrightarrow> 0 < i \<Longrightarrow> (\<And>e. s = Some e \<Longrightarrow> terminated (entry_key e)) \<Longrightarrow>
     table_ok (t[i := s]) n"
  by (auto simp: table_ok_def names_ok_update)

lemma terminated_stored [simp]: "terminated (entry_key (stored k ks v vs))"
  by (simp add: stored_def)

lemma new_entry_run:
  assumes "unat ks \<le> length k" and "unat vs \<le> length v" and "unat ks + unat vs + 34 < 2 ^ 64"
  shows "new_entry k ks v vs = Inr (stored k ks v vs)"
proof -
  have "unat (sizeof_hash_entry + (ks + 1) + (vs + 1)) = 34 + unat ks + unat vs"
    using assms(3) by (simp add: sizeof_hash_entry_def unat_word_ariths)
  then show ?thesis
    using assms by (simp add: new_entry_def stored_def c_load_in sizeof_hash_entry_def Let_def)
qed

abbreviation start_slot :: "byte list \<Rightarrow> size_t \<Rightarrow> size_t \<Rightarrow> nat" where
  "start_slot k key_size n \<equiv> unat (hash_slot (take (unat key_size) k) (n * 2))"

lemma start_slot_bounds:
  assumes "table_ok t n"
  shows "0 < start_slot k ks n" and "start_slot k ks n < length t"
  using hash_slot_bounds [OF table_ok_slots(2) [OF assms]] by (simp_all add: table_ok_slots [OF assms])

lemma hash_slot_in_range:
  assumes "table_ok t n"
  shows "\<not> n * 2 \<le> hash_slot k (n * 2)" and "hash_slot k (n * 2) \<noteq> 0"
  using hash_slot_bounds [OF table_ok_slots(2) [OF assms], of k] by (auto simp: word_le_nat_alt)

lemma key_size_pos: "1 \<le> unat (ks :: size_t) \<Longrightarrow> ks \<noteq> 0"
  by auto

lemma hash_index_run:
  assumes "table_ok t n" and "key_ok k ks"
  shows "generate_hash_index (Some k) ks (n * 2) (Some c)
           = Inr (True, Some (hash_slot (take (unat ks) k) (n * 2)))"
  using assms by (intro generate_hash_index_run) (auto simp: key_ok_def table_ok_slots table_okD)

lemma hash_add_run:
  assumes ok: "table_ok t n" and key: "key_ok k ks"
    and val: "1 \<le> unat vs" "unat vs \<le> length v" and fits: "unat ks + unat vs + 34 < 2 ^ 64"
  shows "hash_add_entry allocated (Some k) ks (Some v) vs (Some t) n (Some c) =
           (case find (free_slot t) (probe_order (start_slot k ks n) (length t)) of
              None \<Rightarrow> Inr (False, Some t, Some (hash_slot (take (unat ks) k) (n * 2)))
            | Some i \<Rightarrow>
                if allocated then Inr (True, Some (t[i := Some (stored k ks v vs)]), Some (of_nat i))
                else Inr (False, Some t, Some (of_nat i)))"
proof -
  let ?h = "start_slot k ks n"
  have probe: "add_probe t (length t) ?h 0 = Inr (find (free_slot t) (probe_order ?h (length t)))"
    unfolding probe_order_def
    by (rule add_probe_run) (use start_slot_bounds [OF ok, where k = k and ks = ks] in auto)
  have inside: "i < length t" if "find (free_slot t) (probe_order ?h (length t)) = Some i" for i
  proof -
    have "i \<in> set (probe_order ?h (length t))" using that by (metis find_Some_iff nth_mem)
    then show ?thesis using start_slot_bounds [OF ok, where k = k and ks = ks] by (auto simp: probe_order_def)
  qed
  from key have new: "new_entry k ks v vs = Inr (stored k ks v vs)"
    by (intro new_entry_run) (use val fits in \<open>auto simp: key_ok_def\<close>)
  from key val have "ks \<noteq> 0" and "vs \<noteq> 0"
    by (auto simp: key_ok_def)
  then show ?thesis
    using probe inside new
    by (auto simp: hash_add_entry_def hash_index_run [OF ok key] table_ok_slots [OF ok]
          hash_slot_in_range [OF ok] wr_in Let_def split: option.split)
qed

text \<open>Removal and lookup share the search.\<close>

abbreviation key_slot :: "hash_table \<Rightarrow> byte list \<Rightarrow> size_t \<Rightarrow> size_t \<Rightarrow> nat option" where
  "key_slot t k key_size n \<equiv>
     find (slot_holds t (cstring k)) (probe_order (start_slot k key_size n) (length t))"

lemma key_slot_run:
  assumes ok: "table_ok t n" and "terminated k"
  shows "locate_entry k t (length t) (start_slot k ks n) = Inr (key_slot t k ks n)"
  by (rule hash_locate_run)
     (use assms start_slot_bounds [OF ok, where k = k and ks = ks] in \<open>auto simp: table_okD [OF ok]\<close>)

lemma key_slot_Some:
  assumes "table_ok t n" and "key_slot t k ks n = Some i"
  shows "0 < i" and "i < length t" and "slot_holds t (cstring k) i"
proof -
  have "i \<in> set (probe_order (start_slot k ks n) (length t))" and "slot_holds t (cstring k) i"
    using assms(2) by (auto simp: find_Some_iff)
  then show "0 < i" and "i < length t" and "slot_holds t (cstring k) i"
    using start_slot_bounds [OF assms(1), where k = k and ks = ks] by (auto simp: probe_order_def)
qed

lemma hash_remove_run:
  assumes ok: "table_ok t n" and key: "key_ok k ks" and nul: "terminated k"
  shows "hash_remove_entry (Some k) ks (Some t) n =
           (case key_slot t k ks n of
              None \<Rightarrow> Inr (False, Some t)
            | Some i \<Rightarrow> Inr (True, Some (t[i := None])))"
proof -
  from key have "ks \<noteq> 0" by (auto simp: key_ok_def)
  then show ?thesis
    using key_slot_run [OF ok nul, of ks] key_slot_Some [OF ok, of k ks]
    by (auto simp: hash_remove_entry_def hash_index_run [OF ok key] table_ok_slots [OF ok]
          hash_slot_in_range [OF ok] wr_in Let_def split: option.split)
qed

lemma hash_fetch_run:
  assumes ok: "table_ok t n" and key: "key_ok k ks" and nul: "terminated k"
  shows "hash_fetch_entry (Some k) ks (Some t) n (Some c) =
           (case key_slot t k ks n of
              None \<Rightarrow> Inr (False, Some c)
            | Some i \<Rightarrow> Inr (True, Some (Some (entry_value (the (t ! i))))))"
proof -
  from key have "ks \<noteq> 0" by (auto simp: key_ok_def)
  then show ?thesis
    using key_slot_run [OF ok nul, of ks] key_slot_Some [OF ok, of k ks]
    by (auto simp: hash_fetch_entry_def hash_index_run [OF ok key] table_ok_slots [OF ok]
          hash_slot_in_range [OF ok] rd_in slot_holds_def Let_def split: option.split)
qed

section \<open>The map a table stands for\<close>

definition table_map :: "hash_table \<Rightarrow> byte list \<Rightarrow> byte list option" where
  "table_map t k = map_option (\<lambda>i. entry_value (the (t ! i))) (find (slot_holds t k) [1..<length t])"

definition keys_unique :: "hash_table \<Rightarrow> bool" where
  "keys_unique t \<longleftrightarrow>
     (\<forall>k i j. 0 < i \<longrightarrow> i < length t \<longrightarrow> 0 < j \<longrightarrow> j < length t \<longrightarrow>
        slot_holds t k i \<longrightarrow> slot_holds t k j \<longrightarrow> i = j)"

lemma key_slot_unique:
  assumes ok: "table_ok t n" and "keys_unique t"
  shows "key_slot t k ks n = find (slot_holds t (cstring k)) [1..<length t]"
proof (rule find_cong_set)
  have set: "set (probe_order (start_slot k ks n) (length t)) = {1..<length t}"
    by (rule set_probe_order) (use start_slot_bounds [OF ok, where k = k and ks = ks] in auto)
  then show "set (probe_order (start_slot k ks n) (length t)) = set [1..<length t]"
    by simp
  show "\<forall>x y. x \<in> set (probe_order (start_slot k ks n) (length t)) \<and>
          y \<in> set (probe_order (start_slot k ks n) (length t)) \<and>
          slot_holds t (cstring k) x \<and> slot_holds t (cstring k) y \<longrightarrow> x = y"
    unfolding set using assms(2) unfolding keys_unique_def
    by (metis One_nat_def Suc_le_lessD atLeastLessThan_iff)
qed

lemma table_map_Some_iff:
  assumes "keys_unique t"
  shows "table_map t k = Some v \<longleftrightarrow>
           (\<exists>i e. 0 < i \<and> i < length t \<and> t ! i = Some e \<and> entry_name e = k \<and> entry_value e = v)"
proof
  assume "table_map t k = Some v"
  then obtain i where "find (slot_holds t k) [1..<length t] = Some i" and v: "v = entry_value (the (t ! i))"
    by (auto simp: table_map_def)
  then have "i \<in> set [1..<length t]" and "slot_holds t k i"
    by (metis find_Some_iff nth_mem)+
  with v show "\<exists>i e. 0 < i \<and> i < length t \<and> t ! i = Some e \<and> entry_name e = k \<and> entry_value e = v"
    by (intro exI [of _ i]) (auto simp: slot_holds_def split: option.splits)
next
  assume "\<exists>i e. 0 < i \<and> i < length t \<and> t ! i = Some e \<and> entry_name e = k \<and> entry_value e = v"
  then obtain i e where i: "0 < i" "i < length t" "t ! i = Some e" "entry_name e = k" "entry_value e = v"
    by blast
  then have holds: "slot_holds t k i" by (simp add: slot_holds_Some)
  with i have "find (slot_holds t k) [1..<length t] \<noteq> None"
    by (auto simp: find_None_iff)
  then obtain j where j: "find (slot_holds t k) [1..<length t] = Some j" by blast
  then have "j \<in> set [1..<length t]" and "slot_holds t k j"
    by (metis find_Some_iff nth_mem)+
  with assms i holds have "j = i" by (auto simp: keys_unique_def)
  with j i show "table_map t k = Some v" by (simp add: table_map_def)
qed

lemma table_map_None_iff:
  "table_map t k = None \<longleftrightarrow> (\<forall>i. 0 < i \<longrightarrow> i < length t \<longrightarrow> \<not> slot_holds t k i)"
  by (auto simp: table_map_def find_None_iff)

end
