(* ===== verification/Hash_Store.thy ===== *)
theory Hash_Store
  imports Hash_Map
begin

text \<open>
  What a client of the hash table relies on. The locale \<open>kv_store\<close> is the contract of
  an insert, a lookup and a removal with a bounded number of bindings; its client lemmas
  run whole sequences of operations. The interpretation \<open>table\<close> discharges the
  contract for \<open>hash_add_entry\<close>, \<open>hash_fetch_entry\<close> and \<open>hash_remove_entry\<close>.
\<close>

section \<open>One slot changes\<close>

lemma slot_holds_update:
  "i < length t \<Longrightarrow> slot_holds (t[i := s]) k j \<longleftrightarrow>
     (if j = i then (case s of None \<Rightarrow> False | Some e \<Rightarrow> entry_name e = k) else slot_holds t k j)"
  by (auto simp: slot_holds_def)

lemma option_ext: "(\<And>v. m = Some v \<longleftrightarrow> m' = Some v) \<Longrightarrow> m = m'"
  by (cases m; cases m') auto

lemma insert_fresh:
  assumes "0 < i" and "i < length t" and "t ! i = None" and uniq: "keys_unique t"
    and fresh: "table_map t (entry_name e) = None"
  shows "keys_unique (t[i := Some e])"
    and "table_map (t[i := Some e]) = (table_map t)(entry_name e \<mapsto> entry_value e)"
proof -
  have no: "\<not> slot_holds t (entry_name e) j" if "0 < j" "j < length t" for j
    using fresh that by (simp add: table_map_None_iff)
  show uniq': "keys_unique (t[i := Some e])"
    using uniq no assms(1,2) by (auto simp: keys_unique_def slot_holds_update split: if_splits)
  show "table_map (t[i := Some e]) = (table_map t)(entry_name e \<mapsto> entry_value e)"
  proof (rule ext, rule option_ext)
    fix k v
    show "table_map (t[i := Some e]) k = Some v \<longleftrightarrow>
            ((table_map t)(entry_name e \<mapsto> entry_value e)) k = Some v"
    proof (cases "k = entry_name e")
      case True
      have "table_map (t[i := Some e]) k = Some (entry_value e)"
        unfolding table_map_Some_iff [OF uniq'] using assms(1,2) True
        by (intro exI [of _ i] exI [of _ e]) simp
      with True show ?thesis by simp
    next
      case False
      then have "table_map (t[i := Some e]) k = Some v \<longleftrightarrow> table_map t k = Some v"
        using assms(3) unfolding table_map_Some_iff [OF uniq'] table_map_Some_iff [OF uniq]
        by (metis length_list_update nth_list_update_eq nth_list_update_neq option.distinct(1) option.inject)
      with False show ?thesis by simp
    qed
  qed
qed

lemma delete_slot:
  assumes "0 < i" and "i < length t" and "slot_holds t k i" and uniq: "keys_unique t"
  shows "keys_unique (t[i := None])" and "table_map (t[i := None]) = (table_map t)(k := None)"
proof -
  show uniq': "keys_unique (t[i := None])"
    using uniq assms(2) by (auto simp: keys_unique_def slot_holds_update split: if_splits)
  show "table_map (t[i := None]) = (table_map t)(k := None)"
  proof (rule ext)
    fix k'
    show "table_map (t[i := None]) k' = ((table_map t)(k := None)) k'"
    proof (cases "k' = k")
      case True
      have "\<not> slot_holds (t[i := None]) k j" if "0 < j" "j < length t" for j
        using uniq assms that by (auto simp: slot_holds_update keys_unique_def)
      with True show ?thesis by (simp add: table_map_None_iff)
    next
      case False
      from assms(3) obtain e where "t ! i = Some e" "entry_name e = k"
        by (auto simp: slot_holds_def split: option.splits)
      with False have "table_map (t[i := None]) k' = Some v \<longleftrightarrow> table_map t k' = Some v" for v
        using assms(2) unfolding table_map_Some_iff [OF uniq'] table_map_Some_iff [OF uniq]
        by (metis length_list_update nth_list_update_eq nth_list_update_neq option.distinct(1) option.inject)
      with False show ?thesis by (auto intro: option_ext)
    qed
  qed
qed

section \<open>The operations refine the map\<close>

text \<open>The number of entries a table can still take: its empty slots but slot 0.\<close>

definition table_room :: "hash_table \<Rightarrow> nat" where
  "table_room t = length (filter (\<lambda>i. t ! i = None) [1..<length t])"

lemma find_free_Some:
  assumes "find (free_slot t) (probe_order h (length t)) = Some i" and "0 < h" and "h < length t"
  shows "0 < i" and "i < length t" and "t ! i = None"
proof -
  have "i \<in> set (probe_order h (length t))" and "free_slot t i"
    using assms(1) by (auto simp: find_Some_iff)
  then show "0 < i" and "i < length t" and "t ! i = None"
    using assms(2,3) by (auto simp: probe_order_def)
qed

lemma find_free_None:
  assumes "0 < h" and "h < length t"
  shows "find (free_slot t) (probe_order h (length t)) = None \<longleftrightarrow> table_room t = 0"
  by (auto simp: find_None_iff table_room_def filter_empty_conv set_probe_order [OF assms])

lemma find_room:
  assumes "table_ok t n" and "0 < table_room t"
  obtains i where "find (free_slot t) (probe_order (start_slot k ks n) (length t)) = Some i"
    and "0 < i" and "i < length t" and "t ! i = None"
proof -
  note h = start_slot_bounds [OF assms(1), where k = k and ks = ks]
  from find_free_None [OF h] assms(2)
  obtain i where i: "find (free_slot t) (probe_order (start_slot k ks n) (length t)) = Some i"
    by auto
  with find_free_Some [OF i h] that show thesis by blast
qed

lemma table_room_update:
  assumes "0 < i" and "i < length t"
  shows "t ! i = None \<Longrightarrow> table_room (t[i := Some e]) = table_room t - 1"
    and "t ! i \<noteq> None \<Longrightarrow> table_room (t[i := None]) = Suc (table_room t)"
proof -
  have count: "table_room u = card {j. 0 < j \<and> j < length u \<and> u ! j = None}" for u
  proof -
    have "table_room u = card (set (filter (\<lambda>i. u ! i = None) [1..<length u]))"
      unfolding table_room_def by (rule distinct_card [symmetric]) simp
    also have "set (filter (\<lambda>i. u ! i = None) [1..<length u]) = {j. 0 < j \<and> j < length u \<and> u ! j = None}"
      by auto
    finally show ?thesis .
  qed
  let ?F = "{j. 0 < j \<and> j < length t \<and> t ! j = None}"
  have fin: "finite ?F" by simp
  show "table_room (t[i := Some e]) = table_room t - 1" if "t ! i = None"
  proof -
    have "{j. 0 < j \<and> j < length (t[i := Some e]) \<and> t[i := Some e] ! j = None} = ?F - {i}"
      using assms(2) by (auto simp: nth_list_update split: if_splits)
    moreover have "i \<in> ?F" using that assms by simp
    ultimately show ?thesis by (simp add: count)
  qed
  show "table_room (t[i := None]) = Suc (table_room t)" if "t ! i \<noteq> None"
  proof -
    have "{j. 0 < j \<and> j < length (t[i := None]) \<and> t[i := None] ! j = None} = insert i ?F"
      using assms by (auto simp: nth_list_update)
    with that fin show ?thesis by (simp add: count)
  qed
qed

lemma entry_name_stored: "entry_name (stored k ks v vs) = cstring (take (unat ks) k)"
  by (auto simp: entry_name_def stored_def cstring_def takeWhile_append
        intro: takeWhile_eq_all_conv [THEN iffD2, symmetric])

lemma entry_value_stored: "entry_value (stored k ks v vs) = take (unat vs) v @ [0]"
  by (simp add: stored_def)

text \<open>The contracts of the three operations over \<open>table_map\<close>.\<close>

lemma add_contract:
  assumes ok: "table_ok t n" and uniq: "keys_unique t" and key: "key_ok k ks"
    and val: "1 \<le> unat vs" "unat vs \<le> length v" and fits: "unat ks + unat vs + 34 < 2 ^ 64"
    and fresh: "table_map t (cstring (take (unat ks) k)) = None" and room: "0 < table_room t"
  shows "\<exists>t' i.
      hash_add_entry True (Some k) ks (Some v) vs (Some t) n (Some c) = Inr (True, Some t', Some i) \<and>
      table_ok t' n \<and> keys_unique t' \<and> length t' = length t \<and> table_room t' = table_room t - 1 \<and>
      table_map t' = (table_map t)(cstring (take (unat ks) k) \<mapsto> take (unat vs) v @ [0])"
proof -
  obtain i where i: "find (free_slot t) (probe_order (start_slot k ks n) (length t)) = Some i"
    "0 < i" "i < length t" "t ! i = None"
    using find_room [OF ok room] .
  let ?e = "stored k ks v vs"
  have "table_map t (entry_name ?e) = None"
    using fresh by (simp add: entry_name_stored)
  note ins = insert_fresh [OF i(2-4) uniq this]
  have "hash_add_entry True (Some k) ks (Some v) vs (Some t) n (Some c)
          = Inr (True, Some (t[i := Some ?e]), Some (of_nat i))"
    by (simp add: hash_add_run [OF ok key val fits] i(1))
  moreover have "table_ok (t[i := Some ?e]) n"
    using ok i(2) by (rule table_ok_update) auto
  moreover have "table_room (t[i := Some ?e]) = table_room t - 1"
    using i(2-4) by (rule table_room_update(1))
  ultimately show ?thesis
    using ins by (auto simp: entry_name_stored entry_value_stored)
qed

lemma fetch_contract:
  assumes ok: "table_ok t n" and uniq: "keys_unique t" and key: "key_ok k ks" and nul: "terminated k"
  shows "hash_fetch_entry (Some k) ks (Some t) n (Some c) =
           (case table_map t (cstring k) of
              None \<Rightarrow> Inr (False, Some c)
            | Some v \<Rightarrow> Inr (True, Some (Some v)))"
  unfolding hash_fetch_run [OF ok key nul] key_slot_unique [OF ok uniq] table_map_def
  by (simp split: option.split)

lemma remove_contract:
  assumes ok: "table_ok t n" and uniq: "keys_unique t" and key: "key_ok k ks" and nul: "terminated k"
  shows "table_map t (cstring k) = None \<Longrightarrow>
           hash_remove_entry (Some k) ks (Some t) n = Inr (False, Some t)"
    and "table_map t (cstring k) \<noteq> None \<Longrightarrow>
           \<exists>t'. hash_remove_entry (Some k) ks (Some t) n = Inr (True, Some t') \<and>
             table_ok t' n \<and> keys_unique t' \<and> length t' = length t \<and>
             table_room t' = Suc (table_room t) \<and> table_map t' = (table_map t)(cstring k := None)"
proof -
  have map: "table_map t (cstring k) = None \<longleftrightarrow> key_slot t k ks n = None"
    unfolding key_slot_unique [OF ok uniq] by (simp add: table_map_def)
  show "hash_remove_entry (Some k) ks (Some t) n = Inr (False, Some t)"
    if "table_map t (cstring k) = None"
    using that map by (simp add: hash_remove_run [OF ok key nul])
  show "\<exists>t'. hash_remove_entry (Some k) ks (Some t) n = Inr (True, Some t') \<and>
          table_ok t' n \<and> keys_unique t' \<and> length t' = length t \<and>
          table_room t' = Suc (table_room t) \<and> table_map t' = (table_map t)(cstring k := None)"
    if bound: "table_map t (cstring k) \<noteq> None"
  proof -
    from bound map obtain i where i: "key_slot t k ks n = Some i" by auto
    note slot = key_slot_Some [OF ok i]
    then have "t ! i \<noteq> None" by (auto simp: slot_holds_def split: option.splits)
    then show ?thesis
      using slot delete_slot [OF slot uniq] table_ok_update [OF ok slot(1), of None]
        table_room_update(2) [OF slot(1,2)]
      by (simp add: hash_remove_run [OF ok key nul] i)
  qed
qed

section \<open>The contract as an interface\<close>

locale kv_store =
  fixes put :: "'k \<Rightarrow> 'v \<Rightarrow> 't \<Rightarrow> 't option"
    and get :: "'k \<Rightarrow> 't \<Rightarrow> 'w option"
    and del :: "'k \<Rightarrow> 't \<Rightarrow> 't option"
    and view :: "'t \<Rightarrow> 'k \<Rightarrow> 'w option"
    and room :: "'t \<Rightarrow> nat"
    and invar :: "'t \<Rightarrow> bool"
    and key_valid :: "'k \<Rightarrow> bool"
    and val_valid :: "'v \<Rightarrow> bool"
    and image :: "'v \<Rightarrow> 'w"
  assumes put_fresh:
      "invar t \<Longrightarrow> key_valid k \<Longrightarrow> val_valid v \<Longrightarrow> view t k = None \<Longrightarrow> 0 < room t \<Longrightarrow>
         \<exists>t'. put k v t = Some t' \<and> invar t' \<and> room t' = room t - 1 \<and> view t' = (view t)(k \<mapsto> image v)"
    and get_view: "invar t \<Longrightarrow> key_valid k \<Longrightarrow> get k t = view t k"
    and del_bound:
      "invar t \<Longrightarrow> key_valid k \<Longrightarrow> view t k \<noteq> None \<Longrightarrow>
         \<exists>t'. del k t = Some t' \<and> invar t' \<and> room t' = Suc (room t) \<and> view t' = (view t)(k := None)"
    and del_missing: "invar t \<Longrightarrow> key_valid k \<Longrightarrow> view t k = None \<Longrightarrow> del k t = None"
begin

text \<open>A client that binds a list of distinct fresh keys.\<close>

fun put_all :: "('k \<times> 'v) list \<Rightarrow> 't \<Rightarrow> 't option" where
  "put_all [] t = Some t"
| "put_all ((k, v) # kvs) t = (case put k v t of None \<Rightarrow> None | Some t' \<Rightarrow> put_all kvs t')"

lemma put_all_view:
  assumes "invar t" and "distinct (map fst kvs)" and "length kvs \<le> room t"
    and "list_all (\<lambda>(k, v). key_valid k \<and> val_valid v \<and> view t k = None) kvs"
  shows "\<exists>t'. put_all kvs t = Some t' \<and> invar t' \<and> room t' = room t - length kvs \<and>
           (\<forall>k. view t' k = (case map_of kvs k of None \<Rightarrow> view t k | Some v \<Rightarrow> Some (image v)))"
  using assms
proof (induction kvs arbitrary: t)
  case (Cons kv kvs)
  obtain k v where kv: "kv = (k, v)" by force
  from Cons.prems kv obtain t1 where t1: "put k v t = Some t1" "invar t1" "room t1 = room t - 1"
    "view t1 = (view t)(k \<mapsto> image v)"
    using put_fresh [of t k v] by auto
  have "list_all (\<lambda>(k, v). key_valid k \<and> val_valid v \<and> view t1 k = None) kvs"
    using Cons.prems kv t1(4) by (fastforce simp: list_all_iff image_iff)
  moreover have "distinct (map fst kvs)" and "length kvs \<le> room t1"
    using Cons.prems(2,3) t1(3) by auto
  ultimately obtain t2 where t2: "put_all kvs t1 = Some t2" "invar t2" "room t2 = room t1 - length kvs"
    "\<forall>k. view t2 k = (case map_of kvs k of None \<Rightarrow> view t1 k | Some v \<Rightarrow> Some (image v))"
    using Cons.IH [OF t1(2)] by blast
  have "map_of kvs k = None"
    using Cons.prems(2) kv by (auto simp: map_of_eq_None_iff image_iff)
  with t1 t2 kv show ?case by (auto split: option.split)
qed simp

lemma get_put_all:
  assumes "invar t" and "distinct (map fst kvs)" and "length kvs \<le> room t"
    and "list_all (\<lambda>(k, v). key_valid k \<and> val_valid v \<and> view t k = None) kvs"
    and "(k, v) \<in> set kvs"
  shows "\<exists>t'. put_all kvs t = Some t' \<and> get k t' = Some (image v)"
proof -
  obtain t' where "put_all kvs t = Some t'" "invar t'"
    "\<forall>k. view t' k = (case map_of kvs k of None \<Rightarrow> view t k | Some v \<Rightarrow> Some (image v))"
    using put_all_view [OF assms(1-4)] by blast
  moreover have "key_valid k" using assms(4,5) by (auto simp: list_all_iff)
  moreover have "map_of kvs k = Some v" using assms(2,5) by simp
  ultimately show ?thesis by (simp add: get_view)
qed

lemma del_put:
  assumes "invar t" and "key_valid k" and "val_valid v" and "view t k = None" and "0 < room t"
  shows "\<exists>t1 t2. put k v t = Some t1 \<and> del k t1 = Some t2 \<and> get k t2 = None \<and>
           view t2 = view t \<and> room t2 = room t"
proof -
  obtain t1 where t1: "put k v t = Some t1" "invar t1" "room t1 = room t - 1"
    "view t1 = (view t)(k \<mapsto> image v)"
    using put_fresh [OF assms] by blast
  then obtain t2 where t2: "del k t1 = Some t2" "invar t2" "room t2 = Suc (room t1)"
    "view t2 = (view t1)(k := None)"
    using del_bound [of t1 k] assms(2) by auto
  moreover have "view t2 = view t" using t1(4) t2(4) assms(4) by auto
  ultimately show ?thesis using t1 assms by (auto simp: get_view)
qed

end

section \<open>The table provides it\<close>

definition table_entries :: "hash_table \<Rightarrow> size_t" where
  "table_entries t = of_nat (length t div 2)"

definition store_put :: "byte list \<Rightarrow> byte list \<Rightarrow> hash_table \<Rightarrow> hash_table option" where
  "store_put k v t =
     (case hash_add_entry True (Some (k @ [0])) (of_nat (length k)) (Some v) (of_nat (length v))
             (Some t) (table_entries t) (Some 0) of
        Inr (True, t', _) \<Rightarrow> t'
      | _ \<Rightarrow> None)"

definition store_get :: "byte list \<Rightarrow> hash_table \<Rightarrow> byte list option" where
  "store_get k t =
     (case hash_fetch_entry (Some (k @ [0])) (of_nat (length k)) (Some t) (table_entries t) (Some None) of
        Inr (True, Some v) \<Rightarrow> v
      | _ \<Rightarrow> None)"

definition store_del :: "byte list \<Rightarrow> hash_table \<Rightarrow> hash_table option" where
  "store_del k t =
     (case hash_remove_entry (Some (k @ [0])) (of_nat (length k)) (Some t) (table_entries t) of
        Inr (True, t') \<Rightarrow> t'
      | _ \<Rightarrow> None)"

definition store_inv :: "hash_table \<Rightarrow> bool" where
  "store_inv t \<longleftrightarrow> table_ok t (table_entries t) \<and> keys_unique t"

definition plain_key :: "byte list \<Rightarrow> bool" where
  "plain_key k \<longleftrightarrow> k \<noteq> [] \<and> 0 \<notin> set k \<and> length k < 2 ^ 32"

definition plain_value :: "byte list \<Rightarrow> bool" where
  "plain_value v \<longleftrightarrow> v \<noteq> [] \<and> length v < 2 ^ 32"

lemma unat_length: "length xs < 2 ^ 32 \<Longrightarrow> unat (of_nat (length xs) :: size_t) = length xs"
  by (simp add: unat_of_nat)

lemma plain_key_ok:
  assumes "plain_key k"
  shows "key_ok (k @ [0]) (of_nat (length k))" and "terminated (k @ [0])"
    and "cstring (k @ [0]) = k" and "cstring (take (unat (of_nat (length k) :: size_t)) (k @ [0])) = k"
    and "unat (of_nat (length k) :: size_t) = length k"
proof -
  from assms have k: "k \<noteq> []" "0 \<notin> set k" and len: "length k < 2 ^ 32"
    by (simp_all add: plain_key_def)
  from len show n: "unat (of_nat (length k) :: size_t) = length k" by (rule unat_length)
  from k n show "key_ok (k @ [0]) (of_nat (length k))" by (simp add: key_ok_def Suc_le_eq)
  show "terminated (k @ [0])" by simp
  show name: "cstring (k @ [0]) = k" using k(2) by simp
  show "cstring (take (unat (of_nat (length k) :: size_t)) (k @ [0])) = k"
    using k(2) by (auto simp: n cstring_def takeWhile_eq_all_conv)
qed

lemma plain_value_ok:
  assumes "plain_value v"
  shows "unat (of_nat (length v) :: size_t) = length v" and "1 \<le> unat (of_nat (length v) :: size_t)"
  using assms by (simp_all add: plain_value_def unat_length Suc_le_eq)

lemma store_get_view:
  "store_inv t \<Longrightarrow> plain_key k \<Longrightarrow> store_get k t = table_map t k"
  using fetch_contract [of t "table_entries t" "k @ [0]" "of_nat (length k)" None]
  by (auto simp: store_inv_def store_get_def plain_key_ok split: option.split)

lemma store_put_fresh:
  assumes inv: "store_inv t" and k: "plain_key k" and v: "plain_value v"
    and fresh: "table_map t k = None" and room: "0 < table_room t"
  shows "\<exists>t'. store_put k v t = Some t' \<and> store_inv t' \<and> table_room t' = table_room t - 1 \<and>
           table_map t' = (table_map t)(k \<mapsto> v @ [0])"
proof -
  note vs = plain_value_ok [OF v] and ks = plain_key_ok [OF k]
  have ok: "table_ok t (table_entries t)" and uniq: "keys_unique t"
    using inv by (simp_all add: store_inv_def)
  have fits: "unat (of_nat (length k) :: size_t) + unat (of_nat (length v) :: size_t) + 34 < 2 ^ 64"
    using k v by (simp only: vs(1) ks(5)) (simp add: plain_key_def plain_value_def)
  have len: "unat (of_nat (length v) :: size_t) \<le> length v" by (simp only: vs(1))
  have fresh': "table_map t (cstring (take (unat (of_nat (length k) :: size_t)) (k @ [0]))) = None"
    by (simp only: ks(4) fresh)
  from add_contract [OF ok uniq ks(1) vs(2) len fits fresh' room, of 0]
  obtain t' i where t':
    "hash_add_entry True (Some (k @ [0])) (of_nat (length k)) (Some v) (of_nat (length v))
       (Some t) (table_entries t) (Some 0) = Inr (True, Some t', Some i)"
    "table_ok t' (table_entries t)" "keys_unique t'" "length t' = length t"
    "table_room t' = table_room t - 1" "table_map t' = (table_map t)(k \<mapsto> v @ [0])"
    unfolding ks(4) vs(1) by auto
  then have "store_put k v t = Some t'" and "store_inv t'"
    by (simp_all add: store_put_def store_inv_def table_entries_def)
  with t'(5,6) show ?thesis by blast
qed

lemma store_del_bound:
  assumes inv: "store_inv t" and k: "plain_key k" and bound: "table_map t k \<noteq> None"
  shows "\<exists>t'. store_del k t = Some t' \<and> store_inv t' \<and> table_room t' = Suc (table_room t) \<and>
           table_map t' = (table_map t)(k := None)"
proof -
  note ks = plain_key_ok [OF k]
  have ok: "table_ok t (table_entries t)" and uniq: "keys_unique t"
    using inv by (simp_all add: store_inv_def)
  have "table_map t (cstring (k @ [0])) \<noteq> None" by (simp only: ks(3) bound not_False_eq_True)
  from remove_contract(2) [OF ok uniq ks(1,2) this]
  obtain t' where t':
    "hash_remove_entry (Some (k @ [0])) (of_nat (length k)) (Some t) (table_entries t) = Inr (True, Some t')"
    "table_ok t' (table_entries t)" "keys_unique t'" "length t' = length t"
    "table_room t' = Suc (table_room t)" "table_map t' = (table_map t)(k := None)"
    unfolding ks(3) by blast
  then have "store_del k t = Some t'" and "store_inv t'"
    by (simp_all add: store_del_def store_inv_def table_entries_def)
  with t'(5,6) show ?thesis by blast
qed

lemma store_del_missing:
  "store_inv t \<Longrightarrow> plain_key k \<Longrightarrow> table_map t k = None \<Longrightarrow> store_del k t = None"
  using remove_contract(1) [of t "table_entries t" "k @ [0]" "of_nat (length k)"]
  by (auto simp: store_inv_def store_del_def plain_key_ok)

interpretation store: kv_store store_put store_get store_del table_map table_room store_inv
    plain_key plain_value "\<lambda>v. v @ [0]"
  by unfold_locales
    (blast intro: store_put_fresh store_get_view store_del_bound store_del_missing)+

end
