(* ===== verification/Hash_Properties.thy ===== *)
theory Hash_Properties
  imports Hash_Store
begin

text \<open>
  The properties of the hash table: what an insert, a lookup and a removal do to the map the
  table stands for, on every branch, whole sequences of inserts through the \<open>store\<close>
  interpretation, the range of the hash, a second insert of a bound key, and the release of
  a table.
\<close>

section \<open>A concrete table\<close>

text \<open>An allocation of two entries, the smallest the code allows, and the key \<open>/a\<close>.\<close>

definition small_table :: hash_table where
  "small_table = replicate 4 None"

definition small_key :: "byte list" where
  "small_key = [47, 97, 0]"

lemma small_table_ok [simp]: "table_ok small_table 2"
  by (simp add: table_ok_def small_table_def names_ok_def list_all_iff)

lemma small_table_empty:
  "i < 4 \<Longrightarrow> \<not> slot_holds small_table k i" "table_map small_table k = None" "length small_table = 4"
proof -
  show hold: "\<not> slot_holds small_table k i" if "i < 4" for i
    using that by (simp add: small_table_def slot_holds_def)
  then show "table_map small_table k = None"
    by (simp add: table_map_None_iff small_table_def)
  show "length small_table = 4" by (simp add: small_table_def)
qed

lemma small_table_unique [simp]: "keys_unique small_table"
  by (simp add: keys_unique_def small_table_empty)

lemma small_table_room [simp]: "table_room small_table = 3"
  by (simp add: table_room_def small_table_def upt_rec)

lemma small_key_ok [simp]: "key_ok small_key 2" "terminated small_key"
  by (simp_all add: key_ok_def small_key_def)

lemma replicate_empty:
  assumes "2 \<le> unat n" and "unat n < 2 ^ 63"
  shows "table_ok (replicate (unat (n * 2)) None) n" and "keys_unique (replicate (unat (n * 2)) None)"
    and "table_map (replicate (unat (n * 2)) None) = (\<lambda>_. None)"
    and "table_room (replicate (unat (n * 2)) None) = 2 * unat n - 1"
proof -
  have hold: "\<not> slot_holds (replicate m None) k i" if "i < m" for k i m
    using that by (simp add: slot_holds_def)
  show "table_ok (replicate (unat (n * 2)) None) n"
    using assms by (simp add: table_ok_def unat_double names_ok_def list_all_iff)
  show "keys_unique (replicate (unat (n * 2)) None)"
    by (simp add: keys_unique_def hold)
  show "table_map (replicate (unat (n * 2)) None) = (\<lambda>_. None)"
    by (rule ext) (simp add: table_map_None_iff hold)
  have "filter (\<lambda>i. replicate m None ! i = None) [1..<m] = [1..<m]" for m
    by (simp add: filter_id_conv)
  then show "table_room (replicate (unat (n * 2)) None) = 2 * unat n - 1"
    using assms by (simp add: table_room_def unat_double)
qed

section \<open>Properties\<close>

text \<open>
  C6: An insert of a key the table does not hold never faults. It succeeds exactly when one
  of the slots 1 .. 2n-1 is empty, wherever the key hashes to; it then binds the key to the
  copied value and changes no other binding, and it keeps the table's invariants. When no
  slot is empty it returns false and the table is as it was.
\<close>

theorem hash_add_refines:
  assumes "table_ok t n" and "keys_unique t" and "key_ok k ks"
    and "1 \<le> unat vs" and "unat vs \<le> length v" and "unat ks + unat vs + 34 < 2 ^ 64"
    and "table_map t (cstring (take (unat ks) k)) = None"
  shows "case hash_add_entry True (Some k) ks (Some v) vs (Some t) n (Some c) of
           Inr (added, Some t', Some i) \<Rightarrow>
             table_ok t' n \<and> keys_unique t' \<and> (added \<longleftrightarrow> 0 < table_room t) \<and>
             table_map t' = (if added then (table_map t)(cstring (take (unat ks) k) \<mapsto> take (unat vs) v @ [0])
                             else table_map t)
         | _ \<Rightarrow> False"
proof (cases "0 < table_room t")
  case True
  then show ?thesis using add_contract [OF assms True, of c] by auto
next
  case False
  then have "find (free_slot t) (probe_order (start_slot k ks n) (length t)) = None"
    using find_free_None [OF start_slot_bounds [OF assms(1)]] by simp
  with False assms(1,2) show ?thesis
    by (simp add: hash_add_run [OF assms(1,3-6)])
qed

theorem hash_add_refines_witness:
  "case hash_add_entry True (Some small_key) 2 (Some [7, 8]) 2 (Some small_table) 2 (Some 0) of
     Inr (added, Some t', Some i) \<Rightarrow>
       table_ok t' 2 \<and> keys_unique t' \<and> (added \<longleftrightarrow> 0 < table_room small_table) \<and>
       table_map t' = (if added then (table_map small_table)
          (cstring (take (unat (2 :: size_t)) small_key) \<mapsto> take (unat (2 :: size_t)) [7, 8] @ [0])
                       else table_map small_table)
   | _ \<Rightarrow> False"
  by (rule hash_add_refines) (simp_all add: small_table_empty)

text \<open>
  C12: A lookup in a table with unique keys never faults and returns exactly the binding of
  the key, found or not, independently of where probing put it; the out cell is written only
  on success.
\<close>

theorem hash_fetch_refines:
  assumes "table_ok t n" and "keys_unique t" and "key_ok k ks" and "terminated k"
  shows "hash_fetch_entry (Some k) ks (Some t) n (Some c) =
           Inr (case table_map t (cstring k) of None \<Rightarrow> (False, Some c) | Some v \<Rightarrow> (True, Some (Some v)))"
  using fetch_contract [OF assms, of c] by (simp split: option.split)

theorem hash_fetch_refines_witness:
  "hash_fetch_entry (Some small_key) 2 (Some small_table) 2 (Some None) =
     Inr (case table_map small_table (cstring small_key) of
            None \<Rightarrow> (False, Some None) | Some v \<Rightarrow> (True, Some (Some v)))"
  by (rule hash_fetch_refines) simp_all

text \<open>
  C13: A removal never faults, succeeds exactly when the key is bound, deletes that binding
  and no other, and keeps the invariants; since a search does not stop at an empty slot, no
  tombstone is needed.
\<close>

theorem hash_remove_refines:
  assumes "table_ok t n" and "keys_unique t" and "key_ok k ks" and "terminated k"
  shows "case hash_remove_entry (Some k) ks (Some t) n of
           Inr (removed, Some t') \<Rightarrow>
             table_ok t' n \<and> keys_unique t' \<and> (removed \<longleftrightarrow> table_map t (cstring k) \<noteq> None) \<and>
             table_map t' = (table_map t)(cstring k := None)
         | _ \<Rightarrow> False"
proof (cases "table_map t (cstring k)")
  case None
  then have "(table_map t)(cstring k := None) = table_map t" by auto
  with None remove_contract(1) [OF assms] assms(1,2) show ?thesis by simp
next
  case (Some v)
  with remove_contract(2) [OF assms] show ?thesis by auto
qed

theorem hash_remove_refines_witness:
  "case hash_remove_entry (Some small_key) 2 (Some small_table) 2 of
     Inr (removed, Some t') \<Rightarrow>
       table_ok t' 2 \<and> keys_unique t' \<and> (removed \<longleftrightarrow> table_map small_table (cstring small_key) \<noteq> None) \<and>
       table_map t' = (table_map small_table)(cstring small_key := None)
   | _ \<Rightarrow> False"
  by (rule hash_remove_refines) simp_all

text \<open>A list of inserts, and the store a fresh allocation gives.\<close>

fun store_put_all :: "(byte list \<times> byte list) list \<Rightarrow> hash_table \<Rightarrow> hash_table option" where
  "store_put_all [] t = Some t"
| "store_put_all ((k, v) # kvs) t =
     (case store_put k v t of None \<Rightarrow> None | Some t' \<Rightarrow> store_put_all kvs t')"

lemma store_put_all_eq: "store_put_all kvs t = store.put_all kvs t"
  by (induction kvs t rule: store_put_all.induct) (simp_all split: option.split)

lemma allocated_store:
  fixes n :: size_t
  assumes "2 \<le> unat n" and "unat n < 2 ^ 63"
  shows "store_inv (replicate (unat (n * 2)) None)"
proof -
  have "table_entries (replicate (unat (n * 2)) None) = n"
    by (simp add: table_entries_def unat_double [OF assms(2)])
  with replicate_empty(1,2) [OF assms] show ?thesis by (simp add: store_inv_def)
qed

text \<open>
  C23: Starting from a fresh allocation of \<open>n\<close> entries, any list of at most 2n-1 inserts
  with distinct keys succeeds, and a lookup of each key then returns the value inserted for
  it: collisions lose nothing until every usable slot is taken.
\<close>

theorem hash_fill_and_fetch:
  assumes "2 \<le> unat n" and "unat n < 2 ^ 63" and "length kvs \<le> 2 * unat n - 1"
    and "distinct (map fst kvs)" and "list_all (\<lambda>(k, v). plain_key k \<and> plain_value v) kvs"
    and "(k, v) \<in> set kvs"
  shows "\<exists>t t'. hash_allocate True n None = (True, Some t) \<and> store_put_all kvs t = Some t' \<and>
           store_get k t' = Some (v @ [0])"
proof -
  let ?t = "replicate (unat (n * 2)) None"
  have "n \<noteq> 0" and "\<not> n < 2"
    using assms(1) by (auto simp: word_less_nat_alt)
  then have "hash_allocate True n None = (True, Some ?t)"
    by (simp add: hash_allocate_def)
  moreover have "\<exists>t'. store.put_all kvs ?t = Some t' \<and> store_get k t' = Some (v @ [0])"
    by (rule store.get_put_all [OF allocated_store])
       (use assms in \<open>auto simp: replicate_empty [OF assms(1,2)]\<close>)
  ultimately show ?thesis by (auto simp: store_put_all_eq)
qed

theorem hash_fill_and_fetch_witness:
  "\<exists>t t'. hash_allocate True 2 None = (True, Some t) \<and>
     store_put_all [([47, 97], [1]), ([47, 98], [2]), ([47], [3])] t = Some t' \<and>
     store_get [47, 98] t' = Some ([2] @ [0])"
  by (rule hash_fill_and_fetch) (simp_all add: plain_key_def plain_value_def)

text \<open>
  Removing a key right after it was inserted restores the map and the free capacity,
  and the key is no longer found.
\<close>

lemma hash_put_then_delete:
  assumes "store_inv t" and "plain_key k" and "plain_value v" and "table_map t k = None"
    and "0 < table_room t"
  shows "\<exists>t1 t2. store_put k v t = Some t1 \<and> store_del k t1 = Some t2 \<and> store_get k t2 = None \<and>
           table_map t2 = table_map t \<and> table_room t2 = table_room t"
  by (rule store.del_put [OF assms])

text \<open>
  The hash of a key of \<open>key_size\<close> bytes is a slot between 1 and the table size: never
  slot 0, which the table reserves, and never past the end.
\<close>

lemma hash_index_in_range:
  assumes "1 \<le> unat ks" and "unat ks \<le> length k" and "2 \<le> unat slots"
  shows "\<exists>i. generate_hash_index (Some k) ks slots (Some c) = Inr (True, Some i) \<and>
           0 < unat i \<and> unat i < unat slots"
  using generate_hash_index_run [OF assms] hash_slot_bounds [OF assms(3)] by blast

text \<open>
  \<open>hash_add_entry\<close> does not look for the key it inserts. Where the key already sits in
  its hashed slot, a second insert succeeds, uses up another slot, and a lookup still
  returns the first value.
\<close>

theorem hash_add_shadowed:
  assumes ok: "table_ok t n" and key: "key_ok k ks" "terminated k"
    and val: "1 \<le> unat vs" "unat vs \<le> length v" and fits: "unat ks + unat vs + 34 < 2 ^ 64"
    and here: "t ! start_slot k ks n = Some e" "entry_name e = cstring k" and room: "0 < table_room t"
  shows "\<exists>t' i. hash_add_entry True (Some k) ks (Some v) vs (Some t) n (Some c) = Inr (True, Some t', Some i) \<and>
           table_room t' = table_room t - 1 \<and>
           hash_fetch_entry (Some k) ks (Some t') n (Some d) = Inr (True, Some (Some (entry_value e)))"
proof -
  let ?h = "start_slot k ks n" and ?e = "stored k ks v vs"
  obtain i where i: "find (free_slot t) (probe_order ?h (length t)) = Some i" "0 < i" "i < length t" "t ! i = None"
    using find_room [OF ok room] .
  let ?t = "t[i := Some ?e]"
  have "i \<noteq> ?h" using i(4) here(1) by auto
  then have "slot_holds ?t (cstring k) ?h"
    using here i(3) by (simp add: slot_holds_Some)
  moreover have "?h < length t" by (rule start_slot_bounds(2) [OF ok])
  ultimately have slot: "find (slot_holds ?t (cstring k)) (probe_order ?h (length t)) = Some ?h"
    by (simp add: probe_order_def upt_step)
  have ok': "table_ok ?t n" using ok i(2) by (rule table_ok_update) auto
  have "hash_fetch_entry (Some k) ks (Some ?t) n (Some d) = Inr (True, Some (Some (entry_value e)))"
    using here \<open>i \<noteq> ?h\<close> by (simp add: hash_fetch_run [OF ok' key] slot)
  then show ?thesis
    using i table_room_update(1) [OF i(2-4)]
    by (simp add: hash_add_run [OF ok key(1) val fits])
qed

definition held_table :: hash_table where
  "held_table = small_table[1 := Some (stored [125, 0] 1 [5] 1)]"

theorem hash_add_shadowed_witness:
  "\<exists>t' i. hash_add_entry True (Some [125, 0]) 1 (Some [6]) 1 (Some held_table) 2 (Some 0)
       = Inr (True, Some t', Some i) \<and>
     table_room t' = table_room held_table - 1 \<and>
     hash_fetch_entry (Some [125, 0]) 1 (Some t') 2 (Some None)
       = Inr (True, Some (Some (entry_value (stored [125, 0] 1 [5] 1))))"
proof (rule hash_add_shadowed)
  show "table_ok held_table 2"
    unfolding held_table_def by (rule table_ok_update) auto
  show "held_table ! start_slot [125, 0] 1 2 = Some (stored [125, 0] 1 [5] 1)"
    by (simp add: held_table_def small_table_def hash_slot_def KEYGEN_SALT_def)
  show "0 < table_room held_table"
    by (simp add: held_table_def table_room_update small_table_def table_room_def upt_rec)
qed (simp_all add: key_ok_def entry_name_stored)

text \<open>
  C39: \<open>hash_free\<close> called with the address of a table variable, as its signature asks,
  always runs out of bounds: it indexes the address instead of the table, so already slot 1
  lies outside the variable, and no table is ever released through it.
\<close>

theorem hash_free_out_of_bounds:
  assumes "1 \<le> unat n" and "unat n < 2 ^ 63" and "t \<noteq> []"
  shows "hash_free (Some [Live t]) n = Inl Out_Of_Bounds"
proof -
  have "unat (n * 2) = 2 * unat n" using assms(2) by (rule unat_double)
  then obtain m where m: "unat (n * 2) = Suc (Suc m)"
    using assms(1) by (metis One_nat_def Suc_le_D mult_2 add_Suc_right add_Suc)
  have "hash_free_loop [Live t] 0 (Suc (Suc m)) = Inl Out_Of_Bounds"
    using assms(3)
    by (simp add: hash_free_loop.simps [of "[_]" 0] hash_free_loop.simps [of "[_]" "Suc 0"] rd_def
        split: option.split)
  moreover have "n \<noteq> 0" using assms(1) by auto
  ultimately show ?thesis by (simp add: hash_free_def rd_def m)
qed

theorem hash_free_out_of_bounds_witness:
  "hash_free (Some [Live small_table]) 2 = Inl Out_Of_Bounds"
  by (rule hash_free_out_of_bounds) (simp_all add: small_table_def)

end
