(* ===== verification/Http_Types.thy ===== *)
theory Http_Types
  imports C_String
begin

text \<open>
  \<open>types/http-types/http_types.h\<close> and \<open>http_types.c\<close>: the request record, its
  allocation and its release. A header object is a \<open>ptr\<close>, \<open>Freed\<close> once the code has
  freed it; \<open>http_headers\<close> is the array of header pointers. Sizes count cells of arrays in
  memory and are naturals.
\<close>

section \<open>Enumerations\<close>

datatype http_request_protocol = VERSION_0_9 | VERSION_1_0 | VERSION_1_1 | VERSION_COUNT | VERSION_NULL

datatype http_request_method = TYPE_NULL | TYPE_GET | TYPE_POST | TYPE_PUT | TYPE_DELETE | TYPE_COUNT

text \<open>C compares enumerators by their position.\<close>

fun method_number :: "http_request_method \<Rightarrow> nat" where
  "method_number TYPE_NULL = 0"
| "method_number TYPE_GET = 1"
| "method_number TYPE_POST = 2"
| "method_number TYPE_PUT = 3"
| "method_number TYPE_DELETE = 4"
| "method_number TYPE_COUNT = 5"

lemma method_number_inj: "method_number a = method_number b \<Longrightarrow> a = b"
  by (cases a; cases b) auto

instantiation http_request_method :: linorder
begin

definition less_eq_http_request_method :: "http_request_method \<Rightarrow> http_request_method \<Rightarrow> bool" where
  "less_eq_http_request_method a b \<longleftrightarrow> method_number a \<le> method_number b"

definition less_http_request_method :: "http_request_method \<Rightarrow> http_request_method \<Rightarrow> bool" where
  "less_http_request_method a b \<longleftrightarrow> method_number a < method_number b"

instance
  by standard
    (auto simp: less_eq_http_request_method_def less_http_request_method_def dest: method_number_inj)

end

section \<open>Constants\<close>

definition MAX_HTTP_HEADER_LINE_SIZE :: nat where
  "MAX_HTTP_HEADER_LINE_SIZE = 8192"

definition MAX_HTTP_HEADER_COUNT :: nat where
  "MAX_HTTP_HEADER_COUNT = 100"

definition MAX_HTTP_HEADER_TOTAL_SIZE :: nat where
  "MAX_HTTP_HEADER_TOTAL_SIZE = MAX_HTTP_HEADER_LINE_SIZE * MAX_HTTP_HEADER_COUNT"

section \<open>Records\<close>

record http_request_header =
  key_size :: nat
  value_size :: nat
  key :: "byte list ptr"
  val :: "byte list ptr"
  valid :: bool

type_synonym header_ptr = "http_request_header ptr"

record http_request =
  http_method :: http_request_method
  http_protocol :: http_request_protocol
  http_headers :: "header_ptr list ptr"
  num_headers :: nat
  http_route_size :: nat
  http_headers_size :: nat
  http_body_size :: nat
  http_route :: "byte list ptr"
  http_body :: "byte list ptr"
  http_host :: "byte list ptr"

text \<open>What \<open>calloc(1, sizeof(...))\<close> returns.\<close>

definition zero_header :: http_request_header where
  "zero_header = \<lparr>key_size = 0, value_size = 0, key = Null, val = Null, valid = False\<rparr>"

definition zero_request :: http_request where
  "zero_request =
     \<lparr>http_method = TYPE_NULL, http_protocol = VERSION_0_9, http_headers = Null, num_headers = 0,
      http_route_size = 0, http_headers_size = 0, http_body_size = 0, http_route = Null,
      http_body = Null, http_host = Null\<rparr>"

section \<open>Allocation\<close>

text \<open>
  \<open>calloc(MAX_HTTP_HEADER_COUNT, sizeof(http_request_header))\<close> is 100 objects of 40 bytes,
  which the code then reads as an array of 8-byte pointers.
\<close>

definition header_block_cells :: nat where
  "header_block_cells = MAX_HTTP_HEADER_COUNT * 40 div 8"

text \<open>
  The argument is \<open>None\<close> for a NULL pointer, else the pointer variable it points at; the
  result carries that variable and the number of allocations made.
\<close>

definition allocate_http_request ::
  "allocator \<Rightarrow> nat \<Rightarrow> http_request ptr option \<Rightarrow> bool \<times> http_request ptr option \<times> nat" where
  "allocate_http_request alloc n instance_var =
     (case instance_var of
        None \<Rightarrow> (False, None, n)
      | Some _ \<Rightarrow>
          if \<not> alloc n then (False, Some Null, Suc n)
          else
            (let r0 = zero_request\<lparr>http_method := TYPE_NULL, http_headers_size := 0\<rparr>
             in if \<not> alloc (Suc n) then (False, Some (Live r0), n + 2)
                else
                  (let r1 = r0\<lparr>http_headers := Live (replicate header_block_cells Null),
                               http_route_size := 0\<rparr>
                   in if \<not> alloc (n + 2) then (False, Some (Live r1), n + 3)
                      else (True,
                        Some (Live (r1\<lparr>http_route := Live (replicate (8 * MAX_HTTP_HEADER_LINE_SIZE) 0),
                                       http_body_size := 0, http_body := Null\<rparr>)),
                        n + 3))))"

section \<open>Release\<close>

text \<open>
  The loop over the children: \<open>++header_cursor\<close> steps over the header object itself, not
  over the array of pointers, so the second \<open>free\<close> gets an address inside or behind the
  object just freed. \<open>off\<close> counts the steps; the cursor is NULL only if it starts so.
\<close>

function free_headers_loop :: "header_ptr \<Rightarrow> nat \<Rightarrow> bool \<Rightarrow> fault + bool" where
  "free_headers_loop header_cursor off function_result =
     (if is_null header_cursor then Inr function_result
      else if off = 0 then
        cbind (cfree header_cursor) (\<lambda>_. free_headers_loop header_cursor (Suc off) False)
      else Inl Invalid_Free)"
  by pat_completeness auto
termination
  by (relation "measure (\<lambda>(p, off, r). if off = 0 then 1 else 0)") auto

declare free_headers_loop.simps [simp del]

definition free_http_request :: "http_request ptr \<Rightarrow> fault + bool" where
  "free_http_request request =
     (if is_null request then Inr False
      else cbind (deref request)
        (\<lambda>r. cbind (cfree (http_route r))
          (\<lambda>route. let function_result = is_null route
            in cbind (deref (http_headers r))
              (\<lambda>headers. cbind (rd headers 0)
                (\<lambda>header_cursor. cbind (free_headers_loop header_cursor 0 function_result)
                  (\<lambda>function_result'. cbind (cfree (http_headers r))
                    (\<lambda>headers'. let function_result'' = (function_result' \<and> is_null headers')
                      in cbind (cfree request)
                        (\<lambda>request'. Inr (function_result'' \<and> is_null request')))))))))"

section \<open>Lemmas\<close>

lemma cfree_Inr: "cfree p = Inr p' \<longleftrightarrow> (p = Null \<and> p' = Null) \<or> (\<exists>x. p = Live x \<and> p' = Freed)"
  by (cases p) auto

lemma allocate_http_request_success:
  assumes "\<And>k. alloc k"
  shows "allocate_http_request alloc n (Some p) =
           (True, Some (Live (zero_request
              \<lparr>http_headers := Live (replicate header_block_cells Null),
               http_route := Live (replicate (8 * MAX_HTTP_HEADER_LINE_SIZE) 0)\<rparr>)), n + 3)"
  using assms by (simp add: allocate_http_request_def zero_request_def Let_def)

lemma free_headers_loop_live [simp]:
  "free_headers_loop (Live h) 0 r = Inl Invalid_Free"
  by (simp add: free_headers_loop.simps [of "Live h" 0] free_headers_loop.simps [of "Live h" "Suc 0"])

lemma free_headers_loop_null [simp]: "free_headers_loop Null off r = Inr r"
  by (simp add: free_headers_loop.simps [of Null off])

lemma free_http_request_never_true: "free_http_request p \<noteq> Inr True"
  by (cases p) (auto simp: free_http_request_def Let_def cbind_eq_Inr cfree_Inr)

lemma free_http_request_first_header:
  assumes "http_route r \<noteq> Freed" and "http_headers r = Live (Live h # hs)"
  shows "free_http_request (Live r) = Inl Invalid_Free"
  using assms by (cases "http_route r") (simp_all add: free_http_request_def rd_def)

end
