(* ===== verification/Http_Handler.thy ===== *)
theory Http_Handler
  imports Http_Types
begin

text \<open>
  \<open>services/http/http-handler/http_handler.c\<close>: the parser of a request. Strings are the
  bytes of their arrays, cursors are offsets. Automatic arrays the code does not initialise
  start with whatever the stack holds: \<open>stack a i\<close> is the byte the array \<open>a\<close> has at
  \<open>i\<close> when it comes into scope. A function that returns \<open>bool\<close> in C returns it beside
  the objects it writes.
\<close>

section \<open>Constants and tables\<close>

definition PROTOCOL :: "byte list" where
  "PROTOCOL = literal ''HTTP''"

definition HOST_HEADER_KEY :: "byte list" where
  "HOST_HEADER_KEY = literal ''Host''"

definition method_entries :: "(byte list option \<times> http_request_method) list" where
  "method_entries =
     [(Some (literal ''GET''), TYPE_GET),
      (Some (literal ''POST''), TYPE_POST),
      (Some (literal ''PUT''), TYPE_PUT),
      (Some (literal ''DELETE''), TYPE_DELETE),
      (None, TYPE_NULL)]"

definition protocol_entries :: "(byte list option \<times> http_request_protocol) list" where
  "protocol_entries =
     [(Some (literal ''''), VERSION_0_9),
      (Some (literal ''HTTP/1.0''), VERSION_1_0),
      (Some (literal ''HTTP/1.1''), VERSION_1_1)]"

datatype stack_array = Line_Partition | Header_Line nat

type_synonym stack_bytes = "stack_array \<Rightarrow> nat \<Rightarrow> byte"

definition vla :: "stack_bytes \<Rightarrow> stack_array \<Rightarrow> nat \<Rightarrow> byte list" where
  "vla stack a n = map (stack a) [0..<n]"

section \<open>The request line\<close>

record line_state =
  line_partition :: "byte list"
  num_parsed :: nat
  word_increment :: nat
  method_size :: nat
  route_size :: nat
  protocol_size :: nat

text \<open>
  The search loops over the two tables: \<open>count\<close> iterations, each one \<open>strcmp\<close> with the
  entry's name, NULL in the last method entry.
\<close>

fun entry_lookup :: "byte list \<Rightarrow> (byte list option \<times> 'a) list \<Rightarrow> nat \<Rightarrow> fault + 'a option" where
  "entry_lookup part entries 0 = Inr None"
| "entry_lookup part [] (Suc count) = Inl Out_Of_Bounds"
| "entry_lookup part ((name, tag) # entries) (Suc count) =
     (case name of
        None \<Rightarrow> Inl Null_Deref
      | Some s \<Rightarrow>
          cbind (c_streq part s)
            (\<lambda>eq. if eq then Inr (Some tag) else entry_lookup part entries count))"

text \<open>The block run at a delimiter. \<open>Some b\<close> is \<open>return b\<close>, \<open>None\<close> goes on with the next word.\<close>

definition end_of_word :: "line_state \<Rightarrow> http_request \<Rightarrow> fault + (bool option \<times> http_request)" where
  "end_of_word st req =
     (if word_increment st = 0 then
        (if method_size st < 3 then Inr (Some False, req)
         else cbind (entry_lookup (line_partition st) method_entries (method_number TYPE_COUNT))
           (\<lambda>found. case found of
              Some m \<Rightarrow> Inr (None, req\<lparr>http_method := m\<rparr>)
            | None \<Rightarrow> Inr (Some False, req\<lparr>http_method := TYPE_NULL\<rparr>)))
      else if word_increment st = 1 then
        (if route_size st < 1 then Inr (Some False, req)
         else cbind (rd (line_partition st) 0)
           (\<lambda>c. if c = 47 then
                  cbind (c_strlen (line_partition st))
                    (\<lambda>len. cbind (c_load (line_partition st) (len + 1))
                      (\<lambda>bs. cbind (deref (http_route req))
                        (\<lambda>block. cbind (c_store block 0 bs)
                          (\<lambda>block'. Inr (None, req\<lparr>http_route := Live block',
                                                   http_route_size := route_size st\<rparr>)))))
                else Inr (Some False, req\<lparr>http_route := Null\<rparr>)))
      else if word_increment st = 2 then
        (if protocol_size st < 1 then Inr (Some False, req)
         else cbind (entry_lookup (line_partition st) protocol_entries 3)
           (\<lambda>found.
              let req' = (case found of None \<Rightarrow> req | Some p \<Rightarrow> req\<lparr>http_protocol := p\<rparr>)
              in cbind (c_streq (line_partition st) PROTOCOL)
                   (\<lambda>bare.
                      if found = None \<and> \<not> bare then Inr (Some False, req')
                      else if word_increment st \<ge> 2 \<or> http_method req' = TYPE_NULL
                              \<or> is_null (http_route req') \<or> http_route_size req' < 1
                        then Inr (Some True, req')
                        else Inr (Some False, req'))))
      else Inr (None, req))"

text \<open>The \<open>switch\<close> that stores a character of the current word.\<close>

definition store_char :: "byte \<Rightarrow> line_state \<Rightarrow> fault + line_state" where
  "store_char c st =
     (if word_increment st = 0 then
        cbind (wr (line_partition st) (method_size st) c)
          (\<lambda>p. Inr (st\<lparr>line_partition := p, method_size := Suc (method_size st)\<rparr>))
      else if word_increment st = 1 then
        cbind (wr (line_partition st) (route_size st) c)
          (\<lambda>p. Inr (st\<lparr>line_partition := p, route_size := Suc (route_size st)\<rparr>))
      else if word_increment st = 2 then
        cbind (wr (line_partition st) (protocol_size st) c)
          (\<lambda>p. Inr (st\<lparr>line_partition := p, protocol_size := Suc (protocol_size st)\<rparr>))
      else Inr st)"

function request_line_loop ::
  "byte list \<Rightarrow> nat \<Rightarrow> line_state \<Rightarrow> http_request \<Rightarrow> fault + (bool \<times> http_request)" where
  "request_line_loop line line_size st req =
     (if num_parsed st > line_size \<or> num_parsed st > MAX_HTTP_HEADER_LINE_SIZE then Inr (False, req)
      else cbind (rd line (num_parsed st))
        (\<lambda>c. if c = 32 \<or> c = 0 then
               cbind (end_of_word st req)
                 (\<lambda>(r, req'). case r of
                    Some b \<Rightarrow> Inr (b, req')
                  | None \<Rightarrow>
                      request_line_loop line line_size
                        (st\<lparr>word_increment := Suc (word_increment st),
                            num_parsed := Suc (num_parsed st),
                            line_partition := replicate line_size 0\<rparr>) req')
             else
               cbind (store_char c st)
                 (\<lambda>st'. request_line_loop line line_size
                          (st'\<lparr>num_parsed := Suc (num_parsed st)\<rparr>) req)))"
  by pat_completeness auto
termination
  by (relation "measure (\<lambda>(line, line_size, st, req). Suc line_size - num_parsed st)") auto

declare request_line_loop.simps [simp del]

definition first_word :: "byte list \<Rightarrow> line_state" where
  "first_word cells =
     \<lparr>line_partition = cells, num_parsed = 0, word_increment = 0, method_size = 0,
      route_size = 0, protocol_size = 0\<rparr>"

definition validate_http_metadata ::
  "stack_bytes \<Rightarrow> byte list option \<Rightarrow> nat \<Rightarrow> http_request \<Rightarrow> fault + (bool \<times> http_request)" where
  "validate_http_metadata stack line line_size req =
     (case line of
        None \<Rightarrow> Inr (False, req)
      | Some l \<Rightarrow>
          request_line_loop l line_size (first_word (vla stack Line_Partition line_size)) req)"

section \<open>A header line\<close>

datatype header_status = IS_KEY | IS_ASSIGNING | IS_VALUE

record header_state =
  key_cache :: "byte list"
  key_cache_size :: nat
  value_cache :: "byte list"
  value_cache_size :: nat
  flag :: header_status
  host_found :: bool
  total_parsed :: nat

text \<open>The store of one character, by the state of the machine.\<close>

definition store_header_char :: "byte \<Rightarrow> header_state \<Rightarrow> fault + header_state" where
  "store_header_char c st =
     (case flag st of
        IS_KEY \<Rightarrow>
          cbind (wr (key_cache st) (key_cache_size st) c)
            (\<lambda>k. Inr (st\<lparr>key_cache := k, key_cache_size := Suc (key_cache_size st)\<rparr>))
      | IS_VALUE \<Rightarrow>
          cbind (wr (value_cache st) (value_cache_size st) c)
            (\<lambda>v. Inr (st\<lparr>value_cache := v, value_cache_size := Suc (value_cache_size st)\<rparr>))
      | IS_ASSIGNING \<Rightarrow> Inr st)"

text \<open>The loop; \<open>False\<close> is a \<open>return false\<close> inside it, \<open>True\<close> its regular end.\<close>

function header_loop :: "byte list \<Rightarrow> nat \<Rightarrow> header_state \<Rightarrow> fault + (bool \<times> header_state)" where
  "header_loop header header_size st =
     (if total_parsed st \<le> header_size then
        cbind (rd header (total_parsed st))
          (\<lambda>c. if flag st = IS_KEY \<and> c = 58 then
                 cbind (c_streq (key_cache st) HOST_HEADER_KEY)
                   (\<lambda>host.
                      let st1 = st\<lparr>flag := IS_ASSIGNING, host_found := (host \<or> host_found st)\<rparr>
                      in cbind (rd header (total_parsed st + 1))
                           (\<lambda>d. if d \<noteq> 32 then Inr (False, st1)
                                else header_loop header header_size
                                       (st1\<lparr>flag := IS_VALUE, total_parsed := total_parsed st + 2\<rparr>)))
               else
                 cbind (store_header_char c st)
                   (\<lambda>st'.
                      if c = 13 then
                        (if flag st \<noteq> IS_VALUE then Inr (False, st')
                         else cbind (rd header (total_parsed st + 1))
                                (\<lambda>d. if d \<noteq> 10 then Inr (False, st')
                                     else header_loop header header_size
                                            (st'\<lparr>total_parsed := total_parsed st + 1\<rparr>)))
                      else header_loop header header_size
                             (st'\<lparr>total_parsed := total_parsed st + 1\<rparr>)))
      else Inr (True, st))"
  by pat_completeness auto
termination
  by (relation "measure (\<lambda>(header, header_size, st). Suc header_size - total_parsed st)") auto

declare header_loop.simps [simp del]

text \<open>\<open>_clean_header\<close>: \<open>free\<close> does not reset the two pointers.\<close>

definition clean_header :: "header_ptr option \<Rightarrow> fault + (bool \<times> header_ptr option)" where
  "clean_header header_instance =
     (case header_instance of
        None \<Rightarrow> Inr (False, None)
      | Some p \<Rightarrow>
          if is_null p then Inr (False, Some p)
          else cbind (deref p)
            (\<lambda>h. cbind (cfree (key h))
              (\<lambda>k. cbind (cfree (val h))
                (\<lambda>v. let h' = h\<lparr>key_size := 0, value_size := 0, valid := False, key := k, val := v\<rparr>
                     in Inr (key_size h' = 0 \<and> value_size h' = 0 \<and> \<not> valid h' \<and>
                             is_null (key h') \<and> is_null (val h'), Some (Live h'))))))"

definition strndup_block :: "bool \<Rightarrow> byte list \<Rightarrow> nat \<Rightarrow> fault + byte list ptr" where
  "strndup_block allocated s n =
     cbind (c_strndup s n) (\<lambda>block. Inr (if allocated then Live block else Null))"

definition first_char :: "nat \<Rightarrow> header_state" where
  "first_char header_size =
     \<lparr>key_cache = replicate header_size 0, key_cache_size = 0,
      value_cache = replicate header_size 0, value_cache_size = 0,
      flag = IS_KEY, host_found = False, total_parsed = 0\<rparr>"

text \<open>Results: the return value, \<open>*host_found\<close>, \<open>*result_header\<close>, the allocations made.\<close>

definition validate_http_header ::
  "allocator \<Rightarrow> nat \<Rightarrow> byte list option \<Rightarrow> nat \<Rightarrow> bool \<Rightarrow> header_ptr option
     \<Rightarrow> fault + (bool \<times> bool \<times> header_ptr option \<times> nat)" where
  "validate_http_header alloc n header header_size host result_header =
     (case header of
        None \<Rightarrow> Inr (False, host, result_header, n)
      | Some line \<Rightarrow>
          if result_header = None \<or> is_null (the result_header)
            then Inr (False, host, result_header, n)
          else
            cbind (header_loop line header_size (first_char header_size))
              (\<lambda>(ended, st).
                 if \<not> ended then Inr (False, host_found st, result_header, n)
                 else cbind (deref (the result_header))
                   (\<lambda>h. cbind (strndup_block (alloc n) (key_cache st) (key_cache_size st))
                     (\<lambda>k. cbind (strndup_block (alloc (Suc n)) (value_cache st) (value_cache_size st))
                       (\<lambda>v. let h' = h\<lparr>key_size := key_cache_size st, key := k,
                                       value_size := value_cache_size st, val := v\<rparr>
                            in if is_null k \<or> is_null v then
                                 cbind (clean_header (Some (Live h')))
                                   (\<lambda>(_, p). Inr (False, host_found st, p, n + 2))
                               else Inr (True, host_found st, Some (Live (h'\<lparr>valid := True\<rparr>)), n + 2))))))"

section \<open>The header section\<close>

record meta_state =
  header_buffer :: "byte list"
  line_parsed :: nat
  line_increment :: nat
  raw_pos :: nat
  validated_headers :: "header_ptr list"
  meta_request :: http_request
  meta_allocs :: nat

text \<open>
  The copy of the line buffer into \<open>header_line\<close>: at most \<open>count\<close> characters, up to and
  with a NUL; the result carries \<open>copy_counter\<close>.
\<close>

fun copy_line :: "byte list \<Rightarrow> nat \<Rightarrow> nat \<Rightarrow> byte list \<Rightarrow> nat \<Rightarrow> fault + (byte list \<times> nat)" where
  "copy_line source cursor 0 destination copy_counter = Inr (destination, copy_counter)"
| "copy_line source cursor (Suc count) destination copy_counter =
     cbind (rd source cursor)
       (\<lambda>c. cbind (wr destination cursor c)
         (\<lambda>destination'.
            if c = 0 then Inr (destination', copy_counter)
            else copy_line source (Suc cursor) count destination' (Suc copy_counter)))"

datatype line_flow = Line_Failed | Last_Line | More_Lines

text \<open>One parsed header line: the \<open>else\<close> branch on \<open>line_increment\<close>.\<close>

definition store_header :: "allocator \<Rightarrow> byte list \<Rightarrow> meta_state \<Rightarrow> fault + meta_state" where
  "store_header alloc header_line st =
     (let n = meta_allocs st;
          raw_header = (if alloc n then Live zero_header else Null)
      in cbind (validate_http_header alloc (Suc n) (Some header_line) (line_parsed st) False (Some raw_header))
           (\<lambda>(ok, host, result, n').
              let raw = (case result of None \<Rightarrow> Null | Some p \<Rightarrow> p)
              in cbind (if \<not> ok \<and> \<not> is_null raw then cfree raw else Inr raw)
                   (\<lambda>raw'.
                      cbind
                        (if host then
                           cbind (deref raw')
                             (\<lambda>h. if valid h then
                                    cbind (deref (val h))
                                      (\<lambda>v. cbind (strndup_block (alloc n') v (value_size h))
                                        (\<lambda>host_block. Inr ((meta_request st)\<lparr>http_host := host_block\<rparr>, Suc n')))
                                  else Inr (meta_request st, n'))
                         else Inr (meta_request st, n'))
                        (\<lambda>(req, n''). if length (validated_headers st) < MAX_HTTP_HEADER_COUNT
                           then Inr (st\<lparr>validated_headers := validated_headers st @ [raw'],
                                        meta_request := req, meta_allocs := n''\<rparr>)
                           else Inl Out_Of_Bounds))))"

text \<open>The end-of-line logic, at a \<open>\\r\<close>.\<close>

definition end_of_line :: "allocator \<Rightarrow> stack_bytes \<Rightarrow> byte list \<Rightarrow> meta_state \<Rightarrow> fault + (line_flow \<times> meta_state)" where
  "end_of_line alloc stack raw st =
     cbind (copy_line (header_buffer st) 0 (line_parsed st + 1)
              (vla stack (Header_Line (line_increment st)) (line_parsed st + 1)) 0)
       (\<lambda>(header_line, copy_counter).
          if copy_counter \<noteq> line_parsed st then Inr (Line_Failed, st)
          else cbind (rd raw (raw_pos st + 1))
            (\<lambda>d. if d \<noteq> 10 then Inr (Line_Failed, st)
                 else
                   cbind
                     (if line_increment st < 1 then
                        cbind (validate_http_metadata stack (Some header_line) (line_parsed st) (meta_request st))
                          (\<lambda>(ok, req). Inr (ok, st\<lparr>meta_request := req\<rparr>))
                      else cbind (store_header alloc header_line st) (\<lambda>st'. Inr (True, st')))
                     (\<lambda>(ok, st'). if \<not> ok then Inr (Line_Failed, st')
                        else cbind (rd raw (raw_pos st + 2))
                          (\<lambda>e. cbind (if e = 13 then rd raw (raw_pos st + 3) else Inr 0)
                            (\<lambda>f. Inr (if e = 13 \<and> f = 10 then Last_Line else More_Lines, st'))))))"

function metadata_loop :: "allocator \<Rightarrow> stack_bytes \<Rightarrow> byte list \<Rightarrow> meta_state \<Rightarrow> fault + (bool \<times> meta_state)" where
  "metadata_loop alloc stack raw st =
     (if line_parsed st = MAX_HTTP_HEADER_LINE_SIZE then Inr (False, st)
      else cbind (rd raw (raw_pos st))
        (\<lambda>c. if c \<noteq> 13 then
               cbind (wr (header_buffer st) (line_parsed st) c)
                 (\<lambda>buf. metadata_loop alloc stack raw
                          (st\<lparr>header_buffer := buf, line_parsed := Suc (line_parsed st),
                              raw_pos := Suc (raw_pos st)\<rparr>))
             else
               cbind (end_of_line alloc stack raw st)
                 (\<lambda>(flow, st'). case flow of
                    Line_Failed \<Rightarrow> Inr (False, st')
                  | Last_Line \<Rightarrow> Inr (True, st')
                  | More_Lines \<Rightarrow>
                      metadata_loop alloc stack raw
                        (st'\<lparr>header_buffer := replicate MAX_HTTP_HEADER_LINE_SIZE 0, line_parsed := 0,
                             line_increment := Suc (line_increment st'), raw_pos := raw_pos st + 2\<rparr>))))"
  by pat_completeness auto
termination
  by (relation "measure (\<lambda>(alloc, stack, raw, st). length raw - raw_pos st)") (auto simp: rd_eq_Inr)

declare metadata_loop.simps [simp del]

definition first_line :: "http_request \<Rightarrow> nat \<Rightarrow> meta_state" where
  "first_line req n =
     \<lparr>header_buffer = replicate MAX_HTTP_HEADER_LINE_SIZE 0, line_parsed = 0, line_increment = 0,
      raw_pos = 0, validated_headers = [], meta_request = req, meta_allocs = n\<rparr>"

text \<open>The end of \<open>_get_http_metadata\<close>: the host check and the copy of the header pointers.\<close>

definition publish_headers :: "allocator \<Rightarrow> meta_state \<Rightarrow> fault + (bool \<times> http_request \<times> nat)" where
  "publish_headers alloc st =
     (let req = meta_request st; n = meta_allocs st; hs = validated_headers st
      in if is_null (http_host req) then Inr (False, req, n)
         else if alloc n then
           Inr (True, req\<lparr>num_headers := length hs, http_headers_size := length hs * 8,
                          http_headers := Live hs\<rparr>, Suc n)
         else if hs = [] then
           Inr (True, req\<lparr>num_headers := 0, http_headers_size := 0, http_headers := Null\<rparr>, Suc n)
         else Inl Null_Deref)"

text \<open>\<open>raw\<close> and \<open>*result_metadata\<close> are \<open>None\<close> for NULL.\<close>

definition get_http_metadata ::
  "allocator \<Rightarrow> stack_bytes \<Rightarrow> nat \<Rightarrow> byte list option \<Rightarrow> nat \<Rightarrow> http_request option
     \<Rightarrow> fault + (bool \<times> http_request option \<times> nat)" where
  "get_http_metadata alloc stack n raw raw_size result_metadata =
     (case (raw, result_metadata) of
        (Some r, Some req) \<Rightarrow>
          if raw_size = 0 \<or> raw_size > MAX_HTTP_HEADER_TOTAL_SIZE then Inr (False, result_metadata, n)
          else cbind (metadata_loop alloc stack r (first_line req n))
            (\<lambda>(ok, st).
               if \<not> ok then Inr (False, Some (meta_request st), meta_allocs st)
               else cbind (publish_headers alloc st)
                 (\<lambda>(ok', req', n'). Inr (ok', Some req', n')))
      | _ \<Rightarrow> Inr (False, result_metadata, n))"

section \<open>The request\<close>

definition route_http_request :: "byte list option \<Rightarrow> nat \<Rightarrow> http_request option \<Rightarrow> bool" where
  "route_http_request message message_size result_metadata =
     (if message = None \<or> result_metadata = None \<or> message_size = 0 then False else True)"

definition process_http_request ::
  "allocator \<Rightarrow> stack_bytes \<Rightarrow> nat \<Rightarrow> int \<Rightarrow> byte list option \<Rightarrow> nat \<Rightarrow> http_request ptr option
     \<Rightarrow> fault + (bool \<times> nat)" where
  "process_http_request alloc stack n socket_descriptor message message_size response =
     (if message = None \<or> response = None then Inr (False, n)
      else
        (let (allocated, instance_var, n1) = allocate_http_request alloc n (Some Null)
         in if \<not> allocated then Inr (False, n1)
            else cbind (deref (the instance_var))
              (\<lambda>req. cbind (get_http_metadata alloc stack n1 message message_size (Some req))
                (\<lambda>(ok, req', n2).
                   if \<not> ok then Inr (False, n2)
                   else if \<not> route_http_request message message_size req' then Inr (False, n2)
                   else cbind (free_http_request (case req' of None \<Rightarrow> Null | Some r \<Rightarrow> Live r))
                     (\<lambda>freed. Inr (freed, n2))))))"

end
