(* ===== verification/Http_Request_Line.thy ===== *)
theory Http_Request_Line
  imports Http_Handler
begin

text \<open>
  The request line: \<open>_validate_http_metadata\<close>. A word of ordinary characters is copied
  into the partition in one go (\<open>loop_word\<close>), the table searches are equalities of
  strings (\<open>method_lookup\<close>, \<open>protocol_lookup\<close>), and the loop runs word by word. The
  partition is not initialised before the first word, so the method is compared together
  with the bytes the stack holds behind it (\<open>method_seen\<close>).
\<close>

section \<open>Words\<close>

definition plain_word :: "byte list \<Rightarrow> bool" where
  "plain_word w \<longleftrightarrow> list_all (\<lambda>c. c \<noteq> 32 \<and> c \<noteq> 0) w"

definition overwrite :: "'a list \<Rightarrow> nat \<Rightarrow> 'a list \<Rightarrow> 'a list" where
  "overwrite p off w = take off p @ w @ drop (off + length w) p"

lemma overwrite_Nil [simp]: "overwrite p off [] = p"
  by (simp add: overwrite_def)

lemma overwrite_Cons:
  "off < length p \<Longrightarrow> overwrite (p[off := c]) (Suc off) w = overwrite p off (c # w)"
  by (simp add: overwrite_def take_Suc_conv_app_nth)

lemma overwrite_zeros:
  "length w < n \<Longrightarrow> overwrite (replicate n 0) 0 w = w @ 0 # replicate (n - length w - 1) (0 :: byte)"
  by (simp add: overwrite_def flip: replicate_Suc)

lemma plain_word_no_nul: "plain_word w \<Longrightarrow> 0 \<notin> set w"
  by (auto simp: plain_word_def list_all_iff)

fun store_word :: "byte list \<Rightarrow> line_state \<Rightarrow> fault + line_state" where
  "store_word [] st = Inr st"
| "store_word (c # w) st =
     cbind (store_char c st) (\<lambda>st'. store_word w (st'\<lparr>num_parsed := Suc (num_parsed st)\<rparr>))"

lemma store_word_method:
  "word_increment st = 0 \<Longrightarrow> method_size st + length w \<le> length (line_partition st) \<Longrightarrow>
     store_word w st = Inr (st\<lparr>line_partition := overwrite (line_partition st) (method_size st) w,
       num_parsed := num_parsed st + length w, method_size := method_size st + length w\<rparr>)"
  by (induction w arbitrary: st) (simp_all add: store_char_def wr_in overwrite_Cons)

lemma store_word_route:
  "word_increment st = 1 \<Longrightarrow> route_size st + length w \<le> length (line_partition st) \<Longrightarrow>
     store_word w st = Inr (st\<lparr>line_partition := overwrite (line_partition st) (route_size st) w,
       num_parsed := num_parsed st + length w, route_size := route_size st + length w\<rparr>)"
  by (induction w arbitrary: st) (simp_all add: store_char_def wr_in overwrite_Cons)

lemma store_word_protocol:
  "word_increment st = 2 \<Longrightarrow> protocol_size st + length w \<le> length (line_partition st) \<Longrightarrow>
     store_word w st = Inr (st\<lparr>line_partition := overwrite (line_partition st) (protocol_size st) w,
       num_parsed := num_parsed st + length w, protocol_size := protocol_size st + length w\<rparr>)"
  by (induction w arbitrary: st) (simp_all add: store_char_def wr_in overwrite_Cons)

lemma loop_word:
  assumes "plain_word w" and "line = pre @ w @ rest" and "num_parsed st = length pre"
    and "length pre + length w \<le> line_size" and "line_size \<le> MAX_HTTP_HEADER_LINE_SIZE"
  shows "request_line_loop line line_size st req
           = cbind (store_word w st) (\<lambda>st'. request_line_loop line line_size st' req)"
  using assms
proof (induction w arbitrary: pre st)
  case (Cons c w)
  have c: "c \<noteq> 32" "c \<noteq> 0" and w: "plain_word w" using Cons.prems(1) by (simp_all add: plain_word_def)
  have "rd line (num_parsed st) = Inr c" using Cons.prems(2,3) by (simp add: rd_append_head)
  then have step: "request_line_loop line line_size st req = cbind (store_char c st)
      (\<lambda>st'. request_line_loop line line_size (st'\<lparr>num_parsed := Suc (num_parsed st)\<rparr>) req)"
    using Cons.prems(3-5) c by (simp add: request_line_loop.simps [of line line_size st])
  have "request_line_loop line line_size (st'\<lparr>num_parsed := Suc (num_parsed st)\<rparr>) req =
          cbind (store_word w (st'\<lparr>num_parsed := Suc (num_parsed st)\<rparr>))
            (\<lambda>st'. request_line_loop line line_size st' req)" for st'
    using Cons.IH [OF w, of "pre @ [c]"] Cons.prems by simp
  with step show ?case by (cases "store_char c st") simp_all
qed simp

lemma loop_delimiter:
  assumes "line = pre @ d # rest" and "d = 32 \<or> d = 0" and "num_parsed st = length pre"
    and "length pre \<le> line_size" and "line_size \<le> MAX_HTTP_HEADER_LINE_SIZE"
  shows "request_line_loop line line_size st req =
           cbind (end_of_word st req)
             (\<lambda>(r, req'). case r of
                Some b \<Rightarrow> Inr (b, req')
              | None \<Rightarrow> request_line_loop line line_size
                  (st\<lparr>word_increment := Suc (word_increment st), num_parsed := Suc (num_parsed st),
                      line_partition := replicate line_size 0\<rparr>) req')"
  unfolding request_line_loop.simps [of line line_size st]
  using assms by (auto simp: rd_append_head)

section \<open>The table searches\<close>

lemma literal_terminated [simp]: "terminated (literal s)"
  by (simp add: literal_def)

lemma entry_lookup_step:
  "terminated part \<Longrightarrow>
     entry_lookup part ((Some (literal s), tag) # entries) (Suc count) =
       (if cstring part = cstring (literal s) then Inr (Some tag) else entry_lookup part entries count)"
  by (simp add: c_streq_terminated)

lemma literal_strings:
  "cstring (literal ''GET'') = [71, 69, 84]"
  "cstring (literal ''POST'') = [80, 79, 83, 84]"
  "cstring (literal ''PUT'') = [80, 85, 84]"
  "cstring (literal ''DELETE'') = [68, 69, 76, 69, 84, 69]"
  "cstring (literal '''') = []"
  "cstring (literal ''HTTP/1.0'') = [72, 84, 84, 80, 47, 49, 46, 48]"
  "cstring (literal ''HTTP/1.1'') = [72, 84, 84, 80, 47, 49, 46, 49]"
  "cstring (literal ''HTTP'') = [72, 84, 84, 80]"
  "cstring (literal ''Host'') = [72, 111, 115, 116]"
  by (simp_all add: literal_def)

definition known_method :: "byte list \<Rightarrow> http_request_method option" where
  "known_method w =
     (if w = cstring (literal ''GET'') then Some TYPE_GET
      else if w = cstring (literal ''POST'') then Some TYPE_POST
      else if w = cstring (literal ''PUT'') then Some TYPE_PUT
      else if w = cstring (literal ''DELETE'') then Some TYPE_DELETE
      else None)"

text \<open>A protocol word and the protocol it leaves in a request that held \<open>old\<close>.\<close>

definition known_protocol :: "http_request_protocol \<Rightarrow> byte list \<Rightarrow> http_request_protocol option" where
  "known_protocol old w =
     (if w = cstring (literal ''HTTP/1.0'') then Some VERSION_1_0
      else if w = cstring (literal ''HTTP/1.1'') then Some VERSION_1_1
      else if w = cstring (literal ''HTTP'') then Some old
      else None)"

lemma method_lookup:
  assumes "terminated part"
  shows "entry_lookup part method_entries 5 =
           (case known_method (cstring part) of Some m \<Rightarrow> Inr (Some m) | None \<Rightarrow> Inl Null_Deref)"
proof -
  have five: "(5 :: nat) = Suc (Suc (Suc (Suc (Suc 0))))" by simp
  show ?thesis
    unfolding method_entries_def five entry_lookup_step [OF assms]
    by (simp add: known_method_def)
qed

lemma protocol_lookup:
  assumes "terminated part"
  shows "entry_lookup part protocol_entries 3 =
           Inr (if cstring part = [] then Some VERSION_0_9
                else if cstring part = cstring (literal ''HTTP/1.0'') then Some VERSION_1_0
                else if cstring part = cstring (literal ''HTTP/1.1'') then Some VERSION_1_1
                else None)"
proof -
  have three: "(3 :: nat) = Suc (Suc (Suc 0))" by simp
  show ?thesis
    unfolding protocol_entries_def three entry_lookup_step [OF assms]
    by (simp add: literal_strings(5))
qed

section \<open>The three words\<close>

text \<open>What the method is compared as: the word and the stack bytes up to the next NUL.\<close>

definition method_seen :: "stack_bytes \<Rightarrow> nat \<Rightarrow> byte list \<Rightarrow> byte list" where
  "method_seen stack line_size w = w @ cstring (drop (length w) (vla stack Line_Partition line_size))"

lemma cstring_append_plain: "0 \<notin> set w \<Longrightarrow> cstring (w @ r) = w @ cstring r"
  by (induction w) auto

lemma method_word:
  assumes "plain_word w" and "3 \<le> length w" and "line = w @ d # rest" and "d = 32 \<or> d = 0"
    and "length w \<le> line_size" and "line_size \<le> MAX_HTTP_HEADER_LINE_SIZE"
    and "terminated (drop (length w) (vla stack Line_Partition line_size))"
  shows "validate_http_metadata stack (Some line) line_size req =
           (case known_method (method_seen stack line_size w) of
              None \<Rightarrow> Inl Null_Deref
            | Some m \<Rightarrow> request_line_loop line line_size
                \<lparr>line_partition = replicate line_size 0, num_parsed = Suc (length w),
                 word_increment = 1, method_size = length w, route_size = 0, protocol_size = 0\<rparr>
                (req\<lparr>http_method := m\<rparr>))"
proof -
  let ?v = "vla stack Line_Partition line_size"
  let ?st = "\<lparr>line_partition = overwrite ?v 0 w, num_parsed = length w, word_increment = 0,
              method_size = length w, route_size = 0, protocol_size = 0\<rparr>"
  have "store_word w (first_word ?v) = Inr ?st"
    using assms(5) store_word_method [of "first_word ?v" w] by (simp add: first_word_def vla_def)
  then have "validate_http_metadata stack (Some line) line_size req = request_line_loop line line_size ?st req"
    using assms(1,3,5,6) loop_word [of w line "[]" "d # rest" "first_word ?v" line_size req]
    by (simp add: validate_http_metadata_def first_word_def)
  also have "\<dots> = (case known_method (method_seen stack line_size w) of
              None \<Rightarrow> Inl Null_Deref
            | Some m \<Rightarrow> request_line_loop line line_size
                \<lparr>line_partition = replicate line_size 0, num_parsed = Suc (length w),
                 word_increment = 1, method_size = length w, route_size = 0, protocol_size = 0\<rparr>
                (req\<lparr>http_method := m\<rparr>))"
  proof -
    have part: "overwrite ?v 0 w = w @ drop (length w) ?v" by (simp add: overwrite_def)
    have "cstring (overwrite ?v 0 w) = method_seen stack line_size w"
      by (simp add: part method_seen_def cstring_append_plain plain_word_no_nul [OF assms(1)])
    moreover have "terminated (overwrite ?v 0 w)" using assms(7) by (simp add: part)
    ultimately have "entry_lookup (overwrite ?v 0 w) method_entries 5 =
        (case known_method (method_seen stack line_size w) of Some m \<Rightarrow> Inr (Some m) | None \<Rightarrow> Inl Null_Deref)"
      by (simp add: method_lookup)
    then show ?thesis
      using assms(2-6)
      by (subst loop_delimiter [of line w d rest])
         (auto simp: end_of_word_def split: option.split)
  qed
  finally show ?thesis .
qed

lemma route_word:
  assumes "plain_word w" and "w \<noteq> [] \<and> hd w = 47" and "line = pre @ w @ d # rest" and "d = 32 \<or> d = 0"
    and "length pre + length w < line_size" and "line_size \<le> MAX_HTTP_HEADER_LINE_SIZE"
    and "http_route req = Live block" and "length w < length block"
  shows "request_line_loop line line_size
           \<lparr>line_partition = replicate line_size 0, num_parsed = length pre, word_increment = 1,
            method_size = m, route_size = 0, protocol_size = 0\<rparr> req =
         request_line_loop line line_size
           \<lparr>line_partition = replicate line_size 0, num_parsed = Suc (length (pre @ w)), word_increment = 2,
            method_size = m, route_size = length w, protocol_size = 0\<rparr>
           (req\<lparr>http_route := Live (w @ 0 # drop (Suc (length w)) block), http_route_size := length w\<rparr>)"
    (is "request_line_loop _ _ ?init _ = _")
proof -
  let ?z = "replicate line_size 0 :: byte list"
  let ?st = "?init\<lparr>line_partition := overwrite ?z 0 w, num_parsed := length (pre @ w), route_size := length w\<rparr>"
  have "store_word w ?init = Inr ?st"
    using assms(5) store_word_route [of ?init w] by simp
  then have run: "request_line_loop line line_size ?init req = request_line_loop line line_size ?st req"
    using assms(1,3,5,6) loop_word [of w line pre "d # rest" ?init line_size req] by simp
  have z: "overwrite ?z 0 w = w @ 0 # replicate (line_size - length w - 1) 0"
    using assms(5) by (intro overwrite_zeros) simp
  have "c_strlen (overwrite ?z 0 w) = Inr (length w)"
    using plain_word_no_nul [OF assms(1)] by (simp add: z c_strlen_terminated)
  moreover have "rd (overwrite ?z 0 w) 0 = Inr 47"
    unfolding z using assms(2) by (cases w) (simp_all add: rd_def)
  moreover have "c_load (overwrite ?z 0 w) (length w + 1) = Inr (w @ [0])"
    by (simp add: z c_load_def)
  ultimately have "end_of_word ?st req =
      Inr (None, req\<lparr>http_route := Live (w @ 0 # drop (Suc (length w)) block), http_route_size := length w\<rparr>)"
    using assms(2,7,8) by (simp add: end_of_word_def c_store_def Suc_le_eq)
  then show ?thesis
    unfolding run using assms(3-6)
    by (subst loop_delimiter [of line "pre @ w" d rest]) (simp_all add: numeral_2_eq_2)
qed

lemma protocol_word:
  assumes "plain_word w" and "w \<noteq> []" and "line = pre @ w @ d # rest" and "d = 32 \<or> d = 0"
    and "length pre + length w \<le> line_size" and "pre \<noteq> []" and "line_size \<le> MAX_HTTP_HEADER_LINE_SIZE"
  shows "request_line_loop line line_size
           \<lparr>line_partition = replicate line_size 0, num_parsed = length pre, word_increment = 2,
            method_size = m, route_size = r, protocol_size = 0\<rparr> req =
         Inr (case known_protocol (http_protocol req) w of
                None \<Rightarrow> (False, req)
              | Some p \<Rightarrow> (True, req\<lparr>http_protocol := p\<rparr>))"
    (is "request_line_loop _ _ ?init _ = _")
proof -
  let ?z = "replicate line_size 0 :: byte list"
  let ?st = "?init\<lparr>line_partition := overwrite ?z 0 w, num_parsed := length (pre @ w), protocol_size := length w\<rparr>"
  have "store_word w ?init = Inr ?st"
    using assms(5) store_word_protocol [of ?init w] by simp
  then have run: "request_line_loop line line_size ?init req = request_line_loop line line_size ?st req"
    using assms(1,3,5,7) loop_word [of w line pre "d # rest" ?init line_size req] by simp
  have "length w < line_size" using assms(5,6) by (cases pre) auto
  then have z: "overwrite ?z 0 w = w @ 0 # replicate (line_size - length w - 1) 0"
    by (rule overwrite_zeros)
  have part: "terminated (overwrite ?z 0 w)" "cstring (overwrite ?z 0 w) = w"
    using plain_word_no_nul [OF assms(1)] by (simp_all add: z)
  have "end_of_word ?st req =
      Inr (case known_protocol (http_protocol req) w of
             None \<Rightarrow> (Some False, req) | Some p \<Rightarrow> (Some True, req\<lparr>http_protocol := p\<rparr>))"
    using assms(2)
    by (simp add: end_of_word_def protocol_lookup [OF part(1)] part(2) PROTOCOL_def
          c_streq_terminated [OF part(1)] known_protocol_def literal_strings)
  then show ?thesis
    unfolding run using assms(3-7)
    by (subst loop_delimiter [of line "pre @ w" d rest]) (simp_all split: option.split)
qed

text \<open>With a NUL on the stack right behind it, the method is seen as it is.\<close>

lemma method_seen_nul:
  assumes "stack Line_Partition (length m) = 0" and "length m < line_size"
  shows "terminated (drop (length m) (vla stack Line_Partition line_size))"
    and "method_seen stack line_size m = m"
proof -
  have "[0..<line_size] = [0..<length m] @ length m # [Suc (length m)..<line_size]"
    using assms(2) by (metis add_Suc_right less_imp_Suc_add upt_add_eq_append upt_conv_Cons zero_le)
  then have nul: "drop (length m) (vla stack Line_Partition line_size)
      = 0 # map (stack Line_Partition) [Suc (length m)..<line_size]"
    using assms(1) by (simp add: vla_def)
  then show "terminated (drop (length m) (vla stack Line_Partition line_size))" by simp
  show "method_seen stack line_size m = m" using nul by (simp add: method_seen_def)
qed

section \<open>The whole line\<close>

text \<open>A request whose route block is the one \<open>allocate_http_request\<close> made.\<close>

definition has_route_block :: "http_request \<Rightarrow> bool" where
  "has_route_block req \<longleftrightarrow>
     (\<exists>block. http_route req = Live block \<and> length block = 8 * MAX_HTTP_HEADER_LINE_SIZE)"

definition routed :: "http_request_method \<Rightarrow> byte list \<Rightarrow> http_request_protocol \<Rightarrow> http_request \<Rightarrow> http_request" where
  "routed m route p req =
     req\<lparr>http_method := m,
         http_route := Live (route @ 0 # drop (Suc (length route)) (case http_route req of Live b \<Rightarrow> b | _ \<Rightarrow> [])),
         http_route_size := length route, http_protocol := p\<rparr>"

lemma request_line_run:
  assumes "plain_word m" and "plain_word r" and "plain_word p" and "p \<noteq> []"
    and "known_method (method_seen stack line_size m) = Some meth" and "3 \<le> length m"
    and "terminated (drop (length m) (vla stack Line_Partition line_size))"
    and "r \<noteq> [] \<and> hd r = 47" and "known_protocol (http_protocol req) p = Some prot"
    and "line = m @ 32 # r @ 32 # p @ d # rest" and "d = 32 \<or> d = 0"
    and "length m + length r + length p + 2 \<le> line_size" and "line_size \<le> MAX_HTTP_HEADER_LINE_SIZE"
    and "has_route_block req"
  shows "validate_http_metadata stack (Some line) line_size req = Inr (True, routed meth r prot req)"
proof -
  obtain block where block: "http_route req = Live block" "length block = 8 * MAX_HTTP_HEADER_LINE_SIZE"
    using assms(14) by (auto simp: has_route_block_def)
  let ?req = "req\<lparr>http_method := meth\<rparr>"
  let ?routed = "?req\<lparr>http_route := Live (r @ 0 # drop (Suc (length r)) block), http_route_size := length r\<rparr>"
  let ?zeros = "replicate line_size 0"
  have "validate_http_metadata stack (Some line) line_size req =
      request_line_loop line line_size
        \<lparr>line_partition = ?zeros, num_parsed = length (m @ [32]), word_increment = 1,
         method_size = length m, route_size = 0, protocol_size = 0\<rparr> ?req"
    using assms by (subst method_word [of m line 32 "r @ 32 # p @ d # rest"]) simp_all
  also have "\<dots> = request_line_loop line line_size
        \<lparr>line_partition = ?zeros, num_parsed = Suc (length ((m @ [32]) @ r)), word_increment = 2,
         method_size = length m, route_size = length r, protocol_size = 0\<rparr> ?routed"
    using assms block
    by (intro route_word [where d = 32 and rest = "p @ d # rest"]) simp_all
  also have "\<dots> = request_line_loop line line_size
        \<lparr>line_partition = ?zeros, num_parsed = length (m @ 32 # r @ [32]), word_increment = 2,
         method_size = length m, route_size = length r, protocol_size = 0\<rparr> ?routed"
    by simp
  also have "\<dots> = Inr (case known_protocol (http_protocol ?routed) p of
        None \<Rightarrow> (False, ?routed) | Some p' \<Rightarrow> (True, ?routed\<lparr>http_protocol := p'\<rparr>))"
    by (rule protocol_word [where d = d and rest = rest]) (use assms in simp_all)
  also have "known_protocol (http_protocol ?routed) p = Some prot"
    using assms(9) by simp
  finally show ?thesis using block by (simp add: routed_def)
qed

section \<open>Properties\<close>

definition zero_stack :: stack_bytes where
  "zero_stack = (\<lambda>_ _. 0)"

lemma vla_zero_stack: "vla zero_stack a n = replicate n 0"
  by (simp add: vla_def zero_stack_def map_replicate_const)

text \<open>
  A request line of a supported method, a route that starts with a slash and a supported
  protocol is accepted and stored: the method, the NUL-terminated route with its length, the
  protocol; nothing else of the request changes, and anything after a space behind the
  protocol is ignored. The method is recognised if the stack holds a NUL behind it.
\<close>

theorem request_line_accepted:
  assumes "plain_word m" and "plain_word r" and "plain_word p"
    and "known_method m = Some meth" and "length m < line_size" and "stack Line_Partition (length m) = 0"
    and "r \<noteq> [] \<and> hd r = 47" and "known_protocol (http_protocol req) p = Some prot"
    and "d = 32 \<or> d = 0" and "length m + length r + length p + 2 \<le> line_size"
    and "line_size \<le> MAX_HTTP_HEADER_LINE_SIZE" and "has_route_block req"
  shows "validate_http_metadata stack (Some (m @ 32 # r @ 32 # p @ d # rest)) line_size req
           = Inr (True, routed meth r prot req)"
proof (rule request_line_run [OF assms(1-3)])
  show "terminated (drop (length m) (vla stack Line_Partition line_size))"
    using assms(5,6) by (rule method_seen_nul(1) [rotated])
  show "known_method (method_seen stack line_size m) = Some meth"
    using assms(4) method_seen_nul(2) [of stack m line_size] assms(5,6) by simp
  show "3 \<le> length m" using assms(4) by (auto simp: known_method_def literal_strings split: if_splits)
  show "p \<noteq> []" using assms(8) by (auto simp: known_protocol_def literal_strings)
qed (use assms in simp_all)

theorem request_line_accepted_witness:
  "validate_http_metadata zero_stack
     (Some ([71, 69, 84] @ 32 # [47, 97] @ 32 # [72, 84, 84, 80, 47, 49, 46, 49] @ 0 # [])) 15
     (zero_request\<lparr>http_route := Live (replicate (8 * MAX_HTTP_HEADER_LINE_SIZE) 0)\<rparr>)
   = Inr (True, routed TYPE_GET [47, 97] VERSION_1_1
       (zero_request\<lparr>http_route := Live (replicate (8 * MAX_HTTP_HEADER_LINE_SIZE) 0)\<rparr>))"
  by (rule request_line_accepted)
     (simp_all add: plain_word_def known_method_def known_protocol_def literal_strings zero_stack_def
        MAX_HTTP_HEADER_LINE_SIZE_def has_route_block_def)

text \<open>
  A request line whose first word has three characters or more and, together with the
  stack bytes behind it up to the first NUL, is none of GET, POST, PUT and DELETE makes the
  search reach the NULL name that ends \<open>method_entries\<close> and pass it to \<open>strcmp\<close>.
  Both an unsupported method and a supported one with other bytes behind it do so.
\<close>

theorem unknown_method_faults:
  assumes "plain_word m" and "3 \<le> length m" and "d = 32 \<or> d = 0"
    and "length m \<le> line_size" and "line_size \<le> MAX_HTTP_HEADER_LINE_SIZE"
    and "terminated (drop (length m) (vla stack Line_Partition line_size))"
    and "known_method (method_seen stack line_size m) = None"
  shows "validate_http_metadata stack (Some (m @ d # rest)) line_size req = Inl Null_Deref"
  using method_word [OF assms(1,2) refl assms(3-6), of rest req] assms(7) by simp

theorem unknown_method_faults_witness:
  "validate_http_metadata zero_stack (Some ([72, 69, 65, 68] @ 32 # [47, 0])) 6 zero_request = Inl Null_Deref"
  by (rule unknown_method_faults)
     (simp_all add: plain_word_def MAX_HTTP_HEADER_LINE_SIZE_def vla_zero_stack method_seen_def
        known_method_def literal_strings)

end
