(* ===== verification/Http_Header.thy ===== *)
theory Http_Header
  imports Http_Request_Line
begin

text \<open>
  One header line: \<open>_validate_http_header\<close>. \<open>key_run\<close> and \<open>value_run\<close> copy a whole
  key or value into its cache in one go; \<open>header_line_run\<close> is the outcome of a line
  \<open>key: value\<close> with or without memory for the two copies, \<open>header_line_bare\<close> and
  \<open>header_line_tight\<close> those of a line without a colon and without the space after it.
\<close>

section \<open>The two halves of a line\<close>

definition plain_name :: "byte list \<Rightarrow> bool" where
  "plain_name k \<longleftrightarrow> list_all (\<lambda>c. c \<noteq> 58 \<and> c \<noteq> 13 \<and> c \<noteq> 0) k"

definition plain_text :: "byte list \<Rightarrow> bool" where
  "plain_text v \<longleftrightarrow> list_all (\<lambda>c. c \<noteq> 13 \<and> c \<noteq> 0) v"

definition host_name :: "byte list" where
  "host_name = cstring HOST_HEADER_KEY"

lemma host_name_bytes: "host_name = [72, 111, 115, 116]"
  by (simp add: host_name_def HOST_HEADER_KEY_def literal_strings)

lemma plain_name_no_nul: "plain_name k \<Longrightarrow> 0 \<notin> set k"
  by (auto simp: plain_name_def list_all_iff)

lemma plain_text_no_nul: "plain_text v \<Longrightarrow> 0 \<notin> set v"
  by (auto simp: plain_text_def list_all_iff)

lemma plain_text_no_cr: "plain_text v \<Longrightarrow> 13 \<notin> set v"
  by (auto simp: plain_text_def list_all_iff)

lemma plain_name_text: "plain_name k \<Longrightarrow> plain_text k"
  by (auto simp: plain_text_def plain_name_def list_all_iff)

lemma key_run:
  assumes "list_all (\<lambda>c. c \<noteq> 58 \<and> c \<noteq> 13) k" and "line = pre @ k @ rest" and "flag st = IS_KEY"
    and "total_parsed st = length pre" and "key_cache st = kc @ replicate m 0"
    and "key_cache_size st = length kc" and "length k \<le> m" and "length pre + length k \<le> Suc header_size"
  shows "header_loop line header_size st =
           header_loop line header_size
             (st\<lparr>key_cache := (kc @ k) @ replicate (m - length k) 0,
                 key_cache_size := length kc + length k, total_parsed := length pre + length k\<rparr>)"
  using assms
proof (induction k arbitrary: pre kc m st)
  case Nil
  then have "st\<lparr>key_cache := (kc @ []) @ replicate (m - length []) 0,
      key_cache_size := length kc + length [], total_parsed := length pre + length []\<rparr> = st"
    by simp
  then show ?case by simp
next
  case (Cons c k)
  have "rd line (total_parsed st) = Inr c" using Cons.prems(2,4) by (simp add: rd_append_head)
  then have "header_loop line header_size st =
      header_loop line header_size (st\<lparr>key_cache := (kc @ [c]) @ replicate (m - 1) 0,
        key_cache_size := Suc (length kc), total_parsed := length pre + 1\<rparr>)"
    using Cons.prems
    by (subst header_loop.simps [of line header_size st]) (simp add: store_header_char_def wr_next_cell)
  also have "\<dots> = header_loop line header_size (st\<lparr>key_cache := (kc @ c # k) @ replicate (m - length (c # k)) 0,
        key_cache_size := length kc + length (c # k), total_parsed := length pre + length (c # k)\<rparr>)"
    using Cons.IH [of "pre @ [c]" "st\<lparr>key_cache := (kc @ [c]) @ replicate (m - 1) 0,
        key_cache_size := Suc (length kc), total_parsed := length pre + 1\<rparr>" "kc @ [c]" "m - 1"] Cons.prems
    by simp
  finally show ?case .
qed

lemma value_run:
  assumes "13 \<notin> set v" and "line = pre @ v @ rest" and "flag st = IS_VALUE"
    and "total_parsed st = length pre" and "value_cache st = vc @ replicate m 0"
    and "value_cache_size st = length vc" and "length v \<le> m" and "length pre + length v \<le> Suc header_size"
  shows "header_loop line header_size st =
           header_loop line header_size
             (st\<lparr>value_cache := (vc @ v) @ replicate (m - length v) 0,
                 value_cache_size := length vc + length v, total_parsed := length pre + length v\<rparr>)"
  using assms
proof (induction v arbitrary: pre vc m st)
  case Nil
  then have "st\<lparr>value_cache := (vc @ []) @ replicate (m - length []) 0,
      value_cache_size := length vc + length [], total_parsed := length pre + length []\<rparr> = st"
    by simp
  then show ?case by simp
next
  case (Cons c v)
  have "rd line (total_parsed st) = Inr c" using Cons.prems(2,4) by (simp add: rd_append_head)
  then have "header_loop line header_size st =
      header_loop line header_size (st\<lparr>value_cache := (vc @ [c]) @ replicate (m - 1) 0,
        value_cache_size := Suc (length vc), total_parsed := length pre + 1\<rparr>)"
    using Cons.prems
    by (subst header_loop.simps [of line header_size st]) (simp add: store_header_char_def wr_next_cell)
  also have "\<dots> = header_loop line header_size (st\<lparr>value_cache := (vc @ c # v) @ replicate (m - length (c # v)) 0,
        value_cache_size := length vc + length (c # v), total_parsed := length pre + length (c # v)\<rparr>)"
    using Cons.IH [of "pre @ [c]" "st\<lparr>value_cache := (vc @ [c]) @ replicate (m - 1) 0,
        value_cache_size := Suc (length vc), total_parsed := length pre + 1\<rparr>" "vc @ [c]" "m - 1"] Cons.prems
    by simp
  finally show ?case .
qed

section \<open>Whole lines\<close>

definition header_line_of :: "byte list \<Rightarrow> byte list \<Rightarrow> byte list" where
  "header_line_of k v = k @ 58 # 32 # v"

text \<open>The machine behind the key, at the colon.\<close>

definition at_colon :: "nat \<Rightarrow> byte list \<Rightarrow> header_state" where
  "at_colon header_size k =
     (first_char header_size)\<lparr>key_cache := k @ replicate (header_size - length k) 0,
       key_cache_size := length k, total_parsed := length k\<rparr>"

lemma reach_colon:
  assumes "plain_name k" and "length k \<le> header_size"
  shows "header_loop (k @ rest) header_size (first_char header_size)
           = header_loop (k @ rest) header_size (at_colon header_size k)"
  using key_run [of k "k @ rest" "[]" rest "first_char header_size" "[]" header_size header_size] assms
  by (simp add: first_char_def at_colon_def plain_name_def list_all_iff)

lemma colon_step:
  assumes "plain_name k" and "length k < header_size"
  shows "header_loop (k @ 58 # d # rest) header_size (at_colon header_size k) =
           (let st1 = (at_colon header_size k)\<lparr>flag := IS_ASSIGNING, host_found := (k = host_name)\<rparr>
            in if d \<noteq> 32 then Inr (False, st1)
               else header_loop (k @ 58 # d # rest) header_size
                      (st1\<lparr>flag := IS_VALUE, total_parsed := length k + 2\<rparr>))"
proof -
  let ?st = "at_colon header_size k"
  obtain m where m: "header_size - length k = Suc m" using assms(2) by (cases "header_size - length k") auto
  have part: "key_cache ?st = k @ 0 # replicate m 0" by (simp add: at_colon_def m)
  have "c_streq (key_cache ?st) HOST_HEADER_KEY = Inr (k = host_name)"
    using plain_name_no_nul [OF assms(1)]
    by (simp add: part c_streq_terminated host_name_def HOST_HEADER_KEY_def)
  moreover have "rd (k @ 58 # d # rest) (Suc (length k)) = Inr d" by (simp add: rd_def nth_append)
  moreover have "flag ?st = IS_KEY" "total_parsed ?st = length k" "\<not> host_found ?st"
    by (simp_all add: at_colon_def first_char_def)
  ultimately show ?thesis
    using assms(2) by (subst header_loop.simps) (simp add: rd_append_head Let_def)
qed

definition stored_header :: "byte list \<Rightarrow> byte list \<Rightarrow> http_request_header" where
  "stored_header k v =
     \<lparr>key_size = length k, value_size = Suc (length v), key = Live (k @ [0]), val = Live (v @ [0]), valid = True\<rparr>"

lemma header_loop_line:
  assumes "plain_name k" and "plain_text v" and "header_size = length k + length v + 2"
  shows "\<exists>st. header_loop (header_line_of k v @ [0]) header_size (first_char header_size) = Inr (True, st) \<and>
           host_found st = (k = host_name) \<and>
           key_cache st = k @ replicate (header_size - length k) 0 \<and> key_cache_size st = length k \<and>
           value_cache st = v @ 0 # replicate (header_size - length v - 1) 0 \<and>
           value_cache_size st = Suc (length v)"
proof -
  let ?line = "header_line_of k v @ [0]"
  let ?st = "(at_colon header_size k)\<lparr>host_found := (k = host_name), flag := IS_VALUE,
               total_parsed := length k + 2\<rparr>"
  let ?fin = "?st\<lparr>value_cache := v @ 0 # replicate (header_size - length v - 1) 0,
               value_cache_size := Suc (length v), total_parsed := header_size + 1\<rparr>"
  have "header_loop ?line header_size (first_char header_size) = header_loop ?line header_size ?st"
    using reach_colon [OF assms(1), of header_size "58 # 32 # v @ [0]"]
      colon_step [OF assms(1), of header_size 32 "v @ [0]"] assms(3)
    by (simp add: header_line_of_def Let_def)
  also have "\<dots> = header_loop ?line header_size ?fin"
    using value_run [of "v @ [0]" ?line "k @ [58, 32]" "[]" ?st "[]" header_size header_size]
      plain_text_no_cr [OF assms(2)] assms(3)
    by (simp add: header_line_of_def at_colon_def first_char_def)
  also have "\<dots> = Inr (True, ?fin)" by (subst header_loop.simps) simp
  finally show ?thesis by (intro exI [of _ ?fin]) (simp add: at_colon_def)
qed

text \<open>What the header object keeps when a copy could not be allocated.\<close>

definition cleaned_header :: "bool \<Rightarrow> bool \<Rightarrow> http_request_header" where
  "cleaned_header key_copied value_copied =
     \<lparr>key_size = 0, value_size = 0, key = (if key_copied then Freed else Null),
      val = (if value_copied then Freed else Null), valid = False\<rparr>"

lemma header_line_run:
  assumes "plain_name k" and "plain_text v" and "header_size = length k + length v + 2"
  shows "validate_http_header alloc n (Some (header_line_of k v @ [0])) header_size host (Some (Live h)) =
           Inr (if alloc n \<and> alloc (Suc n)
                then (True, k = host_name, Some (Live (stored_header k v)), n + 2)
                else (False, k = host_name, Some (Live (cleaned_header (alloc n) (alloc (Suc n)))), n + 2))"
proof -
  obtain st where st: "header_loop (header_line_of k v @ [0]) header_size (first_char header_size) = Inr (True, st)"
      "host_found st = (k = host_name)"
      "key_cache st = k @ replicate (header_size - length k) 0" "key_cache_size st = length k"
      "value_cache st = v @ 0 # replicate (header_size - length v - 1) 0" "value_cache_size st = Suc (length v)"
    using header_loop_line [OF assms] by blast
  obtain m where m: "header_size - length k = Suc m" using assms(3) by (cases "header_size - length k") auto
  have "c_strndup (key_cache st) (key_cache_size st) = Inr (k @ [0])"
    using plain_name_no_nul [OF assms(1)] by (simp add: st m c_strndup_short)
  moreover have "c_strndup (value_cache st) (value_cache_size st) = Inr (v @ [0])"
    using plain_text_no_nul [OF assms(2)] by (simp add: st c_strndup_short)
  ultimately show ?thesis
    using st by (cases "alloc n"; cases "alloc (Suc n)")
      (simp_all add: validate_http_header_def strndup_block_def clean_header_def stored_header_def
        cleaned_header_def Let_def)
qed

text \<open>A line without a colon fills the key cache and stores the NUL behind it.\<close>

lemma header_line_bare:
  assumes "plain_name l"
  shows "validate_http_header alloc n (Some (l @ [0])) (length l) host (Some (Live h)) = Inl Out_Of_Bounds"
proof -
  have "header_loop (l @ [0]) (length l) (first_char (length l)) =
          header_loop (l @ [0]) (length l) (at_colon (length l) l)"
    using reach_colon [OF assms, of "length l" "[0]"] by simp
  also have "\<dots> = Inl Out_Of_Bounds"
    by (subst header_loop.simps)
       (simp add: at_colon_def first_char_def rd_append_head store_header_char_def wr_out)
  finally show ?thesis by (simp add: validate_http_header_def)
qed

text \<open>A colon without a space behind it: the line fails, but a Host key has been seen.\<close>

lemma header_line_tight:
  assumes "plain_name k" and "d \<noteq> 32" and "length k < header_size"
  shows "validate_http_header alloc n (Some (k @ 58 # d # rest)) header_size host (Some (Live h)) =
           Inr (False, k = host_name, Some (Live h), n)"
proof -
  have "header_loop (k @ 58 # d # rest) header_size (first_char header_size) =
      Inr (False, (at_colon header_size k)\<lparr>flag := IS_ASSIGNING, host_found := (k = host_name)\<rparr>)"
    using reach_colon [OF assms(1), of header_size "58 # d # rest"]
      colon_step [OF assms(1,3), of d rest] assms(2,3) by (simp add: Let_def)
  then show ?thesis by (simp add: validate_http_header_def)
qed

end
