(* ===== verification/Http_Metadata.thy ===== *)
theory Http_Metadata
  imports Http_Header
begin

text \<open>
  The header section: \<open>_get_http_metadata\<close> and \<open>process_http_request\<close> on whole
  requests. \<open>metadata_line\<close> runs one line to its end, \<open>header_step\<close> one header line,
  \<open>headers_run\<close> any number of them; \<open>request_bytes\<close> renders a request, and the parser
  reads it back.
\<close>

section \<open>One line\<close>

lemma copy_line_run:
  "0 \<notin> set l \<Longrightarrow> length old = Suc (length l) \<Longrightarrow>
     copy_line (pre @ l @ 0 # r) (length pre) (Suc (length l)) (pre @ old) c =
       Inr (pre @ l @ [0], c + length l)"
proof (induction l arbitrary: pre old c)
  case Nil
  then obtain x where "old = [x]" by (cases old) auto
  then show ?case by (simp add: rd_append_head wr_append_next)
next
  case (Cons a l)
  then obtain x old' where old: "old = x # old'" by (cases old) auto
  have "copy_line (pre @ (a # l) @ 0 # r) (length pre) (Suc (length (a # l))) (pre @ old) c =
      copy_line ((pre @ [a]) @ l @ 0 # r) (length (pre @ [a])) (Suc (length l)) ((pre @ [a]) @ old') (Suc c)"
    using Cons.prems(1) by (simp add: old rd_append_head wr_append_next)
  also have "\<dots> = Inr ((pre @ [a]) @ l @ [0], Suc c + length l)"
    by (rule Cons.IH) (use Cons.prems old in simp_all)
  finally show ?case by simp
qed

text \<open>The state before the first character of a line, and at the \<open>\\r\<close> behind line \<open>l\<close>.\<close>

definition line_start ::
  "nat \<Rightarrow> nat \<Rightarrow> header_ptr list \<Rightarrow> http_request \<Rightarrow> nat \<Rightarrow> meta_state" where
  "line_start pos inc hs req n =
     \<lparr>header_buffer = replicate MAX_HTTP_HEADER_LINE_SIZE 0, line_parsed = 0, line_increment = inc,
      raw_pos = pos, validated_headers = hs, meta_request = req, meta_allocs = n\<rparr>"

definition line_end ::
  "byte list \<Rightarrow> nat \<Rightarrow> nat \<Rightarrow> header_ptr list \<Rightarrow> http_request \<Rightarrow> nat \<Rightarrow> meta_state" where
  "line_end l pos inc hs req n =
     \<lparr>header_buffer = l @ replicate (MAX_HTTP_HEADER_LINE_SIZE - length l) 0, line_parsed = length l,
      line_increment = inc, raw_pos = pos + length l, validated_headers = hs, meta_request = req,
      meta_allocs = n\<rparr>"

lemma line_end_simps [simp]:
  "line_parsed (line_end l pos inc hs req n) = length l"
  "line_increment (line_end l pos inc hs req n) = inc"
  "raw_pos (line_end l pos inc hs req n) = pos + length l"
  "validated_headers (line_end l pos inc hs req n) = hs"
  "meta_request (line_end l pos inc hs req n) = req"
  "meta_allocs (line_end l pos inc hs req n) = n"
  "(line_end l pos inc hs req n)\<lparr>meta_request := req'\<rparr> = line_end l pos inc hs req' n"
  by (simp_all add: line_end_def)

lemma line_run:
  assumes "13 \<notin> set l" and "raw = pre @ l @ rest" and "raw_pos st = length pre"
    and "header_buffer st = b @ replicate m 0" and "line_parsed st = length b"
    and "length l \<le> m" and "length b + m = MAX_HTTP_HEADER_LINE_SIZE"
  shows "metadata_loop alloc stack raw st =
           metadata_loop alloc stack raw
             (st\<lparr>header_buffer := (b @ l) @ replicate (m - length l) 0,
                 line_parsed := length b + length l, raw_pos := length pre + length l\<rparr>)"
  using assms
proof (induction l arbitrary: pre b m st)
  case Nil
  then have "st\<lparr>header_buffer := (b @ []) @ replicate (m - length []) 0,
      line_parsed := length b + length [], raw_pos := length pre + length []\<rparr> = st"
    by simp
  then show ?case by simp
next
  case (Cons c l)
  have "rd raw (raw_pos st) = Inr c" using Cons.prems(2,3) by (simp add: rd_append_head)
  then have "metadata_loop alloc stack raw st = metadata_loop alloc stack raw
      (st\<lparr>header_buffer := (b @ [c]) @ replicate (m - 1) 0, line_parsed := Suc (length b),
          raw_pos := length pre + 1\<rparr>)"
    using Cons.prems by (subst metadata_loop.simps) (simp add: wr_next_cell)
  also have "\<dots> = metadata_loop alloc stack raw
      (st\<lparr>header_buffer := (b @ c # l) @ replicate (m - length (c # l)) 0,
          line_parsed := length b + length (c # l), raw_pos := length pre + length (c # l)\<rparr>)"
    using Cons.IH [of "pre @ [c]" "st\<lparr>header_buffer := (b @ [c]) @ replicate (m - 1) 0,
        line_parsed := Suc (length b), raw_pos := length pre + 1\<rparr>" "b @ [c]" "m - 1"] Cons.prems
    by simp
  finally show ?case .
qed

text \<open>What a complete line does: the request line first, header lines after it.\<close>

definition parse_line :: "allocator \<Rightarrow> stack_bytes \<Rightarrow> byte list \<Rightarrow> meta_state \<Rightarrow> fault + (bool \<times> meta_state)" where
  "parse_line alloc stack l st =
     (if line_increment st < 1 then
        cbind (validate_http_metadata stack (Some (l @ [0])) (length l) (meta_request st))
          (\<lambda>(ok, req). Inr (ok, st\<lparr>meta_request := req\<rparr>))
      else cbind (store_header alloc (l @ [0]) st) (\<lambda>st'. Inr (True, st')))"

lemma metadata_line:
  assumes "plain_text l" and "length l < MAX_HTTP_HEADER_LINE_SIZE" and "raw = pre @ l @ 13 # 10 # e # f # rest"
  shows "metadata_loop alloc stack raw (line_start (length pre) inc hs req n) =
           cbind (parse_line alloc stack l (line_end l (length pre) inc hs req n))
             (\<lambda>(ok, st). if \<not> ok then Inr (False, st)
                else if e = 13 \<and> f = 10 then Inr (True, st)
                else metadata_loop alloc stack raw
                       (st\<lparr>header_buffer := replicate MAX_HTTP_HEADER_LINE_SIZE 0, line_parsed := 0,
                           line_increment := Suc (line_increment st),
                           raw_pos := length pre + length l + 2\<rparr>))"
proof -
  let ?fin = "line_end l (length pre) inc hs req n"
  have start: "metadata_loop alloc stack raw (line_start (length pre) inc hs req n) =
      metadata_loop alloc stack raw ?fin"
    using line_run [of l raw pre "13 # 10 # e # f # rest" "line_start (length pre) inc hs req n" "[]"
        MAX_HTTP_HEADER_LINE_SIZE] plain_text_no_cr [OF assms(1)] assms(2,3)
    by (simp add: line_start_def line_end_def)
  obtain m where "MAX_HTTP_HEADER_LINE_SIZE - length l = Suc m"
    using assms(2) by (cases "MAX_HTTP_HEADER_LINE_SIZE - length l") auto
  then have copy: "copy_line (header_buffer ?fin) 0 (length l + 1) (vla stack (Header_Line inc) (length l + 1)) 0
      = Inr (l @ [0], length l)"
    using copy_line_run [of l "vla stack (Header_Line inc) (length l + 1)" "[]" "replicate m 0" 0]
      plain_text_no_nul [OF assms(1)] by (simp add: line_end_def vla_def)
  have at: "rd raw (length pre + length l) = Inr 13" "rd raw (length pre + length l + 1) = Inr 10"
      "rd raw (length pre + length l + 2) = Inr e" "rd raw (length pre + length l + 3) = Inr f"
    by (simp_all add: assms(3) rd_def nth_append numeral_2_eq_2 numeral_3_eq_3)
  have "end_of_line alloc stack raw ?fin = cbind (parse_line alloc stack l ?fin)
      (\<lambda>(ok, st). if \<not> ok then Inr (Line_Failed, st)
         else cbind (rd raw (length pre + length l + 2))
           (\<lambda>e. cbind (if e = 13 then rd raw (length pre + length l + 3) else Inr 0)
             (\<lambda>f. Inr (if e = 13 \<and> f = 10 then Last_Line else More_Lines, st))))"
    unfolding end_of_line_def line_end_simps copy parse_line_def using at(2) by simp
  also have "\<dots> = cbind (parse_line alloc stack l ?fin)
      (\<lambda>(ok, st). if \<not> ok then Inr (Line_Failed, st)
         else Inr (if e = 13 \<and> f = 10 then Last_Line else More_Lines, st))"
    using at(3,4) by (cases "parse_line alloc stack l ?fin") (auto simp: split_def)
  finally have "end_of_line alloc stack raw ?fin = cbind (parse_line alloc stack l ?fin)
      (\<lambda>(ok, st). if \<not> ok then Inr (Line_Failed, st)
         else Inr (if e = 13 \<and> f = 10 then Last_Line else More_Lines, st))" .
  then show ?thesis
    unfolding start using assms(2) at(1)
    by (subst metadata_loop.simps) (cases "parse_line alloc stack l ?fin"; auto)
qed

section \<open>Header lines\<close>

type_synonym header_field = "byte list \<times> byte list"

definition field_ok :: "header_field \<Rightarrow> bool" where
  "field_ok = (\<lambda>(k, v). plain_name k \<and> plain_text v \<and> length k + length v + 2 < MAX_HTTP_HEADER_LINE_SIZE)"

definition field_line :: "header_field \<Rightarrow> byte list" where
  "field_line = (\<lambda>(k, v). header_line_of k v)"

definition field_bytes :: "header_field list \<Rightarrow> byte list" where
  "field_bytes hs = concat (map (\<lambda>h. field_line h @ [13, 10]) hs)"

definition field_header :: "header_field \<Rightarrow> header_ptr" where
  "field_header = (\<lambda>(k, v). Live (stored_header k v))"

definition set_host :: "header_field \<Rightarrow> http_request \<Rightarrow> http_request" where
  "set_host = (\<lambda>(k, v) req. if k = host_name then req\<lparr>http_host := Live (v @ [0])\<rparr> else req)"

definition field_allocs :: "header_field \<Rightarrow> nat" where
  "field_allocs = (\<lambda>(k, v). if k = host_name then 4 else 3)"

lemma field_bytes_simps [simp]:
  "field_bytes [] = []" "field_bytes (h # hs) = field_line h @ 13 # 10 # field_bytes hs"
  "field_bytes (hs @ hs') = field_bytes hs @ field_bytes hs'"
  by (simp_all add: field_bytes_def)

lemma field_line_plain: "field_ok h \<Longrightarrow> plain_text (field_line h)"
  by (auto simp: field_ok_def field_line_def header_line_of_def plain_text_def plain_name_def list_all_iff
      split: prod.splits)

lemma field_line_length: "field_ok h \<Longrightarrow> length (field_line h) < MAX_HTTP_HEADER_LINE_SIZE"
  by (auto simp: field_ok_def field_line_def header_line_of_def split: prod.splits)

text \<open>A header line goes on with two bytes that are not \<open>\\r\\n\<close>.\<close>

lemma field_line_front:
  assumes "field_ok h"
  shows "\<exists>e f rest. field_line h = e # f # rest \<and> e \<noteq> 13"
proof -
  obtain k v where h: "h = (k, v)" by (cases h)
  show ?thesis
  proof (cases k)
    case Nil
    then show ?thesis by (simp add: h field_line_def header_line_of_def)
  next
    case (Cons c k')
    moreover have "c \<noteq> 13" using assms Cons by (simp add: h field_ok_def plain_name_def)
    ultimately show ?thesis by (cases k') (simp_all add: h field_line_def header_line_of_def)
  qed
qed

lemma store_header_run:
  assumes "field_ok h" and "\<forall>i. alloc i"
  shows "store_header alloc (field_line h @ [0]) (line_end (field_line h) pos inc hs req n) =
           (if length hs < MAX_HTTP_HEADER_COUNT
            then Inr (line_end (field_line h) pos inc (hs @ [field_header h]) (set_host h req) (n + field_allocs h))
            else Inl Out_Of_Bounds)"
proof -
  obtain k v where h: "h = (k, v)" by (cases h)
  have ok: "plain_name k" "plain_text v" using assms(1) by (simp_all add: h field_ok_def)
  have size: "length (header_line_of k v) = length k + length v + 2" by (simp add: header_line_of_def)
  have "c_strndup (v @ [0]) (Suc (length v)) = Inr (v @ [0])"
    by (rule c_strndup_short) (use plain_text_no_nul [OF ok(2)] in simp_all)
  then show ?thesis
    using header_line_run [OF ok size, of alloc "Suc n"] assms(2)
    by (simp add: store_header_def h field_line_def field_header_def set_host_def field_allocs_def Let_def
          strndup_block_def stored_header_def)
       (simp add: line_end_def)
qed

lemma header_step:
  assumes "field_ok h" and "\<forall>i. alloc i" and "0 < inc" and "raw = pre @ field_line h @ 13 # 10 # e # f # rest"
  shows "metadata_loop alloc stack raw (line_start (length pre) inc hs req n) =
           (if length hs \<ge> MAX_HTTP_HEADER_COUNT then Inl Out_Of_Bounds
            else if e = 13 \<and> f = 10
            then Inr (True, line_end (field_line h) (length pre) inc (hs @ [field_header h]) (set_host h req)
                              (n + field_allocs h))
            else metadata_loop alloc stack raw
                   (line_start (length pre + length (field_line h) + 2) (Suc inc) (hs @ [field_header h])
                      (set_host h req) (n + field_allocs h)))"
  using assms(3) store_header_run [OF assms(1,2), where pos = "length pre" and inc = inc and hs = hs and req = req and n = n]
  by (subst metadata_line [OF field_line_plain [OF assms(1)] field_line_length [OF assms(1)] assms(4)])
     (simp add: parse_line_def line_start_def, simp add: line_end_def)

lemma headers_run:
  assumes "list_all field_ok hs" and "\<forall>i. alloc i" and "0 < inc"
    and "length vs + length hs \<le> MAX_HTTP_HEADER_COUNT"
    and "raw = pre @ field_bytes hs @ e # f # rest" and "e \<noteq> 13"
  shows "metadata_loop alloc stack raw (line_start (length pre) inc vs req n) =
           metadata_loop alloc stack raw
             (line_start (length pre + length (field_bytes hs)) (inc + length hs) (vs @ map field_header hs)
                (fold set_host hs req) (n + sum_list (map field_allocs hs)))"
  using assms
proof (induction hs arbitrary: pre inc vs req n)
  case (Cons h hs)
  have h: "field_ok h" and hs: "list_all field_ok hs" using Cons.prems(1) by simp_all
  have "\<exists>a b r. field_bytes hs @ e # f # rest = a # b # r \<and> a \<noteq> 13"
  proof (cases hs)
    case (Cons h' hs')
    then show ?thesis using hs field_line_front [of h'] by auto
  qed (use \<open>e \<noteq> 13\<close> in simp)
  then obtain a b r where next_two: "field_bytes hs @ e # f # rest = a # b # r" "a \<noteq> 13" by blast
  have "metadata_loop alloc stack raw (line_start (length pre) inc vs req n) =
      metadata_loop alloc stack raw (line_start (length (pre @ field_line h @ [13, 10])) (Suc inc)
        (vs @ [field_header h]) (set_host h req) (n + field_allocs h))"
    using header_step [OF h Cons.prems(2,3), where raw = raw and pre = pre and e = a and f = b and rest = r
        and stack = stack and hs = vs and req = req and n = n] Cons.prems(4,5) next_two by simp
  also have "\<dots> = metadata_loop alloc stack raw
      (line_start (length (pre @ field_line h @ [13, 10]) + length (field_bytes hs)) (Suc inc + length hs)
        ((vs @ [field_header h]) @ map field_header hs) (fold set_host hs (set_host h req))
        (n + field_allocs h + sum_list (map field_allocs hs)))"
    by (rule Cons.IH [OF hs Cons.prems(2)]) (use Cons.prems(4-6) in simp_all)
  finally show ?case by (simp add: add.assoc)
qed simp

section \<open>Whole requests\<close>

definition request_line_of :: "byte list \<Rightarrow> byte list \<Rightarrow> byte list \<Rightarrow> byte list" where
  "request_line_of m r p = m @ 32 # r @ 32 # p"

definition request_bytes ::
  "byte list \<Rightarrow> byte list \<Rightarrow> byte list \<Rightarrow> header_field list \<Rightarrow> byte list \<Rightarrow> byte list" where
  "request_bytes m r p hs body = request_line_of m r p @ 13 # 10 # field_bytes hs @ 13 # 10 # body"

definition request_line_ok ::
  "stack_bytes \<Rightarrow> http_request \<Rightarrow> byte list \<Rightarrow> byte list \<Rightarrow> byte list \<Rightarrow> bool" where
  "request_line_ok stack req m r p \<longleftrightarrow>
     plain_word m \<and> plain_word r \<and> plain_word p \<and> 13 \<notin> set r \<and> r \<noteq> [] \<and> hd r = 47 \<and>
     known_method m \<noteq> None \<and> known_protocol (http_protocol req) p \<noteq> None \<and>
     stack Line_Partition (length m) = 0 \<and>
     length m + length r + length p + 2 < MAX_HTTP_HEADER_LINE_SIZE \<and> has_route_block req"

definition routed_request :: "byte list \<Rightarrow> byte list \<Rightarrow> byte list \<Rightarrow> http_request \<Rightarrow> http_request" where
  "routed_request m r p req =
     routed (the (known_method m)) r (the (known_protocol (http_protocol req) p)) req"

lemma known_method_plain: "known_method m = Some meth \<Longrightarrow> 13 \<notin> set m \<and> 3 \<le> length m"
  by (auto simp: known_method_def literal_strings split: if_splits)

lemma known_protocol_plain: "known_protocol old p = Some prot \<Longrightarrow> 13 \<notin> set p \<and> p \<noteq> []"
  by (auto simp: known_protocol_def literal_strings split: if_splits)

lemma request_line_plain:
  assumes "request_line_ok stack req m r p"
  shows "plain_text (request_line_of m r p)"
proof -
  obtain a b where "known_method m = Some a" "known_protocol (http_protocol req) p = Some b"
    using assms by (auto simp: request_line_ok_def)
  with assms have "13 \<notin> set m" "13 \<notin> set r" "13 \<notin> set p"
    by (auto simp: request_line_ok_def dest: known_method_plain known_protocol_plain)
  moreover have "0 \<notin> set m" "0 \<notin> set r" "0 \<notin> set p"
    using assms by (simp_all add: request_line_ok_def plain_word_no_nul)
  ultimately show ?thesis by (auto simp: request_line_of_def plain_text_def list_all_iff)
qed

lemma request_line_validated:
  assumes "request_line_ok stack req m r p"
  shows "validate_http_metadata stack (Some (request_line_of m r p @ [0])) (length (request_line_of m r p)) req
           = Inr (True, routed_request m r p req)"
proof -
  obtain a b where ab: "known_method m = Some a" "known_protocol (http_protocol req) p = Some b"
    using assms by (auto simp: request_line_ok_def)
  let ?size = "length (request_line_of m r p)"
  have nul: "stack Line_Partition (length m) = 0" "length m < ?size"
    using assms by (simp_all add: request_line_ok_def request_line_of_def)
  have "validate_http_metadata stack (Some (request_line_of m r p @ [0])) ?size req = Inr (True, routed a r b req)"
    by (rule request_line_run [where m = m and p = p and d = 0 and rest = "[]"])
       (use assms ab method_seen_nul [of stack m ?size, OF nul] in
          \<open>auto simp: request_line_ok_def request_line_of_def dest: known_method_plain known_protocol_plain\<close>)
  then show ?thesis by (simp add: routed_request_def ab)
qed

lemma request_line_step:
  assumes "request_line_ok stack req m r p" and "raw = request_line_of m r p @ 13 # 10 # e # f # rest"
  shows "metadata_loop alloc stack raw (first_line req n) =
           (if e = 13 \<and> f = 10
            then Inr (True, line_end (request_line_of m r p) 0 0 [] (routed_request m r p req) n)
            else metadata_loop alloc stack raw
                   (line_start (length (request_line_of m r p) + 2) 1 [] (routed_request m r p req) n))"
proof -
  have first: "first_line req n = line_start 0 0 [] req n"
    by (simp add: first_line_def line_start_def)
  have short: "length (request_line_of m r p) < MAX_HTTP_HEADER_LINE_SIZE"
    using assms(1) by (simp add: request_line_ok_def request_line_of_def)
  have raw: "raw = [] @ request_line_of m r p @ 13 # 10 # e # f # rest" using assms(2) by simp
  have next_line: "(line_end (request_line_of m r p) 0 0 [] req' n)
      \<lparr>header_buffer := replicate MAX_HTTP_HEADER_LINE_SIZE 0, line_parsed := 0,
       line_increment := 1, raw_pos := length (request_line_of m r p) + 2\<rparr> =
      line_start (length (request_line_of m r p) + 2) 1 [] req' n" for req'
    by (simp add: line_start_def line_end_def)
  show ?thesis
    using metadata_line [OF request_line_plain [OF assms(1)] short raw, where alloc = alloc
        and stack = stack and inc = 0 and hs = "[]" and req = req and n = n]
    by (simp add: first parse_line_def request_line_validated [OF assms(1)] next_line [simplified])
qed

lemma header_section_run:
  assumes "request_line_ok stack req m r p" and "list_all field_ok hs" and "\<forall>i. alloc i"
    and "length hs \<le> MAX_HTTP_HEADER_COUNT"
    and "raw = request_line_of m r p @ 13 # 10 # field_bytes hs @ e # f # rest" and "e \<noteq> 13"
  shows "metadata_loop alloc stack raw (first_line req n) =
           metadata_loop alloc stack raw
             (line_start (length (request_line_of m r p) + 2 + length (field_bytes hs)) (Suc (length hs))
                (map field_header hs) (fold set_host hs (routed_request m r p req))
                (n + sum_list (map field_allocs hs)))"
proof -
  let ?l = "request_line_of m r p"
  have "\<exists>a b c. field_bytes hs @ e # f # rest = a # b # c \<and> a \<noteq> 13"
  proof (cases hs)
    case (Cons h' hs')
    then show ?thesis using assms(2) field_line_front [of h'] by auto
  qed (use \<open>e \<noteq> 13\<close> in simp)
  then obtain a b c where next_two: "field_bytes hs @ e # f # rest = a # b # c" "a \<noteq> 13" by blast
  have raw: "raw = ?l @ 13 # 10 # a # b # c" using assms(5) next_two(1) by simp
  have "metadata_loop alloc stack raw (first_line req n) =
      metadata_loop alloc stack raw (line_start (length (?l @ [13, 10])) 1 [] (routed_request m r p req) n)"
    using request_line_step [OF assms(1) raw, where alloc = alloc and n = n] next_two(2) by simp
  also have "\<dots> = metadata_loop alloc stack raw
      (line_start (length (?l @ [13, 10]) + length (field_bytes hs)) (1 + length hs) ([] @ map field_header hs)
         (fold set_host hs (routed_request m r p req)) (n + sum_list (map field_allocs hs)))"
    by (rule headers_run [OF assms(2,3)]) (use assms(4-6) in simp_all)
  finally show ?thesis by simp
qed

text \<open>The loop over a whole header section of at most 100 lines.\<close>

lemma header_section_complete:
  assumes "request_line_ok stack req m r p" and "list_all field_ok hs" and "\<forall>i. alloc i"
    and "length hs \<le> MAX_HTTP_HEADER_COUNT" and "raw = request_bytes m r p hs body"
  shows "\<exists>st. metadata_loop alloc stack raw (first_line req n) = Inr (True, st) \<and>
           meta_request st = fold set_host hs (routed_request m r p req) \<and>
           validated_headers st = map field_header hs \<and>
           meta_allocs st = n + sum_list (map field_allocs hs)"
proof (cases hs rule: rev_cases)
  case Nil
  then show ?thesis
    using request_line_step [OF assms(1), of raw 13 10 body alloc n] assms(5) by (simp add: request_bytes_def)
next
  case (snoc hs' h)
  have h: "field_ok h" and hs': "list_all field_ok hs'" using assms(2) by (simp_all add: snoc)
  let ?l = "request_line_of m r p"
  obtain e f rest where front: "field_line h = e # f # rest" "e \<noteq> 13" using field_line_front [OF h] by blast
  have pre: "length ?l + 2 + length (field_bytes hs') = length (?l @ 13 # 10 # field_bytes hs')" by simp
  have "metadata_loop alloc stack raw (first_line req n) = metadata_loop alloc stack raw
      (line_start (length (?l @ 13 # 10 # field_bytes hs')) (Suc (length hs')) (map field_header hs')
         (fold set_host hs' (routed_request m r p req)) (n + sum_list (map field_allocs hs')))"
    unfolding pre [symmetric]
    by (rule header_section_run [OF assms(1) hs' assms(3), where e = e and f = f and rest = "rest @ 13 # 10 # 13 # 10 # body"])
       (use assms(4,5) snoc front in \<open>simp_all add: request_bytes_def\<close>)
  then show ?thesis
    using header_step [OF h assms(3), where inc = "Suc (length hs')" and raw = raw and e = 13 and f = 10
        and pre = "?l @ 13 # 10 # field_bytes hs'" and rest = body] assms(4,5) snoc
    by (simp add: request_bytes_def)
qed

end
