(* ===== verification/Http_Properties.thy ===== *)
theory Http_Properties
  imports Http_Metadata
begin

text \<open>
  The properties of the request parser as a whole: a rendered request is read back, requests
  that are refused, header sections that write or read outside an object, and the end of
  \<open>process_http_request\<close>.
\<close>

section \<open>The host\<close>

definition host_values :: "header_field list \<Rightarrow> byte list list" where
  "host_values hs = map snd (filter (\<lambda>h. fst h = host_name) hs)"

lemma fold_set_host:
  "fold set_host hs req =
     (if host_values hs = [] then req else req\<lparr>http_host := Live (last (host_values hs) @ [0])\<rparr>)"
  by (induction hs rule: rev_induct) (auto simp: host_values_def set_host_def)

definition parsed_request ::
  "byte list \<Rightarrow> byte list \<Rightarrow> byte list \<Rightarrow> header_field list \<Rightarrow> http_request \<Rightarrow> http_request" where
  "parsed_request m r p hs req =
     (routed_request m r p req)
       \<lparr>http_host := Live (last (host_values hs) @ [0]), num_headers := length hs,
        http_headers_size := length hs * 8, http_headers := Live (map field_header hs)\<rparr>"

lemma routed_request_host [simp]: "http_host (routed_request m r p req) = http_host req"
  by (simp add: routed_request_def routed_def)

lemma get_http_metadata_loop:
  "0 < raw_size \<Longrightarrow> raw_size \<le> MAX_HTTP_HEADER_TOTAL_SIZE \<Longrightarrow>
     get_http_metadata alloc stack n (Some raw) raw_size (Some req) =
       cbind (metadata_loop alloc stack raw (first_line req n))
         (\<lambda>(ok, st). if \<not> ok then Inr (False, Some (meta_request st), meta_allocs st)
            else cbind (publish_headers alloc st) (\<lambda>(ok', req', n'). Inr (ok', Some req', n')))"
  by (simp add: get_http_metadata_def)

lemma metadata_hosted:
  assumes "request_line_ok stack req m r p" and "list_all field_ok hs" and "\<forall>i. alloc i"
    and "length hs \<le> MAX_HTTP_HEADER_COUNT" and "host_values hs \<noteq> []"
    and "0 < raw_size" and "raw_size \<le> MAX_HTTP_HEADER_TOTAL_SIZE"
  shows "get_http_metadata alloc stack n (Some (request_bytes m r p hs body)) raw_size (Some req) =
           Inr (True, Some (parsed_request m r p hs req), Suc (n + sum_list (map field_allocs hs)))"
proof -
  obtain st where st: "metadata_loop alloc stack (request_bytes m r p hs body) (first_line req n) = Inr (True, st)"
      "meta_request st = fold set_host hs (routed_request m r p req)"
      "validated_headers st = map field_header hs" "meta_allocs st = n + sum_list (map field_allocs hs)"
    using header_section_complete [OF assms(1-4) refl, where body = body and n = n] by blast
  have "publish_headers alloc st =
      Inr (True, parsed_request m r p hs req, Suc (n + sum_list (map field_allocs hs)))"
    using assms(3,5) by (simp add: publish_headers_def st fold_set_host parsed_request_def Let_def)
  with st(1) show ?thesis by (simp add: get_http_metadata_loop [OF assms(6,7)])
qed

lemma section_front: "\<exists>a b tail. field_bytes hs @ 13 # 10 # body = a # b # tail"
proof (cases hs)
  case (Cons h hs')
  then obtain c l where "field_line h = c # l"
    by (cases "field_line h") (auto simp: field_line_def header_line_of_def split: prod.splits)
  with Cons show ?thesis by (cases l) auto
qed simp

text \<open>A header line that faults, after any number of good ones the array has room for.\<close>

definition request_with_line ::
  "byte list \<Rightarrow> byte list \<Rightarrow> byte list \<Rightarrow> header_field list \<Rightarrow> byte list \<Rightarrow> byte list \<Rightarrow> byte list" where
  "request_with_line m r p hs l remainder =
     request_line_of m r p @ 13 # 10 # field_bytes hs @ l @ 13 # 10 # remainder"

lemma faulty_line:
  assumes "request_line_ok stack req m r p" and "list_all field_ok hs" and "\<forall>i. alloc i"
    and "length hs \<le> MAX_HTTP_HEADER_COUNT" and "0 < raw_size" and "raw_size \<le> MAX_HTTP_HEADER_TOTAL_SIZE"
    and "plain_text l" and "l \<noteq> []" and "length l < MAX_HTTP_HEADER_LINE_SIZE" and "2 \<le> length remainder"
    and fault: "\<And>st. line_parsed st = length l \<Longrightarrow> store_header alloc (l @ [0]) st = Inl e"
  shows "get_http_metadata alloc stack n (Some (request_with_line m r p hs l remainder)) raw_size (Some req) = Inl e"
proof -
  let ?l = "request_line_of m r p" and ?raw = "request_with_line m r p hs l remainder"
  obtain a b tail where tail: "remainder = a # b # tail"
    using assms(10) by (cases remainder; cases "tl remainder") auto
  obtain c l' where l: "l = c # l'" using assms(8) by (cases l) auto
  then have "c \<noteq> 13" using assms(7) by (simp add: plain_text_def)
  obtain d l'' where l'': "l' @ 13 # 10 # remainder = d # l''" by (cases l') auto
  have pre: "length ?l + 2 + length (field_bytes hs) = length (?l @ 13 # 10 # field_bytes hs)" by simp
  have "metadata_loop alloc stack ?raw (first_line req n) = metadata_loop alloc stack ?raw
      (line_start (length (?l @ 13 # 10 # field_bytes hs)) (Suc (length hs)) (map field_header hs)
         (fold set_host hs (routed_request m r p req)) (n + sum_list (map field_allocs hs)))"
    unfolding pre [symmetric]
    by (rule header_section_run [OF assms(1-4), where e = c and f = d and rest = l''])
       (use l l'' \<open>c \<noteq> 13\<close> in \<open>simp_all add: request_with_line_def\<close>)
  also have "\<dots> = Inl e"
    using metadata_line [OF assms(7,9), where raw = ?raw and pre = "?l @ 13 # 10 # field_bytes hs"
        and e = a and f = b and rest = tail and inc = "Suc (length hs)"] fault tail
    by (simp add: request_with_line_def parse_line_def)
  finally show ?thesis by (simp add: get_http_metadata_loop [OF assms(5,6)])
qed

lemma process_http_request_not_true:
  "process_http_request alloc stack n socket message message_size response \<noteq> Inr (True, n')"
  using free_http_request_never_true
  by (fastforce simp: process_http_request_def Let_def cbind_eq_Inr split: if_splits prod.splits)

section \<open>Sample requests\<close>

text \<open>\<open>GET / HTTP/1.1\<close> with the fields \<open>Host: a\<close> and \<open>X: y\<close>.\<close>

definition get_method :: "byte list" where "get_method = [71, 69, 84]"
definition root_route :: "byte list" where "root_route = [47]"
definition http_1_1 :: "byte list" where "http_1_1 = [72, 84, 84, 80, 47, 49, 46, 49]"
definition host_field :: header_field where "host_field = ([72, 111, 115, 116], [97])"
definition other_field :: header_field where "other_field = ([88], [121])"

definition fresh_request :: http_request where
  "fresh_request = zero_request
     \<lparr>http_headers := Live (replicate header_block_cells Null),
      http_route := Live (replicate (8 * MAX_HTTP_HEADER_LINE_SIZE) 0)\<rparr>"

lemma sample_line_ok: "request_line_ok zero_stack fresh_request get_method root_route http_1_1"
  by (simp add: request_line_ok_def get_method_def root_route_def http_1_1_def plain_word_def
      known_method_def known_protocol_def literal_strings zero_stack_def MAX_HTTP_HEADER_LINE_SIZE_def
      has_route_block_def fresh_request_def)

lemma sample_fields_ok: "field_ok host_field" "field_ok other_field"
  by (simp_all add: field_ok_def host_field_def other_field_def plain_name_def plain_text_def
      MAX_HTTP_HEADER_LINE_SIZE_def)

lemma sample_host: "host_values [other_field, host_field] = [[97]]" "host_values [other_field] = []"
  "host_values [host_field] = [[97]]"
  by (simp_all add: host_values_def host_field_def other_field_def host_name_bytes)

section \<open>Properties\<close>

text \<open>
  C10: The parser inverts the printer. A request rendered from a supported method, a route, a
  protocol and up to 100 header fields, a Host among them, is accepted whatever body follows:
  the request holds the method, the route and the protocol, one header object per field in
  order with NUL-terminated copies of key and value (the stored value size counts the NUL), the
  value of the last Host field, and the number of headers.
\<close>

theorem request_roundtrip:
  assumes "request_line_ok stack req m r p" and "list_all field_ok hs" and "\<forall>i. alloc i"
    and "length hs \<le> MAX_HTTP_HEADER_COUNT" and "host_values hs \<noteq> []"
    and "0 < raw_size" and "raw_size \<le> MAX_HTTP_HEADER_TOTAL_SIZE"
  shows "\<exists>n'. get_http_metadata alloc stack n (Some (request_bytes m r p hs body)) raw_size (Some req) =
           Inr (True, Some (parsed_request m r p hs req), n')"
  using metadata_hosted [OF assms] by blast

theorem request_roundtrip_witness:
  "\<exists>n'. get_http_metadata (\<lambda>_. True) zero_stack 3
     (Some (request_bytes get_method root_route http_1_1 [other_field, host_field] [1, 2])) 40 (Some fresh_request) =
   Inr (True, Some (parsed_request get_method root_route http_1_1 [other_field, host_field] fresh_request), n')"
  by (rule request_roundtrip [OF sample_line_ok])
     (simp_all add: sample_fields_ok sample_host MAX_HTTP_HEADER_COUNT_def MAX_HTTP_HEADER_TOTAL_SIZE_def
        MAX_HTTP_HEADER_LINE_SIZE_def)

text \<open>
  A well-formed request without a Host field is refused with false; the request line has
  been stored, no header is published.
\<close>

theorem request_without_host:
  assumes "request_line_ok stack req m r p" and "list_all field_ok hs" and "\<forall>i. alloc i"
    and "length hs \<le> MAX_HTTP_HEADER_COUNT" and "host_values hs = []" and "http_host req = Null"
    and "0 < raw_size" and "raw_size \<le> MAX_HTTP_HEADER_TOTAL_SIZE"
  shows "\<exists>n'. get_http_metadata alloc stack n (Some (request_bytes m r p hs body)) raw_size (Some req) =
           Inr (False, Some (routed_request m r p req), n')"
proof -
  obtain st where st: "metadata_loop alloc stack (request_bytes m r p hs body) (first_line req n) = Inr (True, st)"
      "meta_request st = fold set_host hs (routed_request m r p req)"
    using header_section_complete [OF assms(1-4) refl, where body = body and n = n] by blast
  have "publish_headers alloc st = Inr (False, routed_request m r p req, meta_allocs st)"
    using assms(5,6) by (simp add: publish_headers_def st fold_set_host Let_def)
  with st(1) show ?thesis by (simp add: get_http_metadata_loop [OF assms(7,8)])
qed

theorem request_without_host_witness:
  "\<exists>n'. get_http_metadata (\<lambda>_. True) zero_stack 3
     (Some (request_bytes get_method root_route http_1_1 [other_field] [])) 40 (Some fresh_request) =
   Inr (False, Some (routed_request get_method root_route http_1_1 fresh_request), n')"
  by (rule request_without_host [OF sample_line_ok])
     (simp_all add: sample_fields_ok sample_host MAX_HTTP_HEADER_COUNT_def MAX_HTTP_HEADER_TOTAL_SIZE_def
        MAX_HTTP_HEADER_LINE_SIZE_def fresh_request_def zero_request_def)

text \<open>
  The parser does not bound the number of header lines: with one more than 100
  well-formed fields it writes behind \<open>validated_headers\<close>.
\<close>

theorem header_count_overflow:
  assumes "request_line_ok stack req m r p" and "list_all field_ok (hs @ [h])" and "\<forall>i. alloc i"
    and "length hs = MAX_HTTP_HEADER_COUNT" and "0 < raw_size" and "raw_size \<le> MAX_HTTP_HEADER_TOTAL_SIZE"
  shows "get_http_metadata alloc stack n (Some (request_bytes m r p (hs @ h # others) body)) raw_size (Some req)
           = Inl Out_Of_Bounds"
proof -
  let ?l = "request_line_of m r p" and ?raw = "request_bytes m r p (hs @ h # others) body"
  have h: "field_ok h" and hs: "list_all field_ok hs" using assms(2) by simp_all
  obtain e f rest where front: "field_line h = e # f # rest" "e \<noteq> 13" using field_line_front [OF h] by blast
  obtain a b tail where tail: "field_bytes others @ 13 # 10 # body = a # b # tail"
    using section_front [of others body] by blast
  have pre: "length ?l + 2 + length (field_bytes hs) = length (?l @ 13 # 10 # field_bytes hs)" by simp
  have "metadata_loop alloc stack ?raw (first_line req n) = metadata_loop alloc stack ?raw
      (line_start (length (?l @ 13 # 10 # field_bytes hs)) (Suc (length hs)) (map field_header hs)
         (fold set_host hs (routed_request m r p req)) (n + sum_list (map field_allocs hs)))"
    unfolding pre [symmetric]
    by (rule header_section_run [OF assms(1) hs assms(3), where e = e and f = f
          and rest = "rest @ 13 # 10 # field_bytes others @ 13 # 10 # body"])
       (use assms(4) front in \<open>simp_all add: request_bytes_def\<close>)
  also have "\<dots> = Inl Out_Of_Bounds"
    using header_step [OF h assms(3), where inc = "Suc (length hs)" and raw = ?raw and e = a and f = b
        and pre = "?l @ 13 # 10 # field_bytes hs" and rest = tail] assms(4) tail
    by (simp add: request_bytes_def)
  finally show ?thesis by (simp add: get_http_metadata_loop [OF assms(5,6)])
qed

theorem header_count_overflow_witness:
  "get_http_metadata (\<lambda>_. True) zero_stack 3
     (Some (request_bytes get_method root_route http_1_1 (replicate 100 host_field @ other_field # []) [])) 1000
     (Some fresh_request) = Inl Out_Of_Bounds"
  by (rule header_count_overflow [OF sample_line_ok])
     (simp_all add: sample_fields_ok list_all_iff MAX_HTTP_HEADER_COUNT_def MAX_HTTP_HEADER_TOTAL_SIZE_def
        MAX_HTTP_HEADER_LINE_SIZE_def)

text \<open>
  A header line without a colon, after any number of well-formed ones, makes the parser
  write one byte behind \<open>key_cache\<close>: the loop runs up to and with the terminating NUL.
\<close>

theorem colonless_line_overflow:
  assumes "request_line_ok stack req m r p" and "list_all field_ok hs" and "\<forall>i. alloc i"
    and "length hs \<le> MAX_HTTP_HEADER_COUNT" and "0 < raw_size" and "raw_size \<le> MAX_HTTP_HEADER_TOTAL_SIZE"
    and "plain_name l" and "l \<noteq> []" and "length l < MAX_HTTP_HEADER_LINE_SIZE" and "2 \<le> length remainder"
  shows "get_http_metadata alloc stack n (Some (request_with_line m r p hs l remainder)) raw_size (Some req)
           = Inl Out_Of_Bounds"
  by (rule faulty_line [OF assms(1-6) plain_name_text [OF assms(7)] assms(8-10)])
     (use assms(3) in \<open>simp add: store_header_def header_line_bare [OF assms(7)] Let_def\<close>)

theorem colonless_line_overflow_witness:
  "get_http_metadata (\<lambda>_. True) zero_stack 3
     (Some (request_with_line get_method root_route http_1_1 [host_field] [97] [13, 10])) 40 (Some fresh_request)
   = Inl Out_Of_Bounds"
  by (rule colonless_line_overflow [OF sample_line_ok])
     (simp_all add: sample_fields_ok MAX_HTTP_HEADER_COUNT_def MAX_HTTP_HEADER_TOTAL_SIZE_def
        MAX_HTTP_HEADER_LINE_SIZE_def plain_name_def)

text \<open>
  A Host line without the space after its colon makes the caller read the header object it
  has just freed: the line is refused, but \<open>host_found\<close> stays set.
\<close>

theorem tight_host_use_after_free:
  assumes "request_line_ok stack req m r p" and "list_all field_ok hs" and "\<forall>i. alloc i"
    and "length hs \<le> MAX_HTTP_HEADER_COUNT" and "0 < raw_size" and "raw_size \<le> MAX_HTTP_HEADER_TOTAL_SIZE"
    and "plain_text v" and "v = [] \<or> hd v \<noteq> 32" and "length v + 5 < MAX_HTTP_HEADER_LINE_SIZE"
    and "2 \<le> length remainder"
  shows "get_http_metadata alloc stack n (Some (request_with_line m r p hs (host_name @ 58 # v) remainder)) raw_size
           (Some req) = Inl Use_After_Free"
proof (rule faulty_line [OF assms(1-6)])
  obtain d rest where d: "v @ [0] = d # rest" "d \<noteq> 32" using assms(8) by (cases v) auto
  have host: "plain_name host_name" by (simp add: host_name_bytes plain_name_def)
  fix st :: meta_state
  assume "line_parsed st = length (host_name @ 58 # v)"
  then have size: "length host_name < line_parsed st" by simp
  have "(host_name @ 58 # v) @ [0] = host_name @ 58 # d # rest" using d(1) by simp
  then show "store_header alloc ((host_name @ 58 # v) @ [0]) st = Inl Use_After_Free"
    using header_line_tight [OF host d(2) size, of alloc "Suc (meta_allocs st)" rest False zero_header] assms(3)
    by (simp add: store_header_def Let_def)
qed (use assms in \<open>simp_all add: host_name_bytes plain_text_def\<close>)

theorem tight_host_use_after_free_witness:
  "get_http_metadata (\<lambda>_. True) zero_stack 3
     (Some (request_with_line get_method root_route http_1_1 [other_field] (host_name @ 58 # [97]) [13, 10])) 40
     (Some fresh_request) = Inl Use_After_Free"
  by (rule tight_host_use_after_free [OF sample_line_ok])
     (simp_all add: sample_fields_ok MAX_HTTP_HEADER_COUNT_def MAX_HTTP_HEADER_TOTAL_SIZE_def
        MAX_HTTP_HEADER_LINE_SIZE_def plain_text_def)

text \<open>
  A line of 8192 bytes or more without a carriage return is refused with false, and
  nothing of the request has been touched; the parser never reads past the 8192nd byte.
\<close>

theorem long_line_refused:
  assumes "length l = MAX_HTTP_HEADER_LINE_SIZE" and "13 \<notin> set l"
    and "0 < raw_size" and "raw_size \<le> MAX_HTTP_HEADER_TOTAL_SIZE"
  shows "get_http_metadata alloc stack n (Some (l @ rest)) raw_size (Some req) = Inr (False, Some req, n)"
proof -
  let ?st = "first_line req n"
  let ?full = "?st\<lparr>header_buffer := l, line_parsed := MAX_HTTP_HEADER_LINE_SIZE, raw_pos := MAX_HTTP_HEADER_LINE_SIZE\<rparr>"
  have "metadata_loop alloc stack (l @ rest) ?st = metadata_loop alloc stack (l @ rest) ?full"
    using line_run [of l "l @ rest" "[]" rest ?st "[]" MAX_HTTP_HEADER_LINE_SIZE] assms(1,2)
    by (simp add: first_line_def)
  also have "\<dots> = Inr (False, ?full)" by (subst metadata_loop.simps) simp
  finally show ?thesis by (simp add: get_http_metadata_loop [OF assms(3,4)] first_line_def)
qed

theorem long_line_refused_witness:
  "get_http_metadata (\<lambda>_. False) zero_stack 0 (Some (replicate 8192 97 @ [1, 2])) 8194 (Some zero_request)
   = Inr (False, Some zero_request, 0)"
  by (rule long_line_refused) (simp_all add: MAX_HTTP_HEADER_COUNT_def MAX_HTTP_HEADER_TOTAL_SIZE_def MAX_HTTP_HEADER_LINE_SIZE_def)

lemma process_http_request_served:
  assumes "request_line_ok stack fresh_request m r p" and "list_all field_ok hs" and "\<forall>i. alloc i"
    and "length hs \<le> MAX_HTTP_HEADER_COUNT" and "host_values hs \<noteq> []"
    and "0 < message_size" and "message_size \<le> MAX_HTTP_HEADER_TOTAL_SIZE"
  shows "process_http_request alloc stack n socket (Some (request_bytes m r p hs body)) message_size (Some response)
           = Inl Invalid_Free"
proof -
  obtain h hs' where hs: "hs = h # hs'" using assms(5) by (cases hs) (auto simp: host_values_def)
  let ?req = "parsed_request m r p hs fresh_request"
  have "http_route ?req \<noteq> Freed" by (simp add: parsed_request_def routed_request_def routed_def)
  moreover have "http_headers ?req = Live (Live (stored_header (fst h) (snd h)) # map field_header hs')"
    by (simp add: parsed_request_def hs field_header_def split_def)
  ultimately have "free_http_request (Live ?req) = Inl Invalid_Free"
    by (rule free_http_request_first_header)
  moreover have "allocate_http_request alloc n (Some Null) = (True, Some (Live fresh_request), n + 3)"
    using allocate_http_request_success [of alloc n Null] assms(3) by (simp add: fresh_request_def)
  ultimately show ?thesis
    using metadata_hosted [OF assms, where n = "n + 3" and body = body] assms(6)
    by (simp add: process_http_request_def route_http_request_def)
qed

end
