(* ===== verification/Http_Reference.thy ===== *)
theory Http_Reference
  imports Http_Properties
begin

text \<open>
  A reference parser of a header section, and its equivalence with the code. The reference
  reads a request as the list of its lines: \<open>split_words\<close> cuts the request line at its
  spaces, \<open>header_parts\<close> cuts a header line at its first colon, and
  \<open>section_reference\<close> folds the header lines. The code's character loops, caches and
  cursors compute the same on every section of lines without carriage return and NUL, for
  every allocator: refusals, faults and exhausted memory included.
\<close>

section \<open>The request line\<close>

text \<open>The words of a line: the pieces between its spaces, empty ones included.\<close>

fun split_words :: "byte list \<Rightarrow> byte list list" where
  "split_words [] = [[]]"
| "split_words (c # l) =
     (if c = 32 then [] # split_words l
      else (case split_words l of w # ws \<Rightarrow> (c # w) # ws | [] \<Rightarrow> [[c]]))"

definition join_words :: "byte list list \<Rightarrow> byte list" where
  "join_words ws = concat (map (\<lambda>w. w @ [32]) (butlast ws)) @ last ws"

lemma split_words_not_empty [simp]: "split_words l \<noteq> []"
  by (induction l) (auto split: list.split)

lemma join_words_simps [simp]:
  "join_words [w] = w" "join_words (w # w' # ws) = w @ 32 # join_words (w' # ws)"
  by (simp_all add: join_words_def)

lemma join_split_words: "join_words (split_words l) = l"
proof (induction l)
  case (Cons c l)
  obtain w ws where ws: "split_words l = w # ws" by (cases "split_words l") auto
  with Cons show ?case by (cases ws) auto
qed simp

lemma split_words_plain: "0 \<notin> set l \<Longrightarrow> w \<in> set (split_words l) \<Longrightarrow> plain_word w"
proof (induction l arbitrary: w)
  case (Cons c l)
  obtain v vs where vs: "split_words l = v # vs" by (cases "split_words l") auto
  then have "plain_word v" using Cons by simp
  with Cons vs show ?case by (auto simp: plain_word_def split: if_splits)
qed (simp add: plain_word_def)

text \<open>
  The search for the method in the bytes the partition holds. Without a NUL in it the
  comparison runs behind the partition if some name starts with all of it.
\<close>

definition method_names :: "byte list list" where
  "method_names = map (\<lambda>s. cstring (literal s)) [''GET'', ''POST'', ''PUT'', ''DELETE'']"

definition method_search :: "byte list \<Rightarrow> fault + http_request_method" where
  "method_search part =
     (if terminated part then (case known_method (cstring part) of Some m \<Rightarrow> Inr m | None \<Rightarrow> Inl Null_Deref)
      else if list_ex (prefix part) method_names then Inl Out_Of_Bounds
      else Inl Null_Deref)"

lemma c_streq_unterminated:
  "0 \<notin> set a \<Longrightarrow> 0 \<notin> set b \<Longrightarrow>
     c_streq a (b @ [0]) = (if prefix a b then Inl Out_Of_Bounds else Inr False)"
proof (induction a arbitrary: b)
  case (Cons x a)
  then show ?case by (cases b) auto
qed simp

lemma method_search_lookup:
  "entry_lookup part method_entries 5 = cbind (method_search part) (\<lambda>m. Inr (Some m))"
proof (cases "terminated part")
  case True
  then show ?thesis by (simp add: method_lookup method_search_def split: option.split)
next
  case False
  then have nul: "0 \<notin> set part" by (simp add: terminated_def)
  have five: "(5 :: nat) = Suc (Suc (Suc (Suc (Suc 0))))" by simp
  have streq: "c_streq part (literal s) = (if prefix part (cstring (literal s)) then Inl Out_Of_Bounds else Inr False)"
    if "s \<in> {''GET'', ''POST'', ''PUT'', ''DELETE''}" for s
    using that c_streq_unterminated [OF nul, of "map of_char s"] by (auto simp: literal_def)
  show ?thesis
    unfolding method_entries_def five using False
    by (auto simp: streq method_search_def method_names_def)
qed

definition store_route :: "byte list \<Rightarrow> http_request \<Rightarrow> http_request" where
  "store_route r req =
     req\<lparr>http_route := Live (r @ 0 # drop (Suc (length r)) (case http_route req of Live b \<Rightarrow> b | _ \<Rightarrow> [])),
         http_route_size := length r\<rparr>"

text \<open>The words behind the method, then the whole line.\<close>

definition protocol_reference :: "byte list list \<Rightarrow> http_request \<Rightarrow> bool \<times> http_request" where
  "protocol_reference ws req =
     (case ws of
        [] \<Rightarrow> (False, req)
      | p # _ \<Rightarrow> (case known_protocol (http_protocol req) p of
            None \<Rightarrow> (False, req)
          | Some prot \<Rightarrow> (True, req\<lparr>http_protocol := prot\<rparr>)))"

definition route_reference :: "byte list list \<Rightarrow> http_request \<Rightarrow> bool \<times> http_request" where
  "route_reference ws req =
     (case ws of
        [] \<Rightarrow> (False, req)
      | r # ws' \<Rightarrow>
          if r = [] then (False, req)
          else if hd r \<noteq> 47 then (False, req\<lparr>http_route := Null\<rparr>)
          else protocol_reference ws' (store_route r req))"

definition request_line_reference ::
  "stack_bytes \<Rightarrow> byte list \<Rightarrow> http_request \<Rightarrow> fault + (bool \<times> http_request)" where
  "request_line_reference stack l req =
     (case split_words l of
        [] \<Rightarrow> Inr (False, req)
      | m # ws \<Rightarrow>
          if length m < 3 then Inr (False, req)
          else cbind (method_search (m @ drop (length m) (vla stack Line_Partition (length l))))
            (\<lambda>meth. Inr (route_reference ws (req\<lparr>http_method := meth\<rparr>))))"

text \<open>The loop at the start of a word, behind \<open>pre\<close>.\<close>

definition word_start :: "nat \<Rightarrow> nat \<Rightarrow> nat \<Rightarrow> nat \<Rightarrow> nat \<Rightarrow> line_state" where
  "word_start line_size pos w m r =
     \<lparr>line_partition = replicate line_size 0, num_parsed = pos, word_increment = w,
      method_size = m, route_size = r, protocol_size = 0\<rparr>"

lemma line_over: "line_size < num_parsed st \<Longrightarrow> request_line_loop line line_size st req = Inr (False, req)"
  by (simp add: request_line_loop.simps [of line line_size st])

lemma join_words_front:
  "\<exists>d rest. join_words (w # ws) @ [0] = w @ d # rest \<and> (d = 32 \<or> d = 0)"
  by (cases ws) auto

lemma protocol_tail:
  assumes "list_all plain_word ws" and "ws \<noteq> []" and "line = pre @ join_words ws @ [0]"
    and "line_size = length (pre @ join_words ws)" and "pre \<noteq> []" and "line_size \<le> MAX_HTTP_HEADER_LINE_SIZE"
  shows "request_line_loop line line_size (word_start line_size (length pre) 2 m r) req =
           Inr (protocol_reference ws req)"
proof -
  obtain p ws' where ws: "ws = p # ws'" using assms(2) by (cases ws) auto
  obtain d rest where front: "join_words (p # ws') @ [0] = p @ d # rest" "d = 32 \<or> d = 0"
    using join_words_front by blast
  have line: "line = pre @ p @ d # rest" using assms(3) front(1) by (simp add: ws)
  have size: "length pre + length p \<le> line_size"
    using arg_cong [OF front(1), of length] assms(4) by (simp add: ws)
  show ?thesis
  proof (cases "p = []")
    case True
    have "known_protocol (http_protocol req) [] = None" by (simp add: known_protocol_def literal_strings)
    then show ?thesis
      using True size assms(6) loop_delimiter [of line pre d rest "word_start line_size (length pre) 2 m r" line_size req]
        line front(2) by (simp add: word_start_def end_of_word_def protocol_reference_def ws)
  next
    case False
    show ?thesis
      unfolding word_start_def
      by (subst protocol_word [OF _ False line front(2) size assms(5,6)])
         (use assms(1) in \<open>simp_all add: ws protocol_reference_def split: option.split\<close>)
  qed
qed

lemma route_word_end:
  assumes "plain_word r" and "length r < line_size" and "http_route req = Live block" and "length r < length block"
    and "line_partition st = overwrite (replicate line_size 0) 0 r" and "word_increment st = 1"
    and "route_size st = length r"
  shows "end_of_word st req =
      (if r = [] then Inr (Some False, req)
       else if hd r \<noteq> 47 then Inr (Some False, req\<lparr>http_route := Null\<rparr>)
       else Inr (None, store_route r req))"
proof -
  have z: "line_partition st = r @ 0 # replicate (line_size - length r - 1) 0"
    unfolding assms(5) by (rule overwrite_zeros [OF assms(2)])
  have len: "c_strlen (line_partition st) = Inr (length r)"
    using plain_word_no_nul [OF assms(1)] by (simp add: z c_strlen_terminated)
  have load: "c_load (line_partition st) (Suc (length r)) = Inr (r @ [0])"
    by (simp add: z c_load_def)
  have first: "rd (line_partition st) 0 = Inr (hd r)" if "r \<noteq> []"
    unfolding z using that by (cases r) (simp_all add: rd_def)
  show ?thesis
    using assms(3,4,6,7) by (auto simp: end_of_word_def first len load c_store_def store_route_def Suc_le_eq)
qed

lemma route_read:
  assumes "list_all plain_word ws" and "line = pre @ r @ d # rest"
    and "line_size = length (pre @ join_words (r # ws))" and "line_size \<le> MAX_HTTP_HEADER_LINE_SIZE"
    and "join_words (r # ws) @ [0] = r @ d # rest" and "d = 32 \<or> d = 0"
  shows "request_line_loop line line_size (word_start line_size (length (pre @ r @ [d])) 2 m (length r)) req =
           Inr (protocol_reference ws req)"
proof (cases ws)
  case Nil
  then show ?thesis using assms(3) by (subst line_over) (simp_all add: word_start_def protocol_reference_def)
next
  case (Cons p ws')
  then have "d = 32" "rest = join_words ws @ [0]" using assms(5) by simp_all
  then show ?thesis
    using Cons assms(1-4) by (intro protocol_tail) auto
qed

lemma route_tail:
  assumes "list_all plain_word ws" and "ws \<noteq> []" and "line = pre @ join_words ws @ [0]"
    and "line_size = length (pre @ join_words ws)" and "pre \<noteq> []" and "line_size \<le> MAX_HTTP_HEADER_LINE_SIZE"
    and "has_route_block req"
  shows "request_line_loop line line_size (word_start line_size (length pre) 1 m 0) req =
           Inr (route_reference ws req)"
proof -
  obtain r ws' where ws: "ws = r # ws'" using assms(2) by (cases ws) auto
  obtain d rest where front: "join_words (r # ws') @ [0] = r @ d # rest" "d = 32 \<or> d = 0"
    using join_words_front by blast
  have line: "line = pre @ r @ d # rest" using assms(3) front(1) by (simp add: ws)
  have size: "length pre + length r \<le> line_size"
    using arg_cong [OF front(1), of length] assms(4) by (simp add: ws)
  with assms(5) have room: "length r < line_size" by (cases pre) auto
  have plain: "plain_word r" using assms(1) by (simp add: ws)
  obtain block where block: "http_route req = Live block" "length r < length block"
    using assms(6,7) room by (auto simp: has_route_block_def)
  let ?init = "word_start line_size (length pre) 1 m 0"
  let ?st = "?init\<lparr>line_partition := overwrite (replicate line_size 0) 0 r,
               num_parsed := length (pre @ r), route_size := length r\<rparr>"
  have "store_word r ?init = Inr ?st"
    using room store_word_route [of ?init r] by (simp add: word_start_def)
  then have run: "request_line_loop line line_size ?init req = request_line_loop line line_size ?st req"
    using loop_word [OF plain line, of ?init line_size req] size assms(6) by (simp add: word_start_def)
  have word: "end_of_word ?st req =
      (if r = [] then Inr (Some False, req)
       else if hd r \<noteq> 47 then Inr (Some False, req\<lparr>http_route := Null\<rparr>)
       else Inr (None, store_route r req))"
    by (rule route_word_end [OF plain room block]) (simp_all add: word_start_def)
  show ?thesis
  proof (cases "r = [] \<or> hd r \<noteq> 47")
    case True
    then show ?thesis
      unfolding run using word size assms(6) front(2) line
      by (subst loop_delimiter [of line "pre @ r" d rest]) (auto simp: route_reference_def ws)
  next
    case False
    have "request_line_loop line line_size ?st req =
        request_line_loop line line_size (word_start line_size (length (pre @ r @ [d])) 2 m (length r)) (store_route r req)"
      using word False size assms(6) front(2) line
      by (subst loop_delimiter [of line "pre @ r" d rest]) (auto simp: word_start_def numeral_2_eq_2)
    also have "\<dots> = Inr (protocol_reference ws' (store_route r req))"
      using assms(1,4,6) by (intro route_read [OF _ line _ _ front]) (simp_all add: ws)
    finally show ?thesis unfolding run using False by (simp add: route_reference_def ws)
  qed
qed

lemma request_line_equivalent:
  assumes "0 \<notin> set l" and "length l \<le> MAX_HTTP_HEADER_LINE_SIZE" and "has_route_block req"
  shows "validate_http_metadata stack (Some (l @ [0])) (length l) req = request_line_reference stack l req"
proof -
  obtain m ws where mws: "split_words l = m # ws" by (cases "split_words l") auto
  have plain: "list_all plain_word (m # ws)"
    using split_words_plain [OF assms(1)] by (auto simp: mws list_all_iff)
  have l: "l = join_words (m # ws)" using join_split_words [of l] by (simp add: mws)
  obtain d rest where front: "l @ [0] = m @ d # rest" "d = 32 \<or> d = 0"
    using join_words_front [of m ws] l by auto
  have size: "length m \<le> length l" using arg_cong [OF front(1), of length] by simp
  let ?v = "vla stack Line_Partition (length l)"
  let ?st = "(first_word ?v)\<lparr>line_partition := overwrite ?v 0 m, num_parsed := length m, method_size := length m\<rparr>"
  have "store_word m (first_word ?v) = Inr ?st"
    using size store_word_method [of "first_word ?v" m] by (simp add: first_word_def vla_def)
  then have run: "validate_http_metadata stack (Some (l @ [0])) (length l) req =
      request_line_loop (l @ [0]) (length l) ?st req"
    using plain size assms(2) loop_word [of m "l @ [0]" "[]" "d # rest" "first_word ?v" "length l" req] front(1)
    by (simp add: validate_http_metadata_def first_word_def)
  have word: "end_of_word ?st req = (if length m < 3 then Inr (Some False, req)
      else cbind (method_search (m @ drop (length m) ?v)) (\<lambda>x. Inr (None, req\<lparr>http_method := x\<rparr>)))"
    by (cases "method_search (m @ drop (length m) ?v)")
       (simp_all add: end_of_word_def first_word_def method_search_lookup overwrite_def)
  have rest: "request_line_loop (l @ [0]) (length l)
      (?st\<lparr>word_increment := Suc (word_increment ?st), num_parsed := Suc (length m), line_partition := replicate (length l) 0\<rparr>) req'
      = Inr (route_reference ws req')" if "has_route_block req'" for req'
  proof (cases ws)
    case Nil
    then show ?thesis by (subst line_over) (simp_all add: l route_reference_def)
  next
    case (Cons r ws')
    then have "l = (m @ [32]) @ join_words ws" using l by simp
    then show ?thesis
      using route_tail [of ws "l @ [0]" "m @ [32]" "length l" req' "length m"] plain Cons assms(2) that
      by (simp add: word_start_def first_word_def)
  qed
  show ?thesis
    unfolding run using front size assms(2)
    by (subst loop_delimiter [of "l @ [0]" m d rest])
       (use assms(3) rest in \<open>auto simp: word request_line_reference_def mws has_route_block_def cbind_def split: sum.split\<close>)
qed

section \<open>Header lines\<close>

text \<open>The key, and the value if a space follows the colon; \<open>None\<close> without a colon.\<close>

definition header_parts :: "byte list \<Rightarrow> (byte list \<times> byte list option) option" where
  "header_parts l =
     (case dropWhile (\<lambda>c. c \<noteq> 58) l of
        [] \<Rightarrow> None
      | _ # rest \<Rightarrow> Some (takeWhile (\<lambda>c. c \<noteq> 58) l,
          (case rest of [] \<Rightarrow> None | d # v \<Rightarrow> if d = 32 then Some v else None)))"

text \<open>
  What the validation of one line returns: its result, whether the key is Host, the header
  object and the number of allocations.
\<close>

definition header_line_reference ::
  "allocator \<Rightarrow> nat \<Rightarrow> byte list \<Rightarrow> http_request_header
     \<Rightarrow> fault + (bool \<times> bool \<times> header_ptr option \<times> nat)" where
  "header_line_reference alloc n l h =
     (case header_parts l of
        None \<Rightarrow> Inl Out_Of_Bounds
      | Some (k, None) \<Rightarrow> Inr (False, k = host_name, Some (Live h), n)
      | Some (k, Some v) \<Rightarrow>
          if alloc n \<and> alloc (Suc n) then Inr (True, k = host_name, Some (Live (stored_header k v)), n + 2)
          else Inr (False, k = host_name, Some (Live (cleaned_header (alloc n) (alloc (Suc n)))), n + 2))"

lemma header_parts_cases:
  assumes "plain_text l"
  obtains (bare) "header_parts l = None" and "plain_name l"
  | (tight) k d rest where "header_parts l = Some (k, None)" and "plain_name k"
      and "l @ [0] = k @ 58 # d # rest" and "d \<noteq> 32" and "length k < length l"
  | (full) k v where "header_parts l = Some (k, Some v)" and "plain_name k" and "plain_text v"
      and "l = header_line_of k v"
proof -
  define k where "k = takeWhile (\<lambda>c. c \<noteq> 58) l"
  define t where "t = dropWhile (\<lambda>c. c \<noteq> 58) l"
  have l: "l = k @ t" by (simp add: k_def t_def)
  have k: "plain_name k"
    using assms set_takeWhileD [of _ "\<lambda>c. c \<noteq> 58" l]
    by (auto simp: k_def plain_name_def plain_text_def list_all_iff)
  have parts: "header_parts l = (case t of [] \<Rightarrow> None | _ # rest \<Rightarrow> Some (k,
      (case rest of [] \<Rightarrow> None | d # v \<Rightarrow> if d = 32 then Some v else None)))"
    by (simp only: header_parts_def k_def t_def)
  show thesis
  proof (cases t)
    case Nil
    then show thesis using bare k l parts by simp
  next
    case (Cons c u)
    then have c: "c = 58" using hd_dropWhile [of "\<lambda>c. c \<noteq> 58" l] by (simp add: t_def)
    show thesis
    proof (cases "\<exists>v. u = 32 # v")
      case True
      then obtain v where "u = 32 # v" by blast
      with Cons c k l parts assms show thesis
        by (intro full [of k v]) (auto simp: header_line_of_def plain_text_def)
    next
      case False
      then obtain d rest where "u @ [0] = d # rest" "d \<noteq> 32" by (cases u) auto
      with False Cons c k l parts show thesis
        by (intro tight [of k d rest]) (auto split: list.split)
    qed
  qed
qed

lemma header_line_equivalent:
  assumes "plain_text l"
  shows "validate_http_header alloc n (Some (l @ [0])) (length l) host (Some (Live h)) =
           header_line_reference alloc n l h"
  using assms
proof (cases rule: header_parts_cases)
  case bare
  then show ?thesis by (simp add: header_line_bare header_line_reference_def)
next
  case (tight k d rest)
  then show ?thesis
    using header_line_tight [OF tight(2,4,5), of alloc n rest host h] by (simp add: header_line_reference_def)
next
  case (full k v)
  then show ?thesis
    using header_line_run [OF full(2,3), of "length l" alloc n host h]
    by (simp add: header_line_reference_def header_line_of_def)
qed

section \<open>The header section\<close>

type_synonym section_state = "header_ptr list \<times> http_request \<times> nat"

definition push_header :: "header_ptr \<Rightarrow> section_state \<Rightarrow> fault + section_state" where
  "push_header p = (\<lambda>(hs, req, n).
     if length hs < MAX_HTTP_HEADER_COUNT then Inr (hs @ [p], req, n) else Inl Out_Of_Bounds)"

text \<open>
  One header line: the object is allocation \<open>n\<close>, its two copies are the next two, the copy
  of the host the fourth. A refused line leaves a dangling pointer in the array, a missing
  object a null pointer; a refused line whose key is Host is read after it has been freed.
\<close>

definition store_reference :: "allocator \<Rightarrow> byte list \<Rightarrow> section_state \<Rightarrow> fault + section_state" where
  "store_reference alloc l = (\<lambda>(hs, req, n).
     if \<not> alloc n then push_header Null (hs, req, Suc n)
     else (case header_parts l of
         None \<Rightarrow> Inl Out_Of_Bounds
       | Some (k, None) \<Rightarrow>
           if k = host_name then Inl Use_After_Free else push_header Freed (hs, req, Suc n)
       | Some (k, Some v) \<Rightarrow>
           if alloc (n + 1) \<and> alloc (n + 2) then
             (if k = host_name then
                push_header (Live (stored_header k v))
                  (hs, req\<lparr>http_host := (if alloc (n + 3) then Live (v @ [0]) else Null)\<rparr>, n + 4)
              else push_header (Live (stored_header k v)) (hs, req, n + 3))
           else if k = host_name then Inl Use_After_Free
           else push_header Freed (hs, req, n + 3)))"

lemma store_header_equivalent:
  assumes "plain_text l"
  shows "store_header alloc (l @ [0]) (line_end l pos inc hs req n) =
           cbind (store_reference alloc l (hs, req, n)) (\<lambda>(hs', req', n'). Inr (line_end l pos inc hs' req' n'))"
proof (cases "alloc n")
  case False
  then show ?thesis
    by (simp add: store_header_def store_reference_def validate_http_header_def push_header_def Let_def)
       (simp add: line_end_def)
next
  case True
  have "validate_http_header alloc (Suc n) (Some (l @ [0])) (length l) False (Some (Live zero_header)) =
      header_line_reference alloc (Suc n) l zero_header"
    by (rule header_line_equivalent [OF assms])
  moreover have "c_strndup (v @ [0]) (Suc (length v)) = Inr (v @ [0])" if "header_parts l = Some (k, Some v)" for k v
  proof -
    have "plain_text v" using assms that by (cases rule: header_parts_cases) auto
    then show ?thesis by (intro c_strndup_short) (simp_all add: plain_text_no_nul)
  qed
  ultimately show ?thesis
    using True
    by (auto simp: store_header_def store_reference_def header_line_reference_def push_header_def Let_def
          strndup_block_def stored_header_def numeral_3_eq_3 split: option.splits prod.splits)
       (simp_all add: line_end_def)
qed

fun fold_lines :: "allocator \<Rightarrow> byte list list \<Rightarrow> section_state \<Rightarrow> fault + section_state" where
  "fold_lines alloc [] st = Inr st"
| "fold_lines alloc (l # ls) st = cbind (store_reference alloc l st) (fold_lines alloc ls)"

definition section_lines :: "byte list list \<Rightarrow> byte list" where
  "section_lines ls = concat (map (\<lambda>l. l @ [13, 10]) ls)"

definition header_text :: "byte list \<Rightarrow> bool" where
  "header_text l \<longleftrightarrow> plain_text l \<and> l \<noteq> [] \<and> length l < MAX_HTTP_HEADER_LINE_SIZE"

lemma section_lines_simps [simp]:
  "section_lines [] = []" "section_lines (l # ls) = l @ 13 # 10 # section_lines ls"
  by (simp_all add: section_lines_def)

lemma section_lines_front:
  assumes "list_all header_text ls"
  shows "\<exists>e f tail. section_lines ls @ 13 # 10 # body = e # f # tail \<and> (e = 13 \<and> f = 10 \<longleftrightarrow> ls = [])"
proof (cases ls)
  case (Cons l ls')
  then obtain c l' where "l = c # l'" "c \<noteq> 13" using assms by (cases l) (auto simp: header_text_def plain_text_def)
  with Cons show ?thesis by (cases l') auto
qed simp

lemma line_end_next:
  "(line_end l pos inc hs req n)\<lparr>header_buffer := replicate MAX_HTTP_HEADER_LINE_SIZE 0, line_parsed := 0,
     line_increment := inc', raw_pos := pos'\<rparr> = line_start pos' inc' hs req n"
  by (simp add: line_start_def line_end_def)

lemma lines_run:
  assumes "list_all header_text ls" and "ls \<noteq> []" and "0 < inc"
    and "raw = pre @ section_lines ls @ 13 # 10 # body"
  shows "\<exists>l pos inc'. metadata_loop alloc stack raw (line_start (length pre) inc hs req n) =
           cbind (fold_lines alloc ls (hs, req, n)) (\<lambda>(hs', req', n'). Inr (True, line_end l pos inc' hs' req' n'))"
  using assms
proof (induction ls arbitrary: pre inc hs req n)
  case (Cons l ls)
  have "header_text l" and ls: "list_all header_text ls" using Cons.prems(1) by simp_all
  then have l: "plain_text l" "length l < MAX_HTTP_HEADER_LINE_SIZE" by (simp_all add: header_text_def)
  obtain e f tail where front: "section_lines ls @ 13 # 10 # body = e # f # tail" "e = 13 \<and> f = 10 \<longleftrightarrow> ls = []"
    using section_lines_front [OF ls] by blast
  have raw: "raw = pre @ l @ 13 # 10 # e # f # tail" using Cons.prems(4) front(1) by simp
  have step: "metadata_loop alloc stack raw (line_start (length pre) inc hs req n) =
      cbind (store_reference alloc l (hs, req, n)) (\<lambda>(hs', req', n').
        if ls = [] then Inr (True, line_end l (length pre) inc hs' req' n')
        else metadata_loop alloc stack raw (line_start (length (pre @ l @ [13, 10])) (Suc inc) hs' req' n'))"
    unfolding metadata_line [OF l raw] parse_line_def using Cons.prems(3)
    by (cases "store_reference alloc l (hs, req, n)")
       (auto simp: store_header_equivalent [OF l(1)] front(2) line_end_next split: prod.split)
  show ?case
  proof (cases "store_reference alloc l (hs, req, n)")
    case (Inr t)
    obtain hs' req' n' where t: "t = (hs', req', n')" by (cases t)
    show ?thesis
    proof (cases "ls = []")
      case False
      have "raw = (pre @ l @ [13, 10]) @ section_lines ls @ 13 # 10 # body" using Cons.prems(4) by simp
      from Cons.IH [OF ls False _ this, of "Suc inc" hs' req' n'] show ?thesis
        by (simp add: step Inr t False)
    qed (auto simp: step Inr t)
  qed (simp add: step)
qed simp

text \<open>A whole request: the request line, the header lines, the host check and the copy.\<close>

definition request_reference ::
  "allocator \<Rightarrow> stack_bytes \<Rightarrow> nat \<Rightarrow> byte list \<Rightarrow> byte list list \<Rightarrow> http_request
     \<Rightarrow> fault + (bool \<times> http_request option \<times> nat)" where
  "request_reference alloc stack n l ls req =
     cbind (request_line_reference stack l req)
       (\<lambda>(ok, req1).
          if \<not> ok then Inr (False, Some req1, n)
          else cbind (fold_lines alloc ls ([], req1, n))
            (\<lambda>(hs, req2, m).
               if http_host req2 = Null then Inr (False, Some req2, m)
               else if \<not> alloc m \<and> hs \<noteq> [] then Inl Null_Deref
               else Inr (True, Some (req2\<lparr>num_headers := length hs, http_headers_size := 8 * length hs,
                                          http_headers := (if alloc m then Live hs else Null)\<rparr>), Suc m)))"

lemma is_null_iff: "is_null p \<longleftrightarrow> p = Null"
  by (cases p) simp_all

lemma publish_line_end:
  "cbind (publish_headers alloc (line_end l pos inc hs req m)) (\<lambda>(ok', req', n'). Inr (ok', Some req', n')) =
     (if http_host req = Null then Inr (False, Some req, m)
      else if \<not> alloc m \<and> hs \<noteq> [] then Inl Null_Deref
      else Inr (True, Some (req\<lparr>num_headers := length hs, http_headers_size := 8 * length hs,
                                 http_headers := (if alloc m then Live hs else Null)\<rparr>), Suc m))"
  by (simp add: publish_headers_def Let_def is_null_iff mult.commute)

text \<open>The first line of a section: what the request line yields and where the loop goes on.\<close>

lemma first_line_step:
  assumes "plain_text l" and "length l < MAX_HTTP_HEADER_LINE_SIZE" and "list_all header_text ls"
    and "has_route_block req" and raw: "raw = section_lines (l # ls) @ 13 # 10 # body"
  shows "metadata_loop alloc stack raw (first_line req n) =
      cbind (request_line_reference stack l req) (\<lambda>(ok, req1).
        if \<not> ok then Inr (False, line_end l 0 0 [] req1 n)
        else if ls = [] then Inr (True, line_end l 0 0 [] req1 n)
        else metadata_loop alloc stack raw (line_start (length (l @ [13, 10])) 1 [] req1 n))"
proof -
  obtain e f tail where front: "section_lines ls @ 13 # 10 # body = e # f # tail" "e = 13 \<and> f = 10 \<longleftrightarrow> ls = []"
    using section_lines_front [OF assms(3)] by blast
  have raw': "raw = [] @ l @ 13 # 10 # e # f # tail" using front(1) raw by simp
  have start: "first_line req n = line_start 0 0 [] req n" by (simp add: first_line_def line_start_def)
  have line: "validate_http_metadata stack (Some (l @ [0])) (length l) req = request_line_reference stack l req"
    by (rule request_line_equivalent) (use assms(1,2,4) plain_text_no_nul in auto)
  show ?thesis
    using metadata_line [OF assms(1,2) raw', of alloc stack 0 "[]" req n] line front(2)
    by (cases "request_line_reference stack l req")
       (auto simp: start parse_line_def line_end_next split: prod.split)
qed

lemma request_equivalent:
  assumes "plain_text l" and "length l < MAX_HTTP_HEADER_LINE_SIZE" and "list_all header_text ls"
    and "has_route_block req" and "0 < raw_size" and "raw_size \<le> MAX_HTTP_HEADER_TOTAL_SIZE"
  shows "get_http_metadata alloc stack n (Some (section_lines (l # ls) @ 13 # 10 # body)) raw_size (Some req) =
           request_reference alloc stack n l ls req"
proof -
  let ?raw = "section_lines (l # ls) @ 13 # 10 # body"
  note step = first_line_step [OF assms(1-4) refl, where body = body and alloc = alloc and stack = stack and n = n]
  show ?thesis
  proof (cases "request_line_reference stack l req")
    case (Inr t)
    obtain ok req1 where t: "t = (ok, req1)" by (cases t)
    show ?thesis
    proof (cases "\<not> ok \<or> ls = []")
      case True
      then show ?thesis
        unfolding get_http_metadata_loop [OF assms(5,6)] step
        by (auto simp: Inr t request_reference_def publish_line_end)
    next
      case False
      have "?raw = (l @ [13, 10]) @ section_lines ls @ 13 # 10 # body" by simp
      from lines_run [OF assms(3) _ _ this, of 1 alloc stack "[]" req1 n] False
      obtain l' pos inc' where run: "metadata_loop alloc stack ?raw (line_start (length (l @ [13, 10])) 1 [] req1 n) =
          cbind (fold_lines alloc ls ([], req1, n)) (\<lambda>(hs', req', n'). Inr (True, line_end l' pos inc' hs' req' n'))"
        by auto
      have "metadata_loop alloc stack ?raw (first_line req n) =
          metadata_loop alloc stack ?raw (line_start (length (l @ [13, 10])) 1 [] req1 n)"
        unfolding step Inr t using False by simp
      with run have run': "metadata_loop alloc stack ?raw (first_line req n) = cbind (fold_lines alloc ls ([], req1, n))
          (\<lambda>(hs', req', n'). Inr (True, line_end l' pos inc' hs' req' n'))" by (rule trans [rotated])
      show ?thesis
        unfolding get_http_metadata_loop [OF assms(5,6)] run' using False
        by (cases "fold_lines alloc ls ([], req1, n)")
           (auto simp: Inr t request_reference_def publish_line_end)
    qed
  qed (simp only: get_http_metadata_loop [OF assms(5,6)] step request_reference_def cbind_Inl)
qed

section \<open>Sections the parser can read\<close>

definition readable_line :: "byte list \<Rightarrow> bool" where
  "readable_line l =
     (case header_parts l of None \<Rightarrow> False | Some (k, None) \<Rightarrow> k \<noteq> host_name | Some (k, Some v) \<Rightarrow> True)"

definition run_ok :: "fault + 'a \<Rightarrow> bool" where
  "run_ok r \<longleftrightarrow> (case r of Inl _ \<Rightarrow> False | Inr _ \<Rightarrow> True)"

lemma run_ok_simps [simp]: "\<not> run_ok (Inl e)" "run_ok (Inr x)"
  by (simp_all add: run_ok_def)

lemma store_reference_ok:
  assumes "\<forall>i. alloc i"
  shows "if readable_line l \<and> length hs < MAX_HTTP_HEADER_COUNT
         then \<exists>p req' n'. store_reference alloc l (hs, req, n) = Inr (hs @ [p], req', n')
         else \<not> run_ok (store_reference alloc l (hs, req, n))"
  using assms
  by (auto simp: store_reference_def push_header_def readable_line_def split: option.splits)

lemma fold_lines_ok:
  assumes "\<forall>i. alloc i" and "length hs \<le> MAX_HTTP_HEADER_COUNT"
  shows "run_ok (fold_lines alloc ls (hs, req, n)) \<longleftrightarrow>
           list_all readable_line ls \<and> length hs + length ls \<le> MAX_HTTP_HEADER_COUNT"
  using assms(2)
proof (induction ls arbitrary: hs req n)
  case (Cons l ls)
  note line = store_reference_ok [OF assms(1), of l hs req n]
  show ?case
  proof (cases "readable_line l \<and> length hs < MAX_HTTP_HEADER_COUNT")
    case True
    with line obtain p req' n' where "store_reference alloc l (hs, req, n) = Inr (hs @ [p], req', n')" by auto
    with True Cons.IH [of "hs @ [p]" req' n'] show ?thesis by auto
  next
    case False
    with line have "\<not> run_ok (store_reference alloc l (hs, req, n))" by auto
    then have "\<not> run_ok (fold_lines alloc (l # ls) (hs, req, n))"
      by (cases "store_reference alloc l (hs, req, n)") simp_all
    with False show ?thesis using Cons.prems by auto
  qed
qed simp

lemma request_reference_ok:
  assumes "\<forall>i. alloc i"
  shows "run_ok (request_reference alloc stack n l ls req) \<longleftrightarrow>
           (case request_line_reference stack l req of
              Inl _ \<Rightarrow> False
            | Inr (ok, _) \<Rightarrow> ok \<longrightarrow> list_all readable_line ls \<and> length ls \<le> MAX_HTTP_HEADER_COUNT)"
proof (cases "request_line_reference stack l req")
  case (Inr t)
  obtain ok req1 where t: "t = (ok, req1)" by (cases t)
  have memory: "alloc = (\<lambda>_. True)" using assms by blast
  show ?thesis
    using fold_lines_ok [OF assms, of "[]" ls req1 n]
    by (cases "fold_lines alloc ls ([], req1, n)")
       (auto simp: request_reference_def Inr t memory split: prod.split)
qed (simp add: request_reference_def)

section \<open>Properties\<close>

text \<open>
  C1: The parser equals the reference that works on lines. For every request line and header
  lines without carriage return and NUL, shorter than 8192 bytes, any body, any stack contents
  and any pattern of failing allocations, the request parser returns exactly what the reference
  computes: the same refusals, the same request, the same faults.
\<close>

theorem request_by_lines:
  assumes "plain_text l" and "length l < MAX_HTTP_HEADER_LINE_SIZE" and "list_all header_text ls"
    and "has_route_block req" and "0 < raw_size" and "raw_size \<le> MAX_HTTP_HEADER_TOTAL_SIZE"
  shows "get_http_metadata alloc stack n (Some (section_lines (l # ls) @ 13 # 10 # body)) raw_size (Some req) =
           request_reference alloc stack n l ls req"
  using assms by (rule request_equivalent)

text \<open>\<open>GET / HTTP/1.1\<close>.\<close>

definition sample_line :: "byte list" where
  "sample_line = [71, 69, 84, 32, 47, 32, 72, 84, 84, 80, 47, 49, 46, 49]"

text \<open>The header object, its key and its value are allocations 3, 4 and 5; the value fails.\<close>

theorem request_by_lines_witness:
  "get_http_metadata (\<lambda>i. i \<noteq> 5) zero_stack 3
     (Some (section_lines (sample_line # [field_line host_field]) @ 13 # 10 # [7])) 40 (Some fresh_request)
   = Inl Use_After_Free"
proof -
  have reference: "request_reference (\<lambda>i. i \<noteq> 5) zero_stack 3 sample_line [field_line host_field] fresh_request
      = Inl Use_After_Free"
    by (simp add: request_reference_def request_line_reference_def sample_line_def method_search_def
        vla_zero_stack known_method_def literal_strings route_reference_def protocol_reference_def
        known_protocol_def store_reference_def field_line_def host_field_def header_line_of_def
        header_parts_def host_name_bytes store_route_def)
  show ?thesis
    unfolding reference [symmetric]
    by (rule request_by_lines)
       (simp_all add: sample_line_def plain_text_def header_text_def field_line_def host_field_def
          header_line_of_def has_route_block_def fresh_request_def MAX_HTTP_HEADER_TOTAL_SIZE_def
          MAX_HTTP_HEADER_LINE_SIZE_def MAX_HTTP_HEADER_COUNT_def)
qed

text \<open>
  C19: The validation of the request line is the reference on its words. On every NUL-free line
  it refuses a method of fewer than three characters, runs into the NULL name of the method
  table (or behind the partition) unless the method and the stack bytes behind it spell a
  supported one, refuses a missing or empty route, resets the route when it does not start with
  a slash, and accepts exactly the supported protocols; words behind the protocol are ignored.
\<close>

theorem request_line_by_words:
  assumes "0 \<notin> set l" and "length l \<le> MAX_HTTP_HEADER_LINE_SIZE" and "has_route_block req"
  shows "validate_http_metadata stack (Some (l @ [0])) (length l) req = request_line_reference stack l req"
  using assms by (rule request_line_equivalent)

text \<open>The line \<open>GET x\<close>: the route block is lost.\<close>

theorem request_line_by_words_witness:
  "validate_http_metadata zero_stack (Some ([71, 69, 84, 32, 120] @ [0])) (length [71, 69, 84, 32, 120 :: byte])
     fresh_request
   = Inr (False, fresh_request\<lparr>http_method := TYPE_GET, http_route := Null\<rparr>)"
  by (subst request_line_by_words)
     (simp_all add: request_line_reference_def method_search_def vla_zero_stack known_method_def literal_strings
        route_reference_def has_route_block_def fresh_request_def MAX_HTTP_HEADER_LINE_SIZE_def)

text \<open>
  The validation of a header line is a split at the first colon. On every line without
  carriage return and NUL: without a colon the key cache overflows, without a space behind the
  colon the line is refused (and Host is still reported), else key and value are stored if both
  copies could be allocated.
\<close>

theorem header_line_split:
  assumes "plain_text l"
  shows "validate_http_header alloc n (Some (l @ [0])) (length l) host (Some (Live h)) =
           header_line_reference alloc n l h"
  using assms by (rule header_line_equivalent)

text \<open>The line \<open>a: b:c\<close> keeps the second colon in the value.\<close>

theorem header_line_split_witness:
  "validate_http_header (\<lambda>_. True) 0 (Some ([97, 58, 32, 98, 58, 99] @ [0]))
     (length [97, 58, 32, 98, 58, 99 :: byte]) True (Some (Live zero_header))
   = Inr (True, False, Some (Live (stored_header [97] [98, 58, 99])), 2)"
  by (subst header_line_split)
     (simp_all add: plain_text_def header_line_reference_def header_parts_def host_name_bytes)

text \<open>
  C11: Which requests of plain lines make the parser run into undefined behaviour when no
  allocation fails. Of the requests made of a request line and any number of non-empty header
  lines, without carriage return and NUL, each shorter than 8192 bytes, closed by a blank line,
  exactly these: those whose request line does, and those with an accepted request line and a
  header line without a colon, a Host line without the space after its colon, or more than 100
  header lines. All the others of this form are answered with true or false.
\<close>

theorem request_safe_exactly:
  assumes "plain_text l" and "length l < MAX_HTTP_HEADER_LINE_SIZE" and "list_all header_text ls"
    and "has_route_block req" and "0 < raw_size" and "raw_size \<le> MAX_HTTP_HEADER_TOTAL_SIZE"
    and "\<forall>i. alloc i"
  shows "run_ok (get_http_metadata alloc stack n (Some (section_lines (l # ls) @ 13 # 10 # body)) raw_size (Some req))
     \<longleftrightarrow> (case request_line_reference stack l req of
            Inl _ \<Rightarrow> False
          | Inr (ok, _) \<Rightarrow> ok \<longrightarrow> list_all readable_line ls \<and> length ls \<le> MAX_HTTP_HEADER_COUNT)"
  unfolding request_equivalent [OF assms(1-6)] by (rule request_reference_ok [OF assms(7)])

text \<open>A field \<open>X: y\<close> and a line \<open>a\<close> without a colon.\<close>

theorem request_safe_exactly_witness:
  "\<not> run_ok (get_http_metadata (\<lambda>_. True) zero_stack 3
     (Some (section_lines (sample_line # [field_line other_field, [97]]) @ 13 # 10 # [])) 40 (Some fresh_request))"
  by (subst request_safe_exactly)
     (simp_all add: sample_line_def plain_text_def header_text_def field_line_def other_field_def
        header_line_of_def has_route_block_def fresh_request_def MAX_HTTP_HEADER_TOTAL_SIZE_def
        MAX_HTTP_HEADER_LINE_SIZE_def MAX_HTTP_HEADER_COUNT_def request_line_reference_def method_search_def
        vla_zero_stack known_method_def literal_strings route_reference_def protocol_reference_def
        known_protocol_def readable_line_def header_parts_def host_name_bytes store_route_def)

end
