(* ===== verification/Http_Invariant.thy ===== *)
theory Http_Invariant
  imports Http_Reference
begin

text \<open>
  The type invariant of a parsed request. \<open>request_wf\<close> says what the rest of the server may
  rely on; it is proved for every input whatever, by an invariant of the character loop of the
  request line (\<open>line_inv\<close>) and one of the loop over the section (\<open>meta_inv\<close>).
\<close>

section \<open>Well-formed requests\<close>

definition supported_methods :: "http_request_method list" where
  "supported_methods = [TYPE_GET, TYPE_POST, TYPE_PUT, TYPE_DELETE]"

text \<open>The route: NUL-terminated, with its length beside it, starting with a slash.\<close>

definition route_wf :: "http_request \<Rightarrow> bool" where
  "route_wf req =
     (case http_route req of
        Live block \<Rightarrow> terminated block \<and> http_route_size req = length (cstring block) \<and>
                      0 < http_route_size req \<and> block ! 0 = 47
      | _ \<Rightarrow> False)"

definition line_wf :: "http_request \<Rightarrow> bool" where
  "line_wf req \<longleftrightarrow> http_method req \<in> set supported_methods \<and> route_wf req"

definition host_wf :: "http_request \<Rightarrow> bool" where
  "host_wf req = (case http_host req of Null \<Rightarrow> True | Live b \<Rightarrow> terminated b | Freed \<Rightarrow> False)"

text \<open>A stored key or value: a string of at most the size kept beside it.\<close>

definition block_wf :: "byte list ptr \<Rightarrow> nat \<Rightarrow> bool" where
  "block_wf p n = (case p of Live b \<Rightarrow> terminated b \<and> length b \<le> Suc n | _ \<Rightarrow> False)"

definition header_wf :: "header_ptr \<Rightarrow> bool" where
  "header_wf p =
     (case p of
        Live h \<Rightarrow> valid h \<and> block_wf (key h) (key_size h) \<and> block_wf (val h) (value_size h)
      | _ \<Rightarrow> True)"

definition request_wf :: "http_request \<Rightarrow> bool" where
  "request_wf req \<longleftrightarrow>
     line_wf req \<and> host_wf req \<and> http_host req \<noteq> Null \<and>
     num_headers req \<le> MAX_HTTP_HEADER_COUNT \<and> http_headers_size req = 8 * num_headers req \<and>
     (case http_headers req of
        Live hs \<Rightarrow> length hs = num_headers req \<and> list_all header_wf hs
      | Null \<Rightarrow> num_headers req = 0
      | Freed \<Rightarrow> False)"

section \<open>The request line\<close>

text \<open>The partition holds the characters of the route and zeros behind them.\<close>

definition route_part :: "line_state \<Rightarrow> bool" where
  "route_part st \<longleftrightarrow>
     (\<exists>w k. line_partition st = w @ replicate k 0 \<and> length w = route_size st \<and> 0 \<notin> set w)"

definition line_inv :: "line_state \<Rightarrow> http_request \<Rightarrow> bool" where
  "line_inv st req \<longleftrightarrow>
     (word_increment st < 1 \<longrightarrow> route_size st = 0) \<and>
     (1 \<le> word_increment st \<longrightarrow> http_method req \<in> set supported_methods) \<and>
     (word_increment st = 1 \<longrightarrow> route_part st) \<and>
     (2 \<le> word_increment st \<longrightarrow> route_wf req) \<and>
     word_increment st \<le> 2"

lemma method_found:
  "entry_lookup part method_entries 5 = Inr (Some m) \<Longrightarrow> m \<in> set supported_methods"
  by (auto simp: method_search_lookup cbind_eq_Inr method_search_def known_method_def supported_methods_def
      split: if_splits option.splits)

lemma route_part_string:
  assumes "route_part st" and "c_strlen (line_partition st) = Inr len"
    and "c_load (line_partition st) (Suc len) = Inr bs" and "c_store block 0 bs = Inr block'"
    and "rd (line_partition st) 0 = Inr 47" and "1 \<le> route_size st"
  shows "terminated block' \<and> route_size st = length (cstring block') \<and> block' ! 0 = 47"
proof -
  obtain w k where part: "line_partition st = w @ replicate k 0" "length w = route_size st" "0 \<notin> set w"
    using assms(1) by (auto simp: route_part_def)
  have "k \<noteq> 0"
  proof
    assume "k = 0"
    then have "c_strlen w = Inr len" using assms(2) part(1) by simp
    moreover have "0 \<notin> set v \<Longrightarrow> c_strlen v = Inl Out_Of_Bounds" for v by (induction v) auto
    ultimately show False using part(3) by simp
  qed
  then obtain j where k: "line_partition st = w @ 0 # replicate j 0" using part(1) by (cases k) auto
  then have len: "len = length w" using assms(2) part(3) by (simp add: c_strlen_terminated)
  have bs: "bs = w @ [0]" using assms(3) k len by (simp add: c_load_def)
  then have "block' = w @ 0 # drop (Suc (length w)) block"
    using assms(4) by (simp add: c_store_def split: if_splits)
  moreover have "w ! 0 = 47" "w \<noteq> []" using assms(5,6) k part(2) by (auto simp: rd_eq_Inr nth_append split: if_splits)
  ultimately show ?thesis using part(2,3) assms(6) by (simp add: nth_append)
qed

lemma end_of_word_inv:
  assumes "end_of_word st req = Inr (r, req')" and "line_inv st req"
  shows "case r of
           None \<Rightarrow> line_inv (st\<lparr>word_increment := Suc (word_increment st), num_parsed := p,
                              line_partition := replicate n 0\<rparr>) req'
         | Some b \<Rightarrow> b \<longrightarrow> line_wf req'"
proof -
  consider "word_increment st = 0" | "word_increment st = 1" | "word_increment st = 2"
    using assms(2) by (fastforce simp: line_inv_def)
  then show ?thesis
  proof cases
    case 1
    have found: "y \<in> set supported_methods" if "entry_lookup (line_partition st) method_entries 5 = Inr (Some y)" for y
      using that by (rule method_found)
    from 1 show ?thesis
      using assms by (auto simp: end_of_word_def line_inv_def route_part_def cbind_eq_Inr found
          intro: exI [of _ "[]"] split: if_splits option.splits)
  next
    case 2
    then show ?thesis
      using assms
      by (auto simp: end_of_word_def line_inv_def cbind_eq_Inr route_wf_def dest: route_part_string split: if_splits)
  next
    case 3
    then show ?thesis
      using assms
      by (auto simp: end_of_word_def line_inv_def line_wf_def route_wf_def cbind_eq_Inr Let_def
          split: if_splits option.splits ptr.splits)
  qed
qed

lemma store_char_inv:
  assumes "store_char c st = Inr st'" and "line_inv st req" and "c \<noteq> 0"
  shows "line_inv (st'\<lparr>num_parsed := p\<rparr>) req"
proof (cases "word_increment st = 1")
  case True
  then obtain w k where part: "line_partition st = w @ replicate k 0" "length w = route_size st" "0 \<notin> set w"
    using assms(2) by (auto simp: line_inv_def route_part_def)
  from True assms(1) have st': "route_size st < length (line_partition st)"
      "st' = st\<lparr>line_partition := (line_partition st)[route_size st := c], route_size := Suc (route_size st)\<rparr>"
    by (auto simp: store_char_def cbind_eq_Inr wr_eq_Inr)
  then obtain j where "k = Suc j" using part by (cases k) auto
  then have "(line_partition st)[route_size st := c] = (w @ [c]) @ replicate j 0"
    using part by (simp add: list_update_append)
  then have "route_part (st'\<lparr>num_parsed := p\<rparr>)"
    unfolding route_part_def st' using part assms(3) by (intro exI [of _ "w @ [c]"] exI [of _ j]) simp
  with True assms(2) st'(2) show ?thesis by (simp add: line_inv_def)
next
  case False
  then show ?thesis
    using assms(1,2) by (auto simp: store_char_def line_inv_def cbind_eq_Inr split: if_splits)
qed

text \<open>One turn of the loop that returned: past the end, the last word, a word with more behind it, or a
character of a word.\<close>

lemma request_line_loop_turn:
  assumes "request_line_loop line line_size st req = Inr (b, req')"
  obtains (over) "b = False" "req' = req"
  | (last_word) c where "\<not> (num_parsed st > line_size \<or> num_parsed st > MAX_HTTP_HEADER_LINE_SIZE)"
      "rd line (num_parsed st) = Inr c" "c = 32 \<or> c = 0" "end_of_word st req = Inr (Some b, req')"
  | (next_word) c req1 where "\<not> (num_parsed st > line_size \<or> num_parsed st > MAX_HTTP_HEADER_LINE_SIZE)"
      "rd line (num_parsed st) = Inr c" "c = 32 \<or> c = 0" "end_of_word st req = Inr (None, req1)"
      "request_line_loop line line_size
         (st\<lparr>word_increment := Suc (word_increment st), num_parsed := Suc (num_parsed st),
             line_partition := replicate line_size 0\<rparr>) req1 = Inr (b, req')"
  | (character) c st1 where "\<not> (num_parsed st > line_size \<or> num_parsed st > MAX_HTTP_HEADER_LINE_SIZE)"
      "rd line (num_parsed st) = Inr c" "\<not> (c = 32 \<or> c = 0)" "store_char c st = Inr st1"
      "request_line_loop line line_size (st1\<lparr>num_parsed := Suc (num_parsed st)\<rparr>) req = Inr (b, req')"
proof -
  note turn = assms [unfolded request_line_loop.simps [of line line_size st req]]
  consider "num_parsed st > line_size \<or> num_parsed st > MAX_HTTP_HEADER_LINE_SIZE"
    | c where "\<not> (num_parsed st > line_size \<or> num_parsed st > MAX_HTTP_HEADER_LINE_SIZE)" "rd line (num_parsed st) = Inr c"
    using turn by (auto simp: cbind_eq_Inr split: if_splits)
  then show thesis
  proof cases
    case 1
    with turn show thesis by (intro over) auto
  next
    case (2 c)
    show thesis
    proof (cases "c = 32 \<or> c = 0")
      case True
      with turn 2 obtain r req1 where "end_of_word st req = Inr (r, req1)" by (auto simp: cbind_eq_Inr)
      with turn 2 True show thesis by (cases r) (auto intro: last_word next_word)
    next
      case False
      with turn 2 show thesis by (auto simp: cbind_eq_Inr intro: character)
    qed
  qed
qed

text \<open>Rule for the loop: an invariant of its states, a property of what it returns.\<close>

lemma request_line_loop_rule:
  assumes "request_line_loop line line_size st req = Inr (b, req')" and "P st req"
    and "\<And>st req. P st req \<Longrightarrow> Q False req"
    and "\<And>st req b req1. P st req \<Longrightarrow> end_of_word st req = Inr (Some b, req1) \<Longrightarrow> Q b req1"
    and "\<And>st req req1. P st req \<Longrightarrow> end_of_word st req = Inr (None, req1) \<Longrightarrow>
          P (st\<lparr>word_increment := Suc (word_increment st), num_parsed := Suc (num_parsed st),
                line_partition := replicate line_size 0\<rparr>) req1"
    and "\<And>st req c st1. P st req \<Longrightarrow> c \<noteq> 0 \<Longrightarrow> store_char c st = Inr st1 \<Longrightarrow>
          P (st1\<lparr>num_parsed := Suc (num_parsed st)\<rparr>) req"
  shows "Q b req'"
  using assms
proof (induction line line_size st req arbitrary: b req' rule: request_line_loop.induct)
  case (1 line line_size st req)
  note over = "1.prems"(3) and word_end = "1.prems"(4) and word_next = "1.prems"(5) and char = "1.prems"(6)
  from "1.prems"(1) show ?case
  proof (cases rule: request_line_loop_turn)
    case over
    then show ?thesis using "1.prems"(2,3) by simp
  next
    case (last_word c)
    then show ?thesis using "1.prems"(2) word_end by simp
  next
    case (next_word c req1)
    then show ?thesis
      using "1.IH"(1) [OF next_word(1-4) refl refl next_word(5) word_next [OF "1.prems"(2) next_word(4)]]
        over word_end word_next char by blast
  next
    case (character c st1)
    moreover have "P (st1\<lparr>num_parsed := Suc (num_parsed st)\<rparr>) req"
      using character(3) by (intro char [OF "1.prems"(2) _ character(4)]) simp
    ultimately show ?thesis
      using "1.IH"(2) [OF character(1-4)] over word_end word_next char by blast
  qed
qed

lemma request_line_loop_wf:
  assumes "request_line_loop line line_size st req = Inr (b, req')" and "line_inv st req"
  shows "b \<longrightarrow> line_wf req'"
  using assms
proof (rule request_line_loop_rule)
  fix st req b req1
  assume "line_inv st req" and "end_of_word st req = Inr (Some b, req1)"
  then show "b \<longrightarrow> line_wf req1" using end_of_word_inv by fastforce
next
  fix st req req1
  assume "line_inv st req" and "end_of_word st req = Inr (None, req1)"
  then show "line_inv (st\<lparr>word_increment := Suc (word_increment st), num_parsed := Suc (num_parsed st),
               line_partition := replicate line_size 0\<rparr>) req1"
    using end_of_word_inv by fastforce
next
  fix st req c st1
  assume "line_inv st req" and "c \<noteq> 0" and "store_char c st = Inr st1"
  then show "line_inv (st1\<lparr>num_parsed := Suc (num_parsed st)\<rparr>) req" using store_char_inv by blast
qed simp

lemma validated_line_wf:
  assumes "validate_http_metadata stack line n req = Inr (True, req')"
  shows "line_wf req'"
proof -
  obtain l where "request_line_loop l n (first_word (vla stack Line_Partition n)) req = Inr (True, req')"
    using assms by (auto simp: validate_http_metadata_def split: option.splits)
  then have "True \<longrightarrow> line_wf req'" by (rule request_line_loop_wf) (simp add: line_inv_def first_word_def)
  then show ?thesis by simp
qed

text \<open>The request line leaves the host and the headers alone.\<close>

lemma end_of_word_frame:
  "end_of_word st req = Inr (r, req') \<Longrightarrow> http_host req' = http_host req \<and> http_headers req' = http_headers req"
  by (auto simp: end_of_word_def cbind_eq_Inr Let_def split: if_splits option.splits)

lemma request_line_loop_frame:
  assumes "request_line_loop line line_size st req = Inr (b, req')"
  shows "http_host req' = http_host req \<and> http_headers req' = http_headers req"
  using assms
  by (rule request_line_loop_rule [where P = "\<lambda>_ r. http_host r = http_host req \<and> http_headers r = http_headers req"])
     (auto dest: end_of_word_frame)

lemma validated_line_frame:
  "validate_http_metadata stack line n req = Inr (b, req') \<Longrightarrow> http_host req' = http_host req"
  by (auto simp: validate_http_metadata_def dest: request_line_loop_frame split: option.splits)

section \<open>The header lines\<close>

lemma strndup_wf: "c_strndup s n = Inr b \<Longrightarrow> terminated b \<and> length b \<le> Suc n"
  by (induction s n arbitrary: b rule: c_strndup.induct) (auto simp: cbind_eq_Inr split: if_splits)

lemma strndup_block_wf:
  "strndup_block a s n = Inr p \<Longrightarrow> p = Null \<or> block_wf p n"
  by (auto simp: strndup_block_def cbind_eq_Inr block_wf_def dest: strndup_wf split: if_splits)

lemma validated_header_wf:
  assumes "validate_http_header alloc n line m host (Some p) = Inr (ok, h, Some q, n')" and "ok"
  shows "header_wf q"
  using assms
  by (auto simp: validate_http_header_def cbind_eq_Inr Let_def header_wf_def is_null_iff
      dest!: strndup_block_wf split: option.splits if_splits)

definition meta_inv :: "meta_state \<Rightarrow> bool" where
  "meta_inv st \<longleftrightarrow>
     length (validated_headers st) \<le> MAX_HTTP_HEADER_COUNT \<and> list_all header_wf (validated_headers st) \<and>
     host_wf (meta_request st) \<and> (1 \<le> line_increment st \<longrightarrow> line_wf (meta_request st))"

text \<open>What storing a header line comes to, whatever the line.\<close>

lemma store_header_result:
  assumes "store_header alloc line st = Inr st'"
  obtains p :: header_ptr and host m where "header_wf p" and "length (validated_headers st) < MAX_HTTP_HEADER_COUNT"
    and "st' = st\<lparr>validated_headers := validated_headers st @ [p], meta_request := host, meta_allocs := m\<rparr>"
    and "host = meta_request st \<or>
         (\<exists>q k. host = (meta_request st)\<lparr>http_host := q\<rparr> \<and> (q = Null \<or> block_wf q k))"
proof -
  let ?raw = "if alloc (meta_allocs st) then Live zero_header else Null"
  obtain ok host result n' where valid: "validate_http_header alloc (Suc (meta_allocs st)) (Some line) (line_parsed st)
      False (Some ?raw) = Inr (ok, host, result, n')"
    using assms by (auto simp: store_header_def Let_def cbind_eq_Inr)
  define raw where "raw = (case result of None \<Rightarrow> Null | Some p \<Rightarrow> p)"
  define freed where "freed = (if \<not> ok \<and> \<not> is_null raw then cfree raw else Inr raw)"
  define hosted where "hosted = (\<lambda>p :: header_ptr. if host then cbind (deref p)
      (\<lambda>h. if valid h then cbind (deref (val h))
          (\<lambda>v. cbind (strndup_block (alloc n') v (value_size h))
            (\<lambda>host_block. Inr ((meta_request st)\<lparr>http_host := host_block\<rparr>, Suc n')))
        else Inr (meta_request st, n'))
     else Inr (meta_request st, n'))"
  have "cbind freed (\<lambda>p. cbind (hosted p) (\<lambda>(req, m).
      if length (validated_headers st) < MAX_HTTP_HEADER_COUNT
      then Inr (st\<lparr>validated_headers := validated_headers st @ [p], meta_request := req, meta_allocs := m\<rparr>)
      else Inl Out_Of_Bounds)) = Inr st'"
    using assms by (simp only: store_header_def Let_def valid cbind_Inr prod.case raw_def freed_def hosted_def)
  then obtain p req m where run: "freed = Inr p" "hosted p = Inr (req, m)"
      "length (validated_headers st) < MAX_HTTP_HEADER_COUNT"
      "st' = st\<lparr>validated_headers := validated_headers st @ [p], meta_request := req, meta_allocs := m\<rparr>"
    by (auto simp: cbind_eq_Inr split: if_splits)
  have "header_wf p"
  proof (cases "ok \<and> result \<noteq> None")
    case True
    then show ?thesis using run(1) valid validated_header_wf by (auto simp: freed_def raw_def)
  next
    case False
    then show ?thesis using run(1) by (cases raw) (auto simp: freed_def raw_def header_wf_def split: if_splits)
  qed
  moreover have "req = meta_request st \<or>
      (\<exists>q k. req = (meta_request st)\<lparr>http_host := q\<rparr> \<and> (q = Null \<or> block_wf q k))"
    using run(2) by (auto simp: hosted_def cbind_eq_Inr dest: strndup_block_wf split: if_splits)
  ultimately show thesis using run(3,4) by (intro that)
qed

lemma store_header_inv:
  assumes "store_header alloc line st = Inr st'" and "meta_inv st"
  shows "meta_inv st' \<and> line_increment st' = line_increment st"
  using assms(1)
proof (cases rule: store_header_result)
  case (1 p host m)
  then show ?thesis
    using assms(2)
    by (auto simp: meta_inv_def line_wf_def route_wf_def host_wf_def block_wf_def split: ptr.splits)
qed

section \<open>The loop over the section\<close>

lemma end_of_line_inv:
  assumes "end_of_line alloc stack raw st = Inr (flow, st')" and "meta_inv st"
  shows "meta_inv st' \<and> line_increment st' = line_increment st \<and>
           (flow \<noteq> Line_Failed \<longrightarrow> line_wf (meta_request st'))"
proof (cases "line_increment st < 1")
  case True
  then show ?thesis
    using assms
    by (auto simp: end_of_line_def cbind_eq_Inr meta_inv_def host_wf_def
        dest: validated_line_frame validated_line_wf split: if_splits)
next
  case False
  then have "line_wf (meta_request st'')" "line_increment st'' = line_increment st" "meta_inv st''"
    if "store_header alloc line st = Inr st''" for line st''
    using store_header_inv [OF that assms(2)] by (auto simp: meta_inv_def)
  with False assms show ?thesis
    by (auto simp: end_of_line_def cbind_eq_Inr split: if_splits)
qed

lemma metadata_loop_inv:
  "metadata_loop alloc stack raw st = Inr (ok, st') \<Longrightarrow> meta_inv st \<Longrightarrow>
     meta_inv st' \<and> (ok \<longrightarrow> line_wf (meta_request st'))"
proof (induction alloc stack raw st arbitrary: ok st' rule: metadata_loop.induct)
  case (1 alloc stack raw st)
  note loop = metadata_loop.simps [of alloc stack raw st]
  show ?case
  proof (cases "line_parsed st = MAX_HTTP_HEADER_LINE_SIZE")
    case True
    then show ?thesis using "1.prems" by (simp add: loop)
  next
    case room: False
    with "1.prems"(1) obtain c where c: "rd raw (raw_pos st) = Inr c" by (auto simp: loop cbind_eq_Inr)
    show ?thesis
    proof (cases "c = 13")
      case False
      with "1.prems"(1) room c obtain buf where buf: "wr (header_buffer st) (line_parsed st) c = Inr buf"
        by (auto simp: loop cbind_eq_Inr)
      with "1.prems" room c False show ?thesis
        using "1.IH"(1) [OF room c False buf] by (simp add: loop meta_inv_def)
    next
      case True
      with "1.prems"(1) room c obtain flow st1 where line: "end_of_line alloc stack raw st = Inr (flow, st1)"
        by (auto simp: loop cbind_eq_Inr)
      note kept = end_of_line_inv [OF line "1.prems"(2)]
      show ?thesis
      proof (cases flow)
        case More_Lines
        with "1.prems"(1) room c True line kept show ?thesis
          using "1.IH"(2) [OF room c _ line refl More_Lines] by (simp add: loop meta_inv_def)
      qed (use "1.prems"(1) room c True line kept in \<open>auto simp: loop\<close>)
    qed
  qed
qed

lemma first_line_inv: "host_wf req \<Longrightarrow> meta_inv (first_line req n)"
  by (simp add: meta_inv_def first_line_def)

lemma published_line_wf [simp]:
  "line_wf (req\<lparr>num_headers := a, http_headers_size := b, http_headers := c\<rparr>) = line_wf req"
  by (simp add: line_wf_def route_wf_def split: ptr.split)

lemma publish_headers_wf:
  assumes "publish_headers alloc st = Inr (b, req', n')" and "meta_inv st" and "line_wf (meta_request st)"
  shows "host_wf req' \<and> (b \<longrightarrow> request_wf req')"
  using assms
  by (auto simp: publish_headers_def Let_def meta_inv_def request_wf_def host_wf_def is_null_iff
      split: if_splits)

section \<open>Property\<close>

text \<open>
  C3: The type of a parsed request. Whatever bytes the client sent and whichever allocations
  failed, a request the parser returns with true is well-formed: one of the four methods, a
  NUL-terminated route that starts with a slash with its exact length, a NUL-terminated host, at
  most 100 headers, and in each header object that is still allocated NUL-terminated copies of
  key and value within the sizes beside them. After a refusal the host is absent or a string.
\<close>

theorem parsed_request_wf:
  assumes "get_http_metadata alloc stack n raw raw_size (Some req) = Inr (b, Some req', n')" and "host_wf req"
  shows "host_wf req' \<and> (b \<longrightarrow> request_wf req')"
proof (cases "raw = None \<or> raw_size = 0 \<or> raw_size > MAX_HTTP_HEADER_TOTAL_SIZE")
  case True
  then show ?thesis using assms by (auto simp: get_http_metadata_def split: option.splits)
next
  case False
  then obtain r where r: "raw = Some r" "0 < raw_size" "raw_size \<le> MAX_HTTP_HEADER_TOTAL_SIZE" by auto
  then obtain ok st where run: "metadata_loop alloc stack r (first_line req n) = Inr (ok, st)"
    using assms(1) by (auto simp: get_http_metadata_loop cbind_eq_Inr)
  note inv = metadata_loop_inv [OF run first_line_inv [OF assms(2)]]
  show ?thesis
  proof (cases ok)
    case True
    then have "publish_headers alloc st = Inr (b, req', n')"
      using assms(1) by (auto simp: r get_http_metadata_loop run cbind_eq_Inr)
    then show ?thesis using inv True publish_headers_wf by blast
  next
    case False
    then show ?thesis using assms(1) inv by (auto simp: r get_http_metadata_loop run meta_inv_def)
  qed
qed

theorem parsed_request_wf_witness:
  "request_wf (parsed_request get_method root_route http_1_1 [other_field, host_field] fresh_request)"
proof -
  have run: "get_http_metadata (\<lambda>_. True) zero_stack 3
      (Some (request_bytes get_method root_route http_1_1 [other_field, host_field] [])) 40 (Some fresh_request) =
    Inr (True, Some (parsed_request get_method root_route http_1_1 [other_field, host_field] fresh_request),
      Suc (3 + sum_list (map field_allocs [other_field, host_field])))"
    by (rule metadata_hosted [OF sample_line_ok])
       (simp_all add: sample_fields_ok sample_host MAX_HTTP_HEADER_COUNT_def MAX_HTTP_HEADER_TOTAL_SIZE_def
          MAX_HTTP_HEADER_LINE_SIZE_def)
  show ?thesis using parsed_request_wf [OF run] by (simp add: host_wf_def fresh_request_def zero_request_def)
qed

end
