(* ===== verification/String_Tools.thy ===== *)
theory String_Tools
  imports C_String
begin

text \<open>
  \<open>utilities/string-tools/string_tools.c\<close>: the three conversions, each loop with the
  pointers of the source as offsets into the region they point into, and \<open>char\<close>
  signed, as on the platform the program is written for. Shown: \<open>size_t_to_string\<close>
  prints the decimal numeral, in every buffer that is long enough and in no other;
  \<open>string_length\<close> and \<open>string_to_size_t\<close> never store a result.
\<close>

section \<open>Decimal numerals, the reference\<close>

definition digit :: "nat \<Rightarrow> byte" where
  "digit d = of_nat (48 + d)"

fun dec_digits :: "nat \<Rightarrow> byte list" where
  "dec_digits n = (if n < 10 then [digit n] else dec_digits (n div 10) @ [digit (n mod 10)])"

definition dec_value :: "byte list \<Rightarrow> nat" where
  "dec_value ds = foldl (\<lambda>v d. v * 10 + (unat d - 48)) 0 ds"

definition is_digit :: "byte \<Rightarrow> bool" where
  "is_digit c \<longleftrightarrow> 48 \<le> sint c \<and> sint c \<le> 57"

declare dec_digits.simps [simp del]

section \<open>The operations\<close>

text \<open>
  \<open>string_length\<close>: NULL pointers are \<open>None\<close>. The loop advances \<open>result\<close> and
  \<open>target\<close>, so the cell \<open>result\<close> pointed at is handed back as it was.
\<close>

fun string_length_loop :: "byte list \<Rightarrow> nat \<Rightarrow> fault + nat" where
  "string_length_loop [] result_offset = Inl Out_Of_Bounds"
| "string_length_loop (c # target) result_offset =
     (if c \<noteq> 0 then string_length_loop target (Suc result_offset) else Inr result_offset)"

definition string_length :: "byte list option \<Rightarrow> size_t option \<Rightarrow> fault + (bool \<times> size_t option)" where
  "string_length target result =
     (case result of
        None \<Rightarrow> Inr (False, None)
      | Some cell \<Rightarrow>
          (case target of
             None \<Rightarrow> Inr (True, Some cell)
           | Some region \<Rightarrow>
               cbind (string_length_loop region 0) (\<lambda>result_offset. Inr (True, Some cell))))"

text \<open>\<open>while(number_string)\<close> tests the pointer, which \<open>++\<close> never makes NULL.\<close>

fun string_to_size_t_loop :: "byte list \<Rightarrow> size_t \<Rightarrow> fault + (bool \<times> size_t)" where
  "string_to_size_t_loop [] result = Inl Out_Of_Bounds"
| "string_to_size_t_loop (c # r) result =
     (if sint c > 48 \<or> sint c < 57 then Inr (False, result)
      else (case r of
              [] \<Rightarrow> Inl Out_Of_Bounds
            | d # _ \<Rightarrow> string_to_size_t_loop r (result * 10 + (scast d - 48))))"

definition string_to_size_t :: "byte list option \<Rightarrow> size_t \<Rightarrow> fault + (bool \<times> size_t)" where
  "string_to_size_t number_string result =
     (case number_string of
        None \<Rightarrow> Inr (True, result)
      | Some region \<Rightarrow> string_to_size_t_loop region result)"

text \<open>The first \<open>do\<close> loop of \<open>size_t_to_string\<close>.\<close>

fun count_digits :: "nat \<Rightarrow> nat" where
  "count_digits temp_number = (if temp_number div 10 > 0 then Suc (count_digits (temp_number div 10)) else 1)"

declare count_digits.simps [simp del]

text \<open>The second one; \<open>tail\<close> is \<open>result_tail - result\<close> before the decrement.\<close>

fun write_digits :: "nat \<Rightarrow> nat \<Rightarrow> byte list \<Rightarrow> fault + byte list" where
  "write_digits number tail buf =
     (if tail < 1 then Inr buf
      else cbind (wr buf (tail - 1) (of_nat (number mod 10 + 48)))
        (\<lambda>buf'. if number div 10 > 0 then write_digits (number div 10) (tail - 1) buf'
                else Inr buf'))"

declare write_digits.simps [simp del]

definition size_t_to_string :: "size_t \<Rightarrow> byte list \<Rightarrow> fault + (bool \<times> byte list)" where
  "size_t_to_string number result =
     (let number_counter = count_digits (unat number)
      in cbind (wr result number_counter 0)
           (\<lambda>buf. cbind (write_digits (unat number) number_counter buf)
             (\<lambda>buf'. Inr (True, buf'))))"

section \<open>Lemmas\<close>

lemma count_digits_length: "count_digits n = length (dec_digits n)"
  by (induction n rule: dec_digits.induct)
     (simp add: count_digits.simps [of "_ :: nat"] dec_digits.simps [of "_ :: nat"] div_eq_0_iff)

lemma digit_commute: "digit d = of_nat (d + 48)"
  by (simp add: digit_def add.commute)

lemma dec_digits_nonempty [simp]: "dec_digits n \<noteq> []"
  by (simp add: dec_digits.simps [of n])

lemma write_digits_spec:
  "length pre = length (dec_digits n) \<Longrightarrow>
     write_digits n (length pre) (pre @ post) = Inr (dec_digits n @ post)"
proof (induction n arbitrary: pre post rule: dec_digits.induct)
  case (1 n)
  obtain front l where pre: "pre = front @ [l]"
    using "1.prems" by (metis dec_digits_nonempty length_0_conv rev_exhaust)
  have upd: "wr (pre @ post) (length pre - 1) v = Inr (front @ v # post)" for v
    by (simp add: pre wr_def)
  show ?case
  proof (cases "n < 10")
    case True
    with "1.prems" pre have "front = []" by (simp add: dec_digits.simps [of n])
    with True pre upd show ?thesis
      by (simp add: write_digits.simps [of n] dec_digits.simps [of n] digit_commute div_eq_0_iff)
  next
    case False
    with "1.prems" pre have "length front = length (dec_digits (n div 10))"
      by (simp add: dec_digits.simps [of n])
    from "1.IH" [OF False this] have
      "write_digits (n div 10) (length front) (front @ digit (n mod 10) # post)
         = Inr (dec_digits (n div 10) @ digit (n mod 10) # post)" .
    with False pre upd show ?thesis
      by (simp add: write_digits.simps [of n] dec_digits.simps [of n] digit_commute div_greater_zero_iff)
  qed
qed

lemma size_t_to_string_spec:
  "size_t_to_string n buf =
     (let ds = dec_digits (unat n)
      in if length ds < length buf then Inr (True, ds @ 0 # drop (length ds + 1) buf)
         else Inl Out_Of_Bounds)"
proof (cases "length (dec_digits (unat n)) < length buf")
  case True
  let ?k = "length (dec_digits (unat n))"
  have "buf[?k := 0] = take ?k buf @ 0 # drop (Suc ?k) buf"
    using True by (simp add: upd_conv_take_nth_drop)
  moreover have "length (take ?k buf) = ?k" using True by simp
  ultimately show ?thesis
    using True write_digits_spec [of "take ?k buf" "unat n" "0 # drop (Suc ?k) buf"]
    by (simp add: size_t_to_string_def count_digits_length wr_in Let_def)
next
  case False
  then show ?thesis by (simp add: size_t_to_string_def count_digits_length wr_out Let_def)
qed

lemma below_ten: "(d::nat) < 10 \<Longrightarrow> d \<in> {0, 1, 2, 3, 4, 5, 6, 7, 8, 9}"
  by auto

lemma unat_digit: "d < 10 \<Longrightarrow> unat (digit d) = 48 + d"
  using below_ten [of d] by (auto simp: digit_def)

lemma dec_value_snoc: "dec_value (ds @ [d]) = dec_value ds * 10 + (unat d - 48)"
  by (simp add: dec_value_def)

lemma dec_value_digits: "dec_value (dec_digits n) = n"
proof (induction n rule: dec_digits.induct)
  case (1 n)
  then show ?case
    by (cases "n < 10")
       (simp_all add: dec_digits.simps [of n] dec_value_snoc unat_digit dec_value_def [of "[_]"])
qed

lemma is_digit_digit: "d < 10 \<Longrightarrow> is_digit (digit d)"
  using below_ten [of d] by (auto simp: is_digit_def digit_def)

lemma dec_digits_are_digits: "c \<in> set (dec_digits n) \<Longrightarrow> is_digit c"
proof (induction n rule: dec_digits.induct)
  case (1 n)
  then show ?case
    by (cases "n < 10") (auto simp: dec_digits.simps [of n] is_digit_digit)
qed

lemma dec_digits_short: "n < 10 ^ k \<Longrightarrow> 0 < k \<Longrightarrow> length (dec_digits n) \<le> k"
proof (induction k arbitrary: n)
  case (Suc k)
  show ?case
  proof (cases "n < 10")
    case False
    then have "n div 10 < 10 ^ k" and "0 < k"
      using Suc.prems(1) by (auto simp: less_mult_imp_div_less mult.commute intro: ccontr)
    with Suc.IH [of "n div 10"] False show ?thesis by (simp add: dec_digits.simps [of n])
  qed (simp add: dec_digits.simps [of n])
qed simp

section \<open>Properties\<close>

text \<open>
  C38: \<open>size_t_to_string\<close> prints exactly the decimal numeral. It succeeds if and only if the
  buffer has room for the digits and the NUL; the string in the buffer then consists of digits
  that read back as the number, and the bytes behind its NUL are kept. Otherwise it writes
  outside the buffer.
\<close>

theorem size_t_printed:
  "case size_t_to_string n buf of
     Inr (ok, buf') \<Rightarrow>
       ok \<and> length (dec_digits (unat n)) < length buf \<and> list_all is_digit (cstring buf') \<and>
       dec_value (cstring buf') = unat n \<and> length buf' = length buf \<and>
       drop (length (cstring buf') + 1) buf' = drop (length (cstring buf') + 1) buf
   | Inl f \<Rightarrow> f = Out_Of_Bounds \<and> length buf \<le> length (dec_digits (unat n))"
proof (cases "length (dec_digits (unat n)) < length buf")
  case True
  have digits: "list_all is_digit (dec_digits (unat n))"
    by (simp add: list_all_iff dec_digits_are_digits)
  then have "0 \<notin> set (dec_digits (unat n))" by (auto simp: list_all_iff is_digit_def)
  with True digits show ?thesis by (simp add: size_t_to_string_spec Let_def dec_value_digits)
next
  case False
  then show ?thesis by (simp add: size_t_to_string_spec Let_def)
qed

text \<open>
  The two functions that should store a number never do. \<open>string_to_size_t\<close> refuses
  every string with at least one byte, digits included, because its range test holds for all
  characters; \<open>string_length\<close> runs over the string and leaves the cell for the length as it
  was.
\<close>

theorem string_results_never_stored:
  assumes "terminated t"
  shows "string_to_size_t (Some (c # r)) v = Inr (False, v) \<and>
         string_length (Some t) (Some x) = Inr (True, Some x)"
proof -
  have "\<exists>k. string_length_loop t j = Inr k" for j
    using assms by (induction t arbitrary: j) auto
  then have "string_length (Some t) (Some x) = Inr (True, Some x)"
    by (auto simp: string_length_def dest: spec [of _ 0]) (metis cbind_Inr)
  then show ?thesis by (auto simp: string_to_size_t_def)
qed

theorem string_results_never_stored_witness:
  "string_to_size_t (Some (52 # [50, 0])) 9 = Inr (False, 9) \<and>
   string_length (Some [97, 98, 0]) (Some 9) = Inr (True, Some 9)"
  by (rule string_results_never_stored) simp

end
