(* ===== verification/Logging.thy ===== *)
theory Logging
  imports Orb_Prelude
begin

text \<open>
  \<open>services/logging/logging.h\<close>: the three macros, in the debug build. A call puts one line on
  one of the two streams; \<open>input\<close> is the text once \<open>printf\<close> has filled in its arguments.
  What a function prints is modelled where printing is its result: \<open>validate_syscall\<close> and the
  two address listings of the host resolver.
\<close>

datatype stream = Stdout | Stderr

type_synonym printed = "(stream \<times> byte list) list"

text \<open>The characters of a string literal, without its NUL.\<close>

definition chars :: "string \<Rightarrow> byte list" where
  "chars s = map of_char s"

definition LOG :: "string \<Rightarrow> byte list \<Rightarrow> stream \<times> byte list" where
  "LOG tag input = (Stdout, chars ''@   '' @ chars tag @ chars '' '' @ input @ [10])"

definition ERROR_LOG :: "byte list \<Rightarrow> stream \<times> byte list" where
  "ERROR_LOG input = (Stderr, chars ''!   [ ERROR ] '' @ input @ [10])"

definition DEBUG_LOG :: "byte list \<Rightarrow> stream \<times> byte list" where
  "DEBUG_LOG input = (Stderr, chars ''>   [ DEBUG ] '' @ input @ [10])"

end
