(* ===== verification/Error_Handler.thy ===== *)
theory Error_Handler
  imports Logging
begin

text \<open>
  \<open>utilities/error-handler/error_handler.c\<close>. A C \<open>int\<close> is an \<open>int\<close> in its
  32-bit range; \<open>to_cint\<close> is the conversion the compiler inserts where a wider value is
  passed. \<open>caller\<close> is \<open>None\<close> for NULL. The result of \<open>validate_syscall\<close> and what it
  prints are two functions, since no caller looks at the second.
\<close>

definition to_cint :: "int \<Rightarrow> int" where
  "to_cint i = signed_take_bit 31 i"

definition validate_syscall :: "int \<Rightarrow> string option \<Rightarrow> bool" where
  "validate_syscall value caller =
     (case caller of
        None \<Rightarrow> False
      | Some name \<Rightarrow> if value < 0 then False else True)"

text \<open>\<open>socket_error\<close> is the answer of \<open>strerror(errno)\<close>, \<open>None\<close> for NULL.\<close>

definition validate_syscall_output ::
  "int \<Rightarrow> string option \<Rightarrow> byte list \<Rightarrow> byte list option \<Rightarrow> printed" where
  "validate_syscall_output value caller error_message socket_error =
     (case caller of
        None \<Rightarrow>
          [ERROR_LOG (chars ''validate_syscall: The caller parameter provided was invalid. Provided error message: '' @
             error_message @ [46, 10])]
      | Some name \<Rightarrow>
          if value < 0 then
            (case socket_error of
               None \<Rightarrow>
                 [ERROR_LOG (chars name @ chars '': '' @ error_message @
                    chars '' Error: `errno` could not be properly parsed.'' @ [10])]
             | Some text \<Rightarrow>
                 [ERROR_LOG (chars name @ chars '': '' @ error_message @ chars '' Error: '' @ text @ [10])])
          else [])"

text \<open>It never refuses without a line on \<open>stderr\<close>, and prints nothing otherwise.\<close>

lemma validate_syscall_reports:
  "length (validate_syscall_output value caller error_message socket_error) =
     (if validate_syscall value caller then 0 else 1)"
  by (simp add: validate_syscall_def validate_syscall_output_def split: option.split)

lemma validate_syscall_iff [simp]: "validate_syscall value (Some name) \<longleftrightarrow> 0 \<le> value"
  by (simp add: validate_syscall_def)

lemma to_cint_id: "- (2 ^ 31) \<le> i \<Longrightarrow> i < 2 ^ 31 \<Longrightarrow> to_cint i = i"
  by (simp add: to_cint_def signed_take_bit_int_eq_self)

end
