(* ===== verification/Configuration.thy ===== *)
theory Configuration
  imports String_Tools Error_Handler
begin

text \<open>
  \<open>configuration/parsers/configuration-handler\<close>: the configuration record, its table
  of entries and the parser of the configuration file. A file is the list of its bytes,
  \<open>None\<close> when it cannot be opened; \<open>fgets\<close> reads it line by line into a buffer of
  200 bytes that keeps its old bytes behind the line. \<open>char\<close> is signed. The struct is
  a record, read and written by the offset of a field as the code does.
\<close>

section \<open>The record and its table\<close>

definition MAX_VALUE_LENGTH :: nat where "MAX_VALUE_LENGTH = 20"

definition MAX_FIELD_LENGTH :: nat where "MAX_FIELD_LENGTH = 200"

datatype config_values =
  CONFIG_MAX_CONNECTIONS | CONFIG_PORT | CONFIG_NUM_CORES | CONFIG_MAX_NUM_ROUTES | CONFIG_NULL

record configuration =
  max_connections :: size_t
  port :: size_t
  num_cores :: size_t
  max_num_routes :: size_t

record cfg_entry =
  entry_name :: "byte list option"
  entry_offset :: nat
  entry_type :: config_values

definition cfg_entries :: "cfg_entry list" where
  "cfg_entries =
     [\<lparr>entry_name = Some (literal ''max_connections''), entry_offset = 0, entry_type = CONFIG_MAX_CONNECTIONS\<rparr>,
      \<lparr>entry_name = Some (literal ''port''), entry_offset = 8, entry_type = CONFIG_PORT\<rparr>,
      \<lparr>entry_name = Some (literal ''num_cores''), entry_offset = 16, entry_type = CONFIG_NUM_CORES\<rparr>,
      \<lparr>entry_name = Some (literal ''max_num_routes''), entry_offset = 24, entry_type = CONFIG_MAX_NUM_ROUTES\<rparr>,
      \<lparr>entry_name = None, entry_offset = 0, entry_type = CONFIG_NULL\<rparr>]"

definition DEFAULT_MAX_CONNECTIONS :: size_t where [simp]: "DEFAULT_MAX_CONNECTIONS = 4096"

definition DEFAULT_PORT :: size_t where [simp]: "DEFAULT_PORT = 8888"

definition DEFAULT_NUM_CORES :: size_t where [simp]: "DEFAULT_NUM_CORES = 8"

definition DEFAULT_MAX_NUM_ROUTES :: size_t where [simp]: "DEFAULT_MAX_NUM_ROUTES = 256"

text \<open>The initialiser of \<open>config\<close>.\<close>

definition default_config :: configuration where
  "default_config = \<lparr>max_connections = DEFAULT_MAX_CONNECTIONS, port = DEFAULT_PORT,
     num_cores = DEFAULT_NUM_CORES, max_num_routes = DEFAULT_MAX_NUM_ROUTES\<rparr>"

text \<open>The \<open>size_t\<close> at an offset of the struct.\<close>

definition config_read :: "configuration \<Rightarrow> nat \<Rightarrow> size_t" where
  "config_read cfg off =
     (if off = 0 then max_connections cfg else if off = 8 then port cfg
      else if off = 16 then num_cores cfg else max_num_routes cfg)"

definition config_write :: "configuration \<Rightarrow> nat \<Rightarrow> size_t \<Rightarrow> configuration" where
  "config_write cfg off v =
     (if off = 0 then cfg\<lparr>max_connections := v\<rparr> else if off = 8 then cfg\<lparr>port := v\<rparr>
      else if off = 16 then cfg\<lparr>num_cores := v\<rparr> else cfg\<lparr>max_num_routes := v\<rparr>)"

section \<open>The table searches\<close>

text \<open>\<open>None\<close> is \<open>return false\<close>, \<open>Some e\<close> the entry copied out.\<close>

fun validate_field_name :: "byte list \<Rightarrow> cfg_entry list \<Rightarrow> fault + cfg_entry option" where
  "validate_field_name name [] = Inl Out_Of_Bounds"
| "validate_field_name name (e # valid_entries) =
     (case entry_name e of
        None \<Rightarrow> Inr None
      | Some s \<Rightarrow> cbind (c_streq name s)
          (\<lambda>eq. if eq then Inr (Some e) else validate_field_name name valid_entries))"

fun find_enum_row :: "config_values \<Rightarrow> cfg_entry list \<Rightarrow> fault + cfg_entry option" where
  "find_enum_row target [] = Inl Out_Of_Bounds"
| "find_enum_row target (e # valid_entries) =
     (if entry_type e = CONFIG_NULL then Inr None
      else if target = entry_type e then Inr (Some e)
      else find_enum_row target valid_entries)"

text \<open>The fetches: the return value and the out cell.\<close>

definition fetch_configuration_by_name ::
  "configuration \<Rightarrow> byte list option \<Rightarrow> size_t \<Rightarrow> fault + (bool \<times> size_t)" where
  "fetch_configuration_by_name cfg target value =
     (case target of
        None \<Rightarrow> Inl Null_Deref
      | Some name \<Rightarrow> cbind (validate_field_name name cfg_entries)
          (\<lambda>row. Inr (case row of None \<Rightarrow> (False, value) | Some e \<Rightarrow> (True, config_read cfg (entry_offset e)))))"

definition fetch_configuration_by_enum ::
  "configuration \<Rightarrow> config_values \<Rightarrow> size_t \<Rightarrow> fault + (bool \<times> size_t)" where
  "fetch_configuration_by_enum cfg target value =
     cbind (find_enum_row target cfg_entries)
       (\<lambda>row. Inr (case row of None \<Rightarrow> (False, value) | Some e \<Rightarrow> (True, config_read cfg (entry_offset e))))"

section \<open>Reading a line\<close>

text \<open>The bytes \<open>fgets\<close> takes: up to and with a newline, at most \<open>n\<close>.\<close>

fun line_chunk :: "nat \<Rightarrow> byte list \<Rightarrow> byte list" where
  "line_chunk 0 s = []"
| "line_chunk (Suc n) [] = []"
| "line_chunk (Suc n) (c # s) = c # (if c = 10 then [] else line_chunk n s)"

lemma line_chunk_nil [simp]: "line_chunk n [] = []"
  by (cases n) simp_all

text \<open>\<open>None\<close> at the end of the file, else the buffer and the rest of the file.\<close>

definition c_fgets :: "byte list \<Rightarrow> nat \<Rightarrow> byte list \<Rightarrow> (byte list \<times> byte list) option" where
  "c_fgets line n s =
     (let bs = line_chunk (n - 1) s
      in if bs = [] then None else Some (bs @ 0 # drop (Suc (length bs)) line, drop (length bs) s))"

text \<open>
  The loop over the name; \<open>line_cursor - line\<close> equals \<open>field_name_length\<close> throughout.
  \<open>None\<close> is the \<open>return false\<close> on a byte above 127.
\<close>

function field_name_loop :: "byte list \<Rightarrow> byte list \<Rightarrow> nat \<Rightarrow> fault + (byte list \<times> nat) option" where
  "field_name_loop line cache field_name_length =
     (if field_name_length < MAX_FIELD_LENGTH then
        cbind (rd line field_name_length)
          (\<lambda>c. if c = 32 \<or> c = 10 \<or> c = 13 then Inr (Some (cache, field_name_length))
               else if sint c > 127 then Inr None
               else cbind (wr cache field_name_length c)
                      (\<lambda>cache'. field_name_loop line cache' (Suc field_name_length)))
      else Inr (Some (cache, field_name_length)))"
  by pat_completeness auto
termination
  by (relation "measure (\<lambda>(line, cache, len). MAX_FIELD_LENGTH - len)") auto

declare field_name_loop.simps [simp del]

text \<open>The copy of the value; \<open>count\<close> iterations are left.\<close>

fun copy_value :: "byte list \<Rightarrow> nat \<Rightarrow> nat \<Rightarrow> nat \<Rightarrow> byte list \<Rightarrow> fault + byte list" where
  "copy_value line line_cursor char_index 0 cache = Inr cache"
| "copy_value line line_cursor char_index (Suc count) cache =
     cbind (rd line line_cursor)
       (\<lambda>c. if c = 0 \<or> c = 10 then Inr cache
            else cbind (wr cache char_index c)
                   (\<lambda>cache'. copy_value line (Suc line_cursor) (Suc char_index) count cache'))"

text \<open>The conversion: \<open>None\<close> is \<open>return false\<close>; the value wraps at 64 bits.\<close>

fun convert_value :: "byte list \<Rightarrow> size_t \<Rightarrow> fault + size_t option" where
  "convert_value [] value = Inl Out_Of_Bounds"
| "convert_value (c # value_cursor) value =
     (if c = 0 then Inr (Some value)
      else if sint c < 48 \<or> sint c > 57 then Inr None
      else convert_value value_cursor (value * 10 + (scast c - 48)))"

text \<open>The body of the loop over the lines: \<open>False\<close> is \<open>return false\<close>.\<close>

definition parse_config_line :: "byte list \<Rightarrow> configuration \<Rightarrow> fault + (bool \<times> configuration)" where
  "parse_config_line line cfg =
     cbind (field_name_loop line (replicate MAX_FIELD_LENGTH 0) 0)
       (\<lambda>name. case name of
          None \<Rightarrow> Inr (False, cfg)
        | Some (cache, len) \<Rightarrow>
            if len < 2 then Inr (True, cfg)
            else cbind (validate_field_name cache cfg_entries)
              (\<lambda>row. case row of
                 None \<Rightarrow> Inr (False, cfg)
               | Some e \<Rightarrow>
                   cbind (rd line (len + 1)) (\<lambda>c. if c \<noteq> 61 then Inr (False, cfg)
                   else cbind (rd line (len + 2)) (\<lambda>c. if c \<noteq> 32 then Inr (False, cfg)
                   else cbind (rd line (len + 3)) (\<lambda>c. if sint c < 48 \<or> sint c > 57 then Inr (False, cfg)
                   else cbind (copy_value line (len + 3) 0 MAX_VALUE_LENGTH (replicate MAX_VALUE_LENGTH 0))
                     (\<lambda>digits. cbind (convert_value digits 0)
                       (\<lambda>value. case value of
                          None \<Rightarrow> Inr (False, cfg)
                        | Some v \<Rightarrow> if v = 0 then Inr (False, cfg)
                                    else Inr (True, config_write cfg (entry_offset e) v))))))))"

function parse_lines :: "byte list \<Rightarrow> byte list \<Rightarrow> configuration \<Rightarrow> fault + (bool \<times> configuration)" where
  "parse_lines line input cfg =
     (case c_fgets line MAX_FIELD_LENGTH input of
        None \<Rightarrow> Inr (True, cfg)
      | Some (line', input_rest) \<Rightarrow>
          cbind (parse_config_line line' cfg)
            (\<lambda>(ok, cfg'). if \<not> ok then Inr (False, cfg') else parse_lines line' input_rest cfg'))"
  by pat_completeness auto
termination
proof (relation "measure (\<lambda>(line, input, cfg). length input)")
  fix line line' input input_rest :: "byte list" and r cfg xy ok cfg'
  assume "c_fgets line MAX_FIELD_LENGTH input = Some r" and "(line', input_rest) = r"
  then show "((line', input_rest, cfg'), line, input, cfg) \<in> measure (\<lambda>(line, input, cfg). length input)"
    by (cases input) (auto simp: c_fgets_def Let_def split: if_splits)
qed simp

declare parse_lines.simps [simp del]

definition parse_configuration ::
  "bool \<Rightarrow> byte list option \<Rightarrow> configuration \<Rightarrow> fault + (bool \<times> configuration)" where
  "parse_configuration folder_found configuration_file cfg =
     (if \<not> folder_found then Inr (False, cfg)
      else case configuration_file of
             None \<Rightarrow> Inr (False, cfg)
           | Some input \<Rightarrow> parse_lines (replicate MAX_FIELD_LENGTH 0) input cfg)"

text \<open>
  \<open>sysctlbyname\<close> is the machine's: its return value and what it leaves in the
  \<open>int32_t\<close> it is given.
\<close>

definition initialize_configuration ::
  "bool \<Rightarrow> byte list option \<Rightarrow> (int \<Rightarrow> int \<times> int) \<Rightarrow> configuration \<Rightarrow> fault + (bool \<times> configuration)" where
  "initialize_configuration folder_found configuration_file sysctl cfg =
     cbind (parse_configuration folder_found configuration_file cfg)
       (\<lambda>(ok, cfg').
          if \<not> ok then Inr (False, cfg')
          else (let (status, cores) = sysctl (- 1)
                in if \<not> validate_syscall status (Some ''initialize_configuration'') then Inr (False, cfg')
                   else if cores < 0 then Inr (False, cfg')
                   else Inr (True, cfg'\<lparr>num_cores := word_of_int cores\<rparr>)))"

section \<open>Lemmas\<close>

lemma config_read_write:
  "config_read (config_write cfg off v) off = v"
  by (simp add: config_read_def config_write_def)

lemma cfg_names:
  "cstring (literal ''max_connections'') = [109, 97, 120, 95, 99, 111, 110, 110, 101, 99, 116, 105, 111, 110, 115]"
  "cstring (literal ''port'') = [112, 111, 114, 116]"
  "cstring (literal ''num_cores'') = [110, 117, 109, 95, 99, 111, 114, 101, 115]"
  "cstring (literal ''max_num_routes'') = [109, 97, 120, 95, 110, 117, 109, 95, 114, 111, 117, 116, 101, 115]"
  by (simp_all add: literal_def)

text \<open>One line of the file, without a newline inside.\<close>

lemma line_chunk_line: "10 \<notin> set l \<Longrightarrow> length l < n \<Longrightarrow> line_chunk n (l @ 10 # s) = l @ [10]"
proof (induction l arbitrary: n)
  case Nil
  then show ?case by (cases n) auto
next
  case (Cons c l)
  then show ?case by (cases n) auto
qed

lemma c_fgets_line:
  "10 \<notin> set l \<Longrightarrow> Suc (length l) < n \<Longrightarrow>
     c_fgets line n (l @ 10 # s) = Some (l @ 10 # 0 # drop (length l + 2) line, s)"
  by (simp add: c_fgets_def line_chunk_line Let_def)

lemma field_name_run:
  assumes "list_all (\<lambda>c. c \<noteq> 32 \<and> c \<noteq> 10 \<and> c \<noteq> 13) name" and "line = pre @ name @ d # rest"
    and "d = 32 \<or> d = 10 \<or> d = 13" and "cache = pre @ replicate m 0" and "length name < m"
    and "length pre + m = MAX_FIELD_LENGTH"
  shows "field_name_loop line cache (length pre)
           = Inr (Some ((pre @ name) @ replicate (m - length name) 0, length pre + length name))"
  using assms
proof (induction name arbitrary: pre cache m)
  case Nil
  then show ?case by (subst field_name_loop.simps) (auto simp: rd_append_head)
next
  case (Cons c name)
  have "\<not> sint c > 127" using sint_lt [of c] by simp
  then have "field_name_loop line cache (length pre) =
      field_name_loop line ((pre @ [c]) @ replicate (m - 1) 0) (length (pre @ [c]))"
    using Cons.prems by (subst field_name_loop.simps) (simp add: rd_append_head wr_next_cell)
  also have "\<dots> = Inr (Some (((pre @ [c]) @ name) @ replicate (m - 1 - length name) 0, length (pre @ [c]) + length name))"
    by (rule Cons.IH) (use Cons.prems in simp_all)
  finally show ?case by simp
qed

lemma copy_value_run:
  assumes "0 \<notin> set ds" and "10 \<notin> set ds" and "line = pre @ ds @ d # rest" and "d = 0 \<or> d = 10"
    and "cache = kept @ replicate m 0" and "length ds < m"
  shows "copy_value line (length pre) (length kept) m cache = Inr ((kept @ ds) @ replicate (m - length ds) 0)"
  using assms
proof (induction ds arbitrary: pre kept cache m)
  case Nil
  then show ?case by (cases m) (auto simp: rd_append_head)
next
  case (Cons c ds)
  obtain m' where m: "m = Suc m'" using Cons.prems(6) by (cases m) auto
  have "copy_value line (length pre) (length kept) m cache =
      copy_value line (length (pre @ [c])) (length (kept @ [c])) m' ((kept @ [c]) @ replicate m' 0)"
    using Cons.prems by (simp add: m rd_append_head wr_append_next)
  also have "\<dots> = Inr (((kept @ [c]) @ ds) @ replicate (m' - length ds) 0)"
    by (rule Cons.IH) (use Cons.prems m in simp_all)
  finally show ?case by (simp add: m)
qed

text \<open>Twenty characters or more fill the cache.\<close>

lemma copy_value_full:
  assumes "0 \<notin> set ds" and "10 \<notin> set ds" and "line = pre @ ds @ rest"
    and "cache = kept @ replicate m 0" and "length ds = m"
  shows "copy_value line (length pre) (length kept) m cache = Inr (kept @ ds)"
  using assms
proof (induction ds arbitrary: pre kept cache m)
  case (Cons c ds)
  obtain m' where m: "m = Suc m'" using Cons.prems(5) by (cases m) auto
  have "copy_value line (length pre) (length kept) m cache =
      copy_value line (length (pre @ [c])) (length (kept @ [c])) m' ((kept @ [c]) @ replicate m' 0)"
    using Cons.prems by (simp add: m rd_append_head wr_append_next)
  also have "\<dots> = Inr ((kept @ [c]) @ ds)"
    by (rule Cons.IH) (use Cons.prems m in simp_all)
  finally show ?case by simp
qed simp

lemma is_digit_obtains:
  assumes "is_digit c"
  obtains d where "d < 10" and "c = digit d"
proof
  let ?d = "nat (sint c - 48)"
  show "?d < 10" using assms by (auto simp: is_digit_def)
  have "sint c = int (48 + ?d)" using assms by (auto simp: is_digit_def)
  then have "c = word_of_int (int (48 + ?d))" by (metis scast_eq scast_id)
  then show "c = digit ?d" by (simp only: digit_def of_int_of_nat_eq)
qed

lemma digit_step: "is_digit c \<Longrightarrow> scast c - 48 = (of_nat (unat c - 48) :: size_t)"
  by (erule is_digit_obtains, drule below_ten) (auto simp: digit_def)

lemma digit_plain: "is_digit c \<Longrightarrow> c \<noteq> 0 \<and> c \<noteq> 10"
  by (auto simp: is_digit_def)

lemma convert_value_run:
  "list_all is_digit ds \<Longrightarrow>
     convert_value (ds @ rest) acc =
       convert_value rest (foldl (\<lambda>v d. v * 10 + of_nat (unat d - 48)) acc ds)"
  by (induction ds arbitrary: acc) (auto simp: digit_step digit_plain is_digit_def)

lemma foldl_value:
  "foldl (\<lambda>v d. v * 10 + of_nat (unat d - 48)) (of_nat a :: size_t) ds =
     of_nat (foldl (\<lambda>v d. v * 10 + (unat d - 48)) a ds)"
proof (induction ds arbitrary: a)
  case (Cons d ds)
  from Cons [where a = "a * 10 + (unat d - 48)"] show ?case by simp
qed simp

lemma convert_digits:
  "list_all is_digit ds \<Longrightarrow> convert_value (ds @ 0 # rest) 0 = Inr (Some (of_nat (dec_value ds)))"
  using foldl_value [of 0 ds] by (simp add: convert_value_run dec_value_def)

end
