(* ===== verification/Config_Properties.thy ===== *)
theory Config_Properties
  imports Configuration
begin

text \<open>
  Files of the configuration parser, rendered from a list of lines, and what the parser makes
  of them: the settings are read back, a malformed line stops the parser with the settings
  before it in place, a value of 20 characters overruns its cache.
\<close>

section \<open>Rendered files\<close>

datatype config_line = Blank | Setting config_values nat

fun key_name :: "config_values \<Rightarrow> byte list" where
  "key_name CONFIG_MAX_CONNECTIONS = cstring (literal ''max_connections'')"
| "key_name CONFIG_PORT = cstring (literal ''port'')"
| "key_name CONFIG_NUM_CORES = cstring (literal ''num_cores'')"
| "key_name CONFIG_MAX_NUM_ROUTES = cstring (literal ''max_num_routes'')"
| "key_name CONFIG_NULL = []"

fun config_field :: "configuration \<Rightarrow> config_values \<Rightarrow> size_t" where
  "config_field cfg CONFIG_MAX_CONNECTIONS = max_connections cfg"
| "config_field cfg CONFIG_PORT = port cfg"
| "config_field cfg CONFIG_NUM_CORES = num_cores cfg"
| "config_field cfg CONFIG_MAX_NUM_ROUTES = max_num_routes cfg"
| "config_field cfg CONFIG_NULL = 0"

fun set_field :: "config_values \<Rightarrow> size_t \<Rightarrow> configuration \<Rightarrow> configuration" where
  "set_field CONFIG_MAX_CONNECTIONS v cfg = cfg\<lparr>max_connections := v\<rparr>"
| "set_field CONFIG_PORT v cfg = cfg\<lparr>port := v\<rparr>"
| "set_field CONFIG_NUM_CORES v cfg = cfg\<lparr>num_cores := v\<rparr>"
| "set_field CONFIG_MAX_NUM_ROUTES v cfg = cfg\<lparr>max_num_routes := v\<rparr>"
| "set_field CONFIG_NULL v cfg = cfg"

text \<open>A line that assigns the text \<open>v\<close> to a field, without its newline.\<close>

definition assignment :: "config_values \<Rightarrow> byte list \<Rightarrow> byte list" where
  "assignment t v = key_name t @ 32 # 61 # 32 # v"

fun line_bytes :: "config_line \<Rightarrow> byte list" where
  "line_bytes Blank = []"
| "line_bytes (Setting t n) = assignment t (dec_digits n)"

definition file_bytes :: "config_line list \<Rightarrow> byte list" where
  "file_bytes ls = concat (map (\<lambda>l. line_bytes l @ [10]) ls)"

fun line_ok :: "config_line \<Rightarrow> bool" where
  "line_ok Blank \<longleftrightarrow> True"
| "line_ok (Setting t n) \<longleftrightarrow> t \<noteq> CONFIG_NULL \<and> 0 < n \<and> n < 10 ^ 19"

fun apply_line :: "config_line \<Rightarrow> configuration \<Rightarrow> configuration" where
  "apply_line Blank cfg = cfg"
| "apply_line (Setting t n) cfg = set_field t (of_nat n) cfg"

fun line_setting :: "config_line \<Rightarrow> (config_values \<times> nat) list" where
  "line_setting Blank = []"
| "line_setting (Setting t n) = [(t, n)]"

lemma file_bytes_simps [simp]:
  "file_bytes [] = []" "file_bytes (l # ls) = line_bytes l @ 10 # file_bytes ls"
  by (simp_all add: file_bytes_def)

lemma config_field_set:
  "t \<noteq> CONFIG_NULL \<Longrightarrow> config_field (set_field u v cfg) t = (if u = t then v else config_field cfg t)"
  by (cases t; cases u) simp_all

text \<open>The last setting of a field decides its value.\<close>

lemma config_field_fold:
  "t \<noteq> CONFIG_NULL \<Longrightarrow> config_field (fold apply_line ls cfg) t =
     (case map_of (rev (concat (map line_setting ls))) t of
        None \<Rightarrow> config_field cfg t | Some n \<Rightarrow> of_nat n)"
proof (induction ls rule: rev_induct)
  case (snoc l ls)
  then show ?case by (cases l) (simp_all add: config_field_set)
qed simp

section \<open>One line\<close>

lemma key_name_plain:
  "list_all (\<lambda>c. c \<noteq> 32 \<and> c \<noteq> 10 \<and> c \<noteq> 13 \<and> c \<noteq> 0) (key_name t)"
  "t \<noteq> CONFIG_NULL \<Longrightarrow> 2 \<le> length (key_name t)" "length (key_name t) < 20"
  by (cases t; simp add: cfg_names)+

lemma name_lookup:
  assumes "0 \<notin> set name"
  shows "validate_field_name (name @ 0 # rest) cfg_entries =
           Inr (if name = key_name CONFIG_MAX_CONNECTIONS then Some (cfg_entries ! 0)
                else if name = key_name CONFIG_PORT then Some (cfg_entries ! 1)
                else if name = key_name CONFIG_NUM_CORES then Some (cfg_entries ! 2)
                else if name = key_name CONFIG_MAX_NUM_ROUTES then Some (cfg_entries ! 3)
                else None)"
proof -
  have "terminated (literal s)" for s by (simp add: literal_def)
  then have "c_streq (name @ 0 # rest) (literal s) = Inr (name = cstring (literal s))" for s
    using assms by (simp add: c_streq_terminated)
  then show ?thesis by (simp add: cfg_entries_def)
qed

lemma key_lookup:
  assumes "t \<noteq> CONFIG_NULL"
  shows "\<exists>e. validate_field_name (key_name t @ 0 # rest) cfg_entries = Inr (Some e) \<and>
           find_enum_row t cfg_entries = Inr (Some e) \<and>
           (\<forall>cfg. config_read cfg (entry_offset e) = config_field cfg t) \<and>
           (\<forall>cfg v. config_write cfg (entry_offset e) v = set_field t v cfg)"
  using assms
  by (cases t; subst name_lookup) (simp_all add: cfg_names cfg_entries_def config_read_def config_write_def)

lemma assignment_prefix:
  assumes "t \<noteq> CONFIG_NULL" and "line = assignment t (d # v) @ rest" and "is_digit d"
  shows "parse_config_line line cfg =
           cbind (copy_value line (length (key_name t) + 3) 0 20 (replicate 20 0))
             (\<lambda>digits. cbind (convert_value digits 0)
               (\<lambda>r. case r of None \<Rightarrow> Inr (False, cfg)
                  | Some x \<Rightarrow> if x = 0 then Inr (False, cfg) else Inr (True, set_field t x cfg)))"
proof -
  let ?k = "key_name t"
  obtain m where m: "MAX_FIELD_LENGTH - length ?k = Suc m"
    using key_name_plain(3) [of t] by (cases "MAX_FIELD_LENGTH - length ?k") (auto simp: MAX_FIELD_LENGTH_def)
  have name: "field_name_loop line (replicate MAX_FIELD_LENGTH 0) 0 = Inr (Some (?k @ 0 # replicate m 0, length ?k))"
    using field_name_run [of ?k line "[]" 32 "61 # 32 # d # v @ rest" "replicate MAX_FIELD_LENGTH 0" MAX_FIELD_LENGTH]
      key_name_plain(1,3) [of t] assms(2) m
    by (simp add: assignment_def list_all_iff MAX_FIELD_LENGTH_def)
  obtain e where e: "validate_field_name (?k @ 0 # replicate m 0) cfg_entries = Inr (Some e)"
      "\<And>x. config_write cfg (entry_offset e) x = set_field t x cfg"
    using key_lookup [OF assms(1), of "replicate m 0"] by blast
  have at: "rd line (length ?k + 1) = Inr 61" "rd line (length ?k + 2) = Inr 32" "rd line (length ?k + 3) = Inr d"
    by (simp_all add: assms(2) assignment_def rd_def nth_append numeral_2_eq_2 numeral_3_eq_3)
  have "\<not> (sint d < 48 \<or> 57 < sint d)" using assms(3) by (simp add: is_digit_def)
  moreover have "\<not> length ?k < 2" using key_name_plain(2) [OF assms(1)] by simp
  ultimately show ?thesis
    unfolding parse_config_line_def name cbind_Inr option.case prod.case MAX_VALUE_LENGTH_def
    using at e
    by simp (intro cbind_cong [OF refl], simp split: option.split)
qed

lemma dec_digits_all: "list_all is_digit (dec_digits n)"
  by (simp add: list_all_iff dec_digits_are_digits)

lemma digits_plain:
  assumes "list_all is_digit ds"
  shows "0 \<notin> set ds" and "10 \<notin> set ds"
  using assms by (auto simp: list_all_iff is_digit_def)

lemma assignment_digits:
  assumes "t \<noteq> CONFIG_NULL" and "list_all is_digit ds" and "ds \<noteq> []" and "length ds < 20"
  shows "parse_config_line (assignment t ds @ 10 # 0 # rest) cfg =
           Inr (if of_nat (dec_value ds) = (0 :: size_t) then (False, cfg)
                else (True, set_field t (of_nat (dec_value ds)) cfg))"
proof -
  obtain d v where ds: "ds = d # v" using assms(3) by (cases ds) auto
  have line: "assignment t (d # v) @ 10 # 0 # rest = (key_name t @ [32, 61, 32]) @ ds @ 10 # 0 # rest"
    by (simp add: assignment_def ds)
  obtain m where m: "20 - length ds = Suc m" using assms(4) by (cases "20 - length ds") auto
  have "copy_value (assignment t (d # v) @ 10 # 0 # rest) (length (key_name t) + 3) 0 20 (replicate 20 0)
      = Inr (ds @ 0 # replicate m 0)"
    using copy_value_run [OF digits_plain [OF assms(2)] line, of "replicate 20 0" "[]" 20] assms(4) m
    by (simp add: numeral_3_eq_3)
  then show ?thesis
    using assignment_prefix [OF assms(1) refl, of d v "10 # 0 # rest" cfg] assms(2)
      convert_digits [OF assms(2), of "replicate m 0"]
    by (simp add: ds)
qed

lemma line_parsed:
  assumes "line_ok l"
  shows "parse_config_line (line_bytes l @ 10 # 0 # rest) cfg = Inr (True, apply_line l cfg)"
proof (cases l)
  case Blank
  have "field_name_loop (10 # 0 # rest) (replicate MAX_FIELD_LENGTH 0) 0 = Inr (Some (replicate MAX_FIELD_LENGTH 0, 0))"
    by (subst field_name_loop.simps) (simp add: MAX_FIELD_LENGTH_def rd_def)
  then show ?thesis by (simp add: Blank parse_config_line_def)
next
  case (Setting t n)
  with assms have n: "0 < n" "n < 10 ^ 19" and t: "t \<noteq> CONFIG_NULL" by simp_all
  then have "length (dec_digits n) < 20" using dec_digits_short [of n 19] by simp
  moreover have "(of_nat n :: size_t) \<noteq> 0"
    using n by (simp add: word_of_nat_eq_0_iff nat_dvd_not_less)
  ultimately show ?thesis
    using assignment_digits [OF t dec_digits_all, of n rest cfg] by (simp add: Setting dec_value_digits)
qed

lemma line_bytes_short:
  assumes "line_ok l"
  shows "10 \<notin> set (line_bytes l) \<and> Suc (length (line_bytes l)) < MAX_FIELD_LENGTH"
proof (cases l)
  case (Setting t n)
  moreover have "length (dec_digits n) \<le> 19" using assms Setting by (intro dec_digits_short) simp_all
  ultimately show ?thesis
    using key_name_plain(1,3) [of t] digits_plain(2) [OF dec_digits_all, of n]
    by (auto simp: assignment_def MAX_FIELD_LENGTH_def list_all_iff)
qed (simp add: MAX_FIELD_LENGTH_def)

text \<open>Any number of good lines, whatever the buffer holds.\<close>

lemma lines_parsed:
  "list_all line_ok ls \<Longrightarrow>
     \<exists>line'. parse_lines line (file_bytes ls @ remainder) cfg = parse_lines line' remainder (fold apply_line ls cfg)"
proof (induction ls arbitrary: line cfg)
  case (Cons l ls)
  have l: "line_ok l" and ls: "list_all line_ok ls" using Cons.prems by simp_all
  let ?line = "line_bytes l @ 10 # 0 # drop (length (line_bytes l) + 2) line"
  have "c_fgets line MAX_FIELD_LENGTH (line_bytes l @ 10 # file_bytes ls @ remainder) = Some (?line, file_bytes ls @ remainder)"
    using line_bytes_short [OF l] by (simp add: c_fgets_line)
  then have "parse_lines line (file_bytes (l # ls) @ remainder) cfg =
      parse_lines ?line (file_bytes ls @ remainder) (apply_line l cfg)"
    by (subst parse_lines.simps) (simp add: line_parsed [OF l])
  with Cons.IH [OF ls, of ?line "apply_line l cfg"] show ?case by auto
qed auto

lemma parse_lines_end [simp]: "parse_lines line [] cfg = Inr (True, cfg)"
  by (subst parse_lines.simps) (simp add: c_fgets_def)

text \<open>A line that stops the parser, after good ones.\<close>

lemma bad_line:
  assumes "list_all line_ok ls" and "10 \<notin> set l" and "Suc (length l) < MAX_FIELD_LENGTH"
    and "\<And>rest. parse_config_line (l @ 10 # 0 # rest) (fold apply_line ls cfg) = r"
    and "\<forall>cfg'. r \<noteq> Inr (True, cfg')"
  shows "parse_configuration True (Some (file_bytes ls @ l @ 10 # remainder)) cfg = r"
proof -
  obtain line where "parse_configuration True (Some (file_bytes ls @ l @ 10 # remainder)) cfg =
      parse_lines line (l @ 10 # remainder) (fold apply_line ls cfg)"
    using lines_parsed [OF assms(1), of "replicate MAX_FIELD_LENGTH 0" "l @ 10 # remainder" cfg]
    by (auto simp: parse_configuration_def)
  also have "\<dots> = r"
    using assms(5) by (subst parse_lines.simps)
      (cases r, auto simp: c_fgets_line [OF assms(2,3)] assms(4))
  finally show ?thesis .
qed

lemma settings_in_file:
  assumes "list_all line_ok ls" and "map_of (rev (concat (map line_setting ls))) t = Some n"
  shows "0 < n \<and> n < 10 ^ 19"
proof -
  have "(t, n) \<in> set (concat (map line_setting ls))" using map_of_SomeD [OF assms(2)] by simp
  then obtain l where l: "l \<in> set ls" "(t, n) \<in> set (line_setting l)" by auto
  from l(2) have "l = Setting t n" by (cases l) simp_all
  with l(1) assms(1) show ?thesis by (auto simp: list_all_iff)
qed

text \<open>Start-up on a good file: the number of cores is the machine's whatever the file says.\<close>

lemma initialize_run:
  assumes "list_all line_ok ls" and "sysctl (- 1) = (status, cores)" and "0 \<le> status" and "0 \<le> cores"
  shows "initialize_configuration True (Some (file_bytes ls)) sysctl cfg =
           Inr (True, (fold apply_line ls cfg)\<lparr>num_cores := word_of_int cores\<rparr>)"
proof -
  have "parse_configuration True (Some (file_bytes ls)) cfg = Inr (True, fold apply_line ls cfg)"
    using lines_parsed [OF assms(1), of "replicate MAX_FIELD_LENGTH 0" "[]" cfg]
    by (auto simp: parse_configuration_def)
  with assms(2-4) show ?thesis by (simp add: initialize_configuration_def)
qed

section \<open>Properties\<close>

lemma fetch_by_enum_field:
  "t \<noteq> CONFIG_NULL \<Longrightarrow> fetch_configuration_by_enum cfg t v = Inr (True, config_field cfg t)"
  using key_lookup [of t "[]"] by (auto simp: fetch_configuration_by_enum_def)

definition sample_lines :: "config_line list" where
  "sample_lines = [Setting CONFIG_PORT 80, Blank, Setting CONFIG_PORT 8080]"

lemma sample_lines_ok: "list_all line_ok sample_lines"
  by (simp add: sample_lines_def)

text \<open>
  \<open>configuration/release.cfg\<close>, the file the debug build reads: a rendered file, and its
  settings are the defaults.
\<close>

definition release_cfg :: "byte list" where
  "release_cfg = map of_char (''max_connections = 4096'' @ [CHR 0x0A] @ ''port = 8888'' @ [CHR 0x0A, CHR 0x0A])"

definition release_lines :: "config_line list" where
  "release_lines = [Setting CONFIG_MAX_CONNECTIONS 4096, Setting CONFIG_PORT 8888, Blank]"

lemma release_lines_ok: "list_all line_ok release_lines"
  by (simp add: release_lines_def)

lemma release_cfg_rendered: "release_cfg = file_bytes release_lines"
  by (simp add: release_cfg_def release_lines_def assignment_def cfg_names dec_digits.simps digit_def)

lemma release_configuration: "parse_configuration True (Some release_cfg) default_config = Inr (True, default_config)"
  using lines_parsed [OF release_lines_ok, of "replicate MAX_FIELD_LENGTH 0" "[]" default_config]
  by (auto simp: release_cfg_rendered parse_configuration_def) (simp add: release_lines_def default_config_def)

text \<open>
  C20: A configuration file of settings \<open>name = number\<close> (numbers from 1 to 10^19 - 1) and
  blank lines, in any order and of any length, is accepted, and every field then fetches as
  the last value the file gives it, or as it was before when the file does not mention it.
\<close>

theorem configuration_roundtrip:
  assumes "list_all line_ok ls" and "t \<noteq> CONFIG_NULL"
  shows "\<exists>cfg'. parse_configuration True (Some (file_bytes ls)) cfg = Inr (True, cfg') \<and>
           fetch_configuration_by_enum cfg' t v =
             Inr (True, case map_of (rev (concat (map line_setting ls))) t of
                          None \<Rightarrow> config_field cfg t | Some n \<Rightarrow> of_nat n)"
proof (intro exI conjI)
  show "parse_configuration True (Some (file_bytes ls)) cfg = Inr (True, fold apply_line ls cfg)"
    using lines_parsed [OF assms(1), of "replicate MAX_FIELD_LENGTH 0" "[]" cfg]
    by (auto simp: parse_configuration_def)
  show "fetch_configuration_by_enum (fold apply_line ls cfg) t v =
      Inr (True, case map_of (rev (concat (map line_setting ls))) t of
                   None \<Rightarrow> config_field cfg t | Some n \<Rightarrow> of_nat n)"
    by (simp add: fetch_by_enum_field assms(2) config_field_fold)
qed

theorem configuration_roundtrip_witness:
  "\<exists>cfg'. parse_configuration True (Some (file_bytes sample_lines)) default_config = Inr (True, cfg') \<and>
     fetch_configuration_by_enum cfg' CONFIG_PORT 0 =
       Inr (True, case map_of (rev (concat (map line_setting sample_lines))) CONFIG_PORT of
                    None \<Rightarrow> config_field default_config CONFIG_PORT | Some n \<Rightarrow> of_nat n)"
  by (rule configuration_roundtrip [OF sample_lines_ok]) simp

text \<open>
  A setting line that ends in \<open>\r\n\<close> stops the parser with false: the carriage return is
  taken as part of the value. The settings of the lines before it stay in force, so a failed
  parse does not leave the defaults.
\<close>

theorem crlf_setting_refused:
  assumes "list_all line_ok ls" and "t \<noteq> CONFIG_NULL" and "list_all is_digit ds" and "ds \<noteq> []"
    and "length ds < 19"
  shows "parse_configuration True (Some (file_bytes ls @ (assignment t ds @ [13]) @ 10 # remainder)) cfg =
           Inr (False, fold apply_line ls cfg)"
proof (rule bad_line [OF assms(1)])
  obtain d v where ds: "ds = d # v" using assms(4) by (cases ds) auto
  let ?cr = "ds @ [13]"
  have plain: "0 \<notin> set ?cr" "10 \<notin> set ?cr" using digits_plain [OF assms(3)] by simp_all
  show "10 \<notin> set (assignment t ds @ [13])"
    using digits_plain [OF assms(3)] key_name_plain(1) [of t] by (auto simp: assignment_def list_all_iff)
  show "Suc (length (assignment t ds @ [13])) < MAX_FIELD_LENGTH"
    using assms(5) key_name_plain(3) [of t] by (simp add: assignment_def MAX_FIELD_LENGTH_def)
  fix rest
  have line: "assignment t (d # v) @ 13 # 10 # 0 # rest = (key_name t @ [32, 61, 32]) @ ?cr @ 10 # 0 # rest"
    by (simp add: assignment_def ds)
  have "copy_value (assignment t (d # v) @ 13 # 10 # 0 # rest) (length (key_name t) + 3) 0 20 (replicate 20 0)
      = Inr (?cr @ replicate (19 - length ds) 0)"
    using copy_value_run [OF plain line, of "replicate 20 0" "[]" 20] assms(5) by (simp add: numeral_3_eq_3)
  moreover have "convert_value (?cr @ replicate (19 - length ds) 0) 0 = Inr None"
    using assms(3) convert_value_run [of ds "13 # replicate (19 - length ds) 0" 0] by simp
  ultimately show "parse_config_line ((assignment t ds @ [13]) @ 10 # 0 # rest) (fold apply_line ls cfg) =
      Inr (False, fold apply_line ls cfg)"
    using assignment_prefix [OF assms(2) refl, of d v "13 # 10 # 0 # rest" "fold apply_line ls cfg"] assms(3)
    by (simp add: ds)
qed simp

theorem crlf_setting_refused_witness:
  "parse_configuration True (Some (file_bytes sample_lines @ (assignment CONFIG_NUM_CORES [52] @ [13]) @ 10 # []))
     default_config = Inr (False, fold apply_line sample_lines default_config)"
  by (rule crlf_setting_refused [OF sample_lines_ok]) (simp_all add: is_digit_def)

text \<open>
  A value of 20 digits or more, which the largest \<open>size_t\<close> already has, overruns
  \<open>field_value_cache\<close>: the cache is full without a NUL and the conversion reads behind it.
\<close>

theorem long_value_overflow:
  assumes "list_all line_ok ls" and "t \<noteq> CONFIG_NULL" and "list_all is_digit ds"
    and "20 \<le> length ds" and "length ds < 150"
  shows "parse_configuration True (Some (file_bytes ls @ assignment t ds @ 10 # remainder)) cfg = Inl Out_Of_Bounds"
proof (rule bad_line [OF assms(1)])
  obtain d v where ds: "ds = d # v" using assms(4) by (cases ds) auto
  have first: "list_all is_digit (take 20 ds)" using assms(3) by (auto simp: list_all_iff dest: in_set_takeD)
  show "10 \<notin> set (assignment t ds)"
    using digits_plain [OF assms(3)] key_name_plain(1) [of t] by (auto simp: assignment_def list_all_iff)
  show "Suc (length (assignment t ds)) < MAX_FIELD_LENGTH"
    using assms(5) key_name_plain(3) [of t] by (simp add: assignment_def MAX_FIELD_LENGTH_def)
  fix rest
  have line: "assignment t (d # v) @ 10 # 0 # rest =
      (key_name t @ [32, 61, 32]) @ take 20 ds @ drop 20 ds @ 10 # 0 # rest"
    by (simp add: assignment_def ds)
  have "copy_value (assignment t (d # v) @ 10 # 0 # rest) (length (key_name t) + 3) 0 20 (replicate 20 0)
      = Inr (take 20 ds)"
    using copy_value_full [OF digits_plain [OF first] line, of "replicate 20 0" "[]" 20] assms(4)
    by (simp add: numeral_3_eq_3)
  moreover have "convert_value (take 20 ds) 0 = Inl Out_Of_Bounds"
    using convert_value_run [OF first, of "[]" 0] by simp
  ultimately show "parse_config_line (assignment t ds @ 10 # 0 # rest) (fold apply_line ls cfg) = Inl Out_Of_Bounds"
    using assignment_prefix [OF assms(2) refl, of d v "10 # 0 # rest" "fold apply_line ls cfg"] assms(3)
    by (simp add: ds)
qed simp

theorem long_value_overflow_witness:
  "parse_configuration True (Some (file_bytes sample_lines @ assignment CONFIG_PORT (replicate 20 49) @ 10 # []))
     default_config = Inl Out_Of_Bounds"
  by (rule long_value_overflow [OF sample_lines_ok]) (simp_all add: list_all_iff is_digit_def)

text \<open>
  The two fetches agree. Every field is found under its name and under its enumerator with
  the same value; a name that is not in the table is refused and leaves the out cell alone.
\<close>

lemma configuration_fetches_agree:
  assumes "0 \<notin> set name"
  shows "fetch_configuration_by_name cfg (Some (name @ 0 # rest)) v =
           (case filter (\<lambda>t. key_name t = name) [CONFIG_MAX_CONNECTIONS, CONFIG_PORT, CONFIG_NUM_CORES, CONFIG_MAX_NUM_ROUTES] of
              [] \<Rightarrow> Inr (False, v)
            | t # _ \<Rightarrow> fetch_configuration_by_enum cfg t v)"
  by (auto simp: fetch_configuration_by_name_def name_lookup [OF assms] fetch_by_enum_field)
     (simp_all add: cfg_entries_def config_read_def cfg_names)

end
