(* ===== verification/Config_Reference.thy ===== *)
theory Config_Reference
  imports Config_Properties
begin

text \<open>
  A reference reader of the configuration file: each line is skipped, refused, assigns a value
  to a field, or overruns the value cache (\<open>config_line_reference\<close>), and a file is the fold of
  its lines (\<open>config_reference\<close>). The parser's three character loops compute the same on
  every file of lines that fit the buffer, good or bad.
\<close>

section \<open>The reference\<close>

datatype line_outcome = Skip | Reject | Overrun | Assign config_values size_t

definition config_keys :: "config_values list" where
  "config_keys = [CONFIG_MAX_CONNECTIONS, CONFIG_PORT, CONFIG_NUM_CORES, CONFIG_MAX_NUM_ROUTES]"

definition key_of :: "byte list \<Rightarrow> config_values option" where
  "key_of name = find (\<lambda>t. key_name t = name) config_keys"

definition value_reference :: "config_values \<Rightarrow> byte list \<Rightarrow> line_outcome" where
  "value_reference t v =
     (if \<not> list_all is_digit (take MAX_VALUE_LENGTH v) then Reject
      else if MAX_VALUE_LENGTH \<le> length v then Overrun
      else if (of_nat (dec_value v) :: size_t) = 0 then Reject
      else Assign t (of_nat (dec_value v)))"

definition name_part :: "byte list \<Rightarrow> byte list" where
  "name_part l = takeWhile (\<lambda>c. c \<noteq> 32 \<and> c \<noteq> 13) l"

definition config_line_reference :: "byte list \<Rightarrow> line_outcome" where
  "config_line_reference l =
     (if length (name_part l) < 2 then Skip
      else case key_of (name_part l) of
             None \<Rightarrow> Reject
           | Some t \<Rightarrow>
               (case drop (Suc (length (name_part l))) l of
                  a # b # d # v \<Rightarrow> if a = 61 \<and> b = 32 \<and> is_digit d then value_reference t (d # v) else Reject
                | _ \<Rightarrow> Reject))"

fun line_result :: "line_outcome \<Rightarrow> configuration \<Rightarrow> fault + (bool \<times> configuration)" where
  "line_result Skip cfg = Inr (True, cfg)"
| "line_result Reject cfg = Inr (False, cfg)"
| "line_result Overrun cfg = Inl Out_Of_Bounds"
| "line_result (Assign t v) cfg = Inr (True, set_field t v cfg)"

fun config_reference :: "byte list list \<Rightarrow> configuration \<Rightarrow> fault + (bool \<times> configuration)" where
  "config_reference [] cfg = Inr (True, cfg)"
| "config_reference (l # ls) cfg =
     cbind (line_result (config_line_reference l) cfg)
       (\<lambda>(ok, cfg'). if ok then config_reference ls cfg' else Inr (False, cfg'))"

section \<open>One line\<close>

text \<open>
  What the buffer holds: the line, then its newline and a NUL, or, for the last line of a file
  without a final newline, the NUL alone; then the name must end inside the line.
\<close>

definition buffered :: "byte list \<Rightarrow> byte list \<Rightarrow> bool" where
  "buffered l line \<longleftrightarrow>
     (\<exists>rest. line = l @ 10 # 0 # rest) \<or> (\<exists>rest. line = l @ 0 # rest \<and> (32 \<in> set l \<or> 13 \<in> set l))"

definition text_line :: "byte list \<Rightarrow> bool" where
  "text_line l \<longleftrightarrow> 0 \<notin> set l \<and> 10 \<notin> set l \<and> length l < 199"

lemma buffered_end:
  assumes "buffered l line"
  obtains e rest where "line = l @ e # rest" and "e = 0 \<or> e = 10"
  using assms by (auto simp: buffered_def)

text \<open>The name, the byte that ends it, and what follows.\<close>

lemma name_split:
  assumes "buffered l line" and "text_line l"
  obtains d e rest where "line = name_part l @ d # drop (Suc (length (name_part l))) l @ e # rest"
    and "d = 32 \<or> d = 10 \<or> d = 13" and "e = 0 \<or> e = 10"
proof -
  let ?n = "name_part l"
  let ?t = "dropWhile (\<lambda>c. c \<noteq> 32 \<and> c \<noteq> 13) l"
  have l: "l = ?n @ ?t" by (simp add: name_part_def)
  show thesis
  proof (cases ?t)
    case Nil
    then have "l = ?n" using l by (metis append_Nil2)
    moreover have "\<exists>rest. line = l @ 10 # 0 # rest"
      using assms(1) Nil by (auto simp: buffered_def dropWhile_eq_Nil_conv)
    ultimately obtain rest where "line = ?n @ 10 # 0 # rest" by metis
    moreover have "drop (Suc (length ?n)) l = []" using \<open>l = ?n\<close> by (metis drop_all le_SucI order_refl)
    ultimately show thesis by (intro that [of 10 0 rest]) simp_all
  next
    case (Cons d t)
    then have "d = 32 \<or> d = 13" using hd_dropWhile [of "\<lambda>c. c \<noteq> 32 \<and> c \<noteq> 13" l] by auto
    moreover have "l = ?n @ d # t" using l Cons by metis
    moreover from this have "drop (Suc (length ?n)) l = t" by (metis append_eq_conv_conj append.assoc append_Cons append_Nil length_append_singleton)
    moreover obtain e rest where "line = l @ e # rest" "e = 0 \<or> e = 10" using buffered_end [OF assms(1)] .
    ultimately show thesis by (intro that [of d e rest]) (metis append.assoc append_Cons, auto)
  qed
qed

lemma name_part_plain:
  assumes "text_line l"
  shows "list_all (\<lambda>c. c \<noteq> 32 \<and> c \<noteq> 10 \<and> c \<noteq> 13) (name_part l)" and "0 \<notin> set (name_part l)"
    and "length (name_part l) < 199"
proof -
  show "list_all (\<lambda>c. c \<noteq> 32 \<and> c \<noteq> 10 \<and> c \<noteq> 13) (name_part l)" "0 \<notin> set (name_part l)"
    using assms by (auto simp: name_part_def text_line_def list_all_iff dest: set_takeWhileD)
  have "length (name_part l) \<le> length l" by (simp add: name_part_def length_takeWhile_le)
  then show "length (name_part l) < 199" using assms by (simp add: text_line_def)
qed

lemma key_lookup_total:
  assumes "0 \<notin> set name"
  shows "validate_field_name (name @ 0 # rest) cfg_entries =
           Inr (map_option (\<lambda>t. the (find (\<lambda>e. entry_type e = t) cfg_entries)) (key_of name))"
  unfolding name_lookup [OF assms]
  by (auto simp: key_of_def config_keys_def cfg_entries_def)

lemma entry_writes:
  "t \<in> set config_keys \<Longrightarrow>
     config_write cfg (entry_offset (the (find (\<lambda>e. entry_type e = t) cfg_entries))) v = set_field t v cfg"
  by (auto simp: config_keys_def cfg_entries_def config_write_def)

lemma key_of_known: "key_of name = Some t \<Longrightarrow> t \<in> set config_keys"
  by (auto simp: key_of_def config_keys_def split: if_splits)

lemma convert_stops:
  "\<not> list_all is_digit w \<Longrightarrow> 0 \<notin> set w \<Longrightarrow> convert_value (w @ rest) acc = Inr None"
  by (induction w arbitrary: acc) (auto simp: is_digit_def)

lemma value_loops:
  assumes "line = pre @ v @ e # rest" and "e = 0 \<or> e = 10" and "0 \<notin> set v" and "10 \<notin> set v"
    and "t \<in> set config_keys"
  shows "cbind (copy_value line (length pre) 0 MAX_VALUE_LENGTH (replicate MAX_VALUE_LENGTH 0))
           (\<lambda>digits. cbind (convert_value digits 0)
             (\<lambda>r. case r of None \<Rightarrow> Inr (False, cfg)
                | Some x \<Rightarrow> if x = 0 then Inr (False, cfg) else Inr (True, set_field t x cfg)))
         = line_result (value_reference t v) cfg"
proof (cases "length v < 20")
  case True
  then obtain m where m: "20 - length v = Suc m" by (cases "20 - length v") auto
  have "copy_value line (length pre) 0 20 (replicate 20 0) = Inr (v @ 0 # replicate m 0)"
    using copy_value_run [OF assms(3,4,1,2), of "replicate 20 0" "[]" 20] True m by simp
  then show ?thesis
    using True convert_digits [of v "replicate m 0"] convert_stops [of v "0 # replicate m 0" 0] assms(3)
    by (auto simp: MAX_VALUE_LENGTH_def value_reference_def)
next
  case False
  have plain: "0 \<notin> set (take 20 v)" "10 \<notin> set (take 20 v)" using assms(3,4) by (auto dest: in_set_takeD)
  have "line = pre @ take 20 v @ drop 20 v @ e # rest" using assms(1) by simp
  from copy_value_full [OF plain this, of "replicate 20 0" "[]" 20] False
  have "copy_value line (length pre) 0 20 (replicate 20 0) = Inr (take 20 v)" by simp
  then show ?thesis
    using False convert_value_run [of "take 20 v" "[]" 0] convert_stops [of "take 20 v" "[]" 0] plain(1)
    by (auto simp: MAX_VALUE_LENGTH_def value_reference_def)
qed

text \<open>The three bytes behind the name are read inside the line, or the line is refused.\<close>

lemma assignment_check:
  assumes "line = pre @ after @ e # rest" and "e = 0 \<or> e = 10"
  shows "cbind (rd line (length pre)) (\<lambda>c. if c \<noteq> 61 then Inr (False, cfg)
         else cbind (rd line (length pre + 1)) (\<lambda>c. if c \<noteq> 32 then Inr (False, cfg)
         else cbind (rd line (length pre + 2)) (\<lambda>c. if sint c < 48 \<or> sint c > 57 then Inr (False, cfg) else r))) =
         (case after of
            a # b # d # v \<Rightarrow> if a = 61 \<and> b = 32 \<and> is_digit d then r else Inr (False, cfg)
          | _ \<Rightarrow> Inr (False, cfg))"
proof -
  have at: "rd line (length pre + i) = Inr (after ! i)" if "i < length after" for i
    using that assms(1) by (simp add: rd_def nth_append)
  have at_end: "rd line (length pre + length after) = Inr e"
    using assms(1) by (simp add: rd_def nth_append)
  consider "after = []" | a where "after = [a]" | a b where "after = [a, b]" | a b d v where "after = a # b # d # v"
    by (cases after; cases "tl after"; cases "tl (tl after)") auto
  then show ?thesis
  proof cases
    case 1
    then show ?thesis using at_end assms(2) by auto
  next
    case (2 a)
    then show ?thesis using at [of 0] at_end assms(2) by auto
  next
    case (3 a b)
    then show ?thesis using at [of 0] at [of 1] at_end assms(2) by (auto simp: numeral_2_eq_2)
  next
    case (4 a b d v)
    then show ?thesis using at [of 0] at [of 1] at [of 2] by (auto simp: is_digit_def)
  qed
qed

text \<open>The name is known: what is assigned to its field depends on the rest of the line.\<close>

lemma known_field:
  assumes line: "line = name_part l @ d # after @ e # rest" and e: "e = 0 \<or> e = 10"
    and chars: "0 \<notin> set after" "10 \<notin> set after"
    and known: "key_of (name_part l) = Some t" and long: "\<not> length (name_part l) < 2"
    and name: "field_name_loop line (replicate MAX_FIELD_LENGTH 0) 0
                 = Inr (Some (name_part l @ 0 # zeros, length (name_part l)))"
    and plain: "0 \<notin> set (name_part l)" and after: "after = drop (Suc (length (name_part l))) l"
  shows "parse_config_line line cfg = line_result (config_line_reference l) cfg"
proof -
  let ?n = "name_part l"
  have line': "line = (?n @ [d]) @ after @ e # rest" using line by simp
  let ?read = "cbind (copy_value line (length ?n + 3) 0 MAX_VALUE_LENGTH (replicate MAX_VALUE_LENGTH 0))
       (\<lambda>digits. cbind (convert_value digits 0)
         (\<lambda>r. case r of None \<Rightarrow> Inr (False, cfg)
            | Some x \<Rightarrow> if x = 0 then Inr (False, cfg) else Inr (True, set_field t x cfg)))"
  have "parse_config_line line cfg =
      (case after of a # b # c # v \<Rightarrow> if a = 61 \<and> b = 32 \<and> is_digit c then ?read else Inr (False, cfg)
       | _ \<Rightarrow> Inr (False, cfg))"
    unfolding assignment_check [OF line' e, of cfg ?read, symmetric]
    using long known
    by (simp add: parse_config_line_def name key_lookup_total [OF plain] numeral_2_eq_2 numeral_3_eq_3
          entry_writes [OF key_of_known [OF known]] cong: if_cong option.case_cong)
  also have "\<dots> = line_result (config_line_reference l) cfg"
  proof (cases "\<exists>d v. after = 61 # 32 # d # v \<and> is_digit d")
    case True
    then obtain c v where v: "after = 61 # 32 # c # v" "is_digit c" by blast
    have "?read = line_result (value_reference t (c # v)) cfg"
      using value_loops [of line "?n @ [d, 61, 32]" "c # v" e rest t cfg] e chars v line key_of_known [OF known]
      by (simp add: numeral_3_eq_3)
    with v long known after show ?thesis by (simp add: config_line_reference_def)
  next
    case no: False
    then show ?thesis using long known after
      by (auto simp: config_line_reference_def split: list.split)
  qed
  finally show ?thesis .
qed

lemma config_line_equivalent:
  assumes "buffered l line" and "text_line l"
  shows "parse_config_line line cfg = line_result (config_line_reference l) cfg"
proof -
  let ?n = "name_part l"
  let ?after = "drop (Suc (length ?n)) l"
  obtain d e rest where line: "line = ?n @ d # ?after @ e # rest"
      and d: "d = 32 \<or> d = 10 \<or> d = 13" and e: "e = 0 \<or> e = 10"
    using name_split [OF assms] .
  note plain = name_part_plain [OF assms(2)]
  obtain m where m: "MAX_FIELD_LENGTH - length ?n = Suc m"
    using plain(3) by (cases "MAX_FIELD_LENGTH - length ?n") (auto simp: MAX_FIELD_LENGTH_def)
  have name: "field_name_loop line (replicate MAX_FIELD_LENGTH 0) 0 = Inr (Some (?n @ 0 # replicate m 0, length ?n))"
    using field_name_run [OF plain(1), of line "[]" d "?after @ e # rest" "replicate MAX_FIELD_LENGTH 0" MAX_FIELD_LENGTH]
      line d m plain(3) by (simp add: MAX_FIELD_LENGTH_def)
  show ?thesis
  proof (cases "length ?n < 2")
    case True
    then show ?thesis by (simp add: parse_config_line_def name config_line_reference_def)
  next
    case False
    show ?thesis
    proof (cases "key_of ?n")
      case None
      with False show ?thesis
        by (simp add: parse_config_line_def name config_line_reference_def key_lookup_total [OF plain(2)])
    next
      case (Some t)
      have "0 \<notin> set ?after" "10 \<notin> set ?after"
        using assms(2) by (auto simp: text_line_def dest: in_set_dropD)
      then show ?thesis by (rule known_field [OF line e _ _ Some False name plain(2) refl])
    qed
  qed
qed

section \<open>The file\<close>

lemma line_chunk_rest: "10 \<notin> set l \<Longrightarrow> length l < n \<Longrightarrow> line_chunk n l = l"
proof (induction l arbitrary: n)
  case (Cons c l)
  then show ?case by (cases n) auto
qed simp

definition unlines :: "byte list list \<Rightarrow> byte list" where
  "unlines ls = concat (map (\<lambda>l. l @ [10]) ls)"

lemma unlines_simps [simp]: "unlines [] = []" "unlines (l # ls) = l @ 10 # unlines ls"
  by (simp_all add: unlines_def)

lemma parse_lines_equivalent:
  assumes "list_all text_line ls" and "text_line l" and "l = [] \<or> 32 \<in> set l \<or> 13 \<in> set l"
  shows "parse_lines line (unlines ls @ l) cfg = config_reference (ls @ (if l = [] then [] else [l])) cfg"
  using assms(1)
proof (induction ls arbitrary: line cfg)
  case Nil
  show ?case
  proof (cases "l = []")
    case False
    have "line_chunk 199 l = l" using assms(2) by (simp add: line_chunk_rest text_line_def)
    then have "c_fgets line MAX_FIELD_LENGTH l = Some (l @ 0 # drop (Suc (length l)) line, [])"
      using False by (simp add: c_fgets_def MAX_FIELD_LENGTH_def)
    moreover have "buffered l (l @ 0 # drop (Suc (length l)) line)"
      using False assms(3) by (auto simp: buffered_def)
    ultimately show ?thesis
      using False by (subst parse_lines.simps) (simp add: config_line_equivalent [OF _ assms(2)] cbind_def split: sum.split prod.split)
  qed simp
next
  case (Cons l' ls)
  have l': "text_line l'" using Cons.prems by simp
  then have "c_fgets line MAX_FIELD_LENGTH (l' @ 10 # unlines ls @ l) =
      Some (l' @ 10 # 0 # drop (length l' + 2) line, unlines ls @ l)"
    by (simp add: c_fgets_line text_line_def MAX_FIELD_LENGTH_def)
  moreover have "buffered l' (l' @ 10 # 0 # drop (length l' + 2) line)" by (auto simp: buffered_def)
  ultimately show ?case
    using Cons.prems Cons.IH
    by (subst parse_lines.simps, cases "l = []")
       (simp_all add: config_line_equivalent [OF _ l'] cbind_def split: sum.split prod.split)
qed

section \<open>Property\<close>

text \<open>
  C9: The configuration parser equals the line-by-line reference. On every file of lines shorter
  than 199 characters, well-formed or not, whose last line may lack the newline if its name ends
  in it, the parser assigns, skips and refuses the lines the reference assigns, skips and
  refuses, in order, and overruns the value cache exactly where the reference says so: a known
  name, \<open>" = "\<close> and 20 digits or more. A refused line keeps the assignments before it.
\<close>

theorem configuration_by_lines:
  assumes "list_all text_line ls" and "text_line l" and "l = [] \<or> 32 \<in> set l \<or> 13 \<in> set l"
  shows "parse_configuration True (Some (unlines ls @ l)) cfg =
           config_reference (ls @ (if l = [] then [] else [l])) cfg"
  using parse_lines_equivalent [OF assms] by (simp add: parse_configuration_def)

text \<open>A setting, then \<open>port = 1x\<close> as the last line without its newline.\<close>

theorem configuration_by_lines_witness:
  "parse_configuration True
     (Some (unlines [line_bytes (Setting CONFIG_NUM_CORES 4)] @ assignment CONFIG_PORT [49, 120])) default_config
   = Inr (False, default_config\<lparr>num_cores := 4\<rparr>)"
proof -
  have digits: "dec_digits 4 = [52]" by (simp add: dec_digits.simps digit_def)
  have "parse_configuration True
      (Some (unlines [line_bytes (Setting CONFIG_NUM_CORES 4)] @ assignment CONFIG_PORT [49, 120])) default_config
    = config_reference ([line_bytes (Setting CONFIG_NUM_CORES 4)] @
        (if assignment CONFIG_PORT [49, 120] = [] then [] else [assignment CONFIG_PORT [49, 120]])) default_config"
    by (rule configuration_by_lines)
       (simp_all add: text_line_def assignment_def cfg_names digits)
  also have "\<dots> = Inr (False, default_config\<lparr>num_cores := 4\<rparr>)"
    by (simp add: config_line_reference_def name_part_def assignment_def cfg_names digits key_of_def
          config_keys_def value_reference_def is_digit_def dec_value_def MAX_VALUE_LENGTH_def)
  finally show ?thesis .
qed

end
