(* ===== verification/Task_Fifo.thy ===== *)
theory Task_Fifo
  imports Task_Queue
begin

text \<open>
  The task queue as a first-in first-out queue. \<open>fifo\<close> is the contract a producer and a
  consumer rely on: an append, a removal of the oldest element, and one case without a
  promise, a removal that leaves exactly one element. \<open>run_spec\<close> runs a schedule of
  both on plain lists, and is undefined when the schedule reaches that case; every schedule
  it is defined on behaves the same on any queue that meets the contract. The interpretation
  \<open>tasks\<close> is on the heap model of the code.
\<close>

section \<open>The operations under the lock, case by case\<close>

lemma contents_length: "chain q s as \<Longrightarrow> length (contents q) = length as"
  by (simp add: contents_chain)

lemma enqueue_ok:
  "queue_ok q \<Longrightarrow>
     \<exists>q'. enqueue_task True d q = Inr (True, q') \<and> queue_ok q' \<and>
       contents q' = contents q @ [to_cint d] \<and> num_connections q' = num_connections q + 1"
  unfolding queue_ok_def [of q] using enqueue_chain by blast

lemma enqueue_fails:
  assumes "queue_ok q"
  shows "enqueue_task False d q = Inr (False, q)"
proof -
  obtain s as where c: "chain q s as" and g: "good_tail q s as"
    using assms by (auto simp: queue_ok_def)
  let ?l = "last (s # as)"
  obtain n where n: "conns q ?l = Some n"
    using chain_node [OF c, of ?l] by (metis last_in_set list.distinct(1))
  have "linked h a bs \<Longrightarrow> distinct (a # bs) \<Longrightarrow> set_next (last (a # bs)) None h = h" for h a bs
    by (induction h a bs rule: linked.induct) (auto simp: set_next_def fun_upd_idem)
  then have "set_next ?l None (conns q) = conns q" using c by (simp add: chain_def)
  then show ?thesis
    using n by (simp add: enqueue_task_def tail_target_ok [OF c g] node_at_def Let_def del: last.simps)
qed

lemma counter_ok: "queue_ok q \<Longrightarrow> num_connections q = int (length (contents q))"
  by (auto simp: queue_ok_def contents_length) (simp add: chain_def)

lemma pull_empty:
  assumes "queue_ok q" and "contents q = []"
  shows "pull_next_task r q = Inr (False, r, q)"
proof -
  obtain s as where c: "chain q s as" using assms(1) by (auto simp: queue_ok_def)
  with assms(2) have "as = []" by (simp add: contents_chain)
  with c show ?thesis by (auto simp: chain_def pull_next_task_def node_at_def)
qed

lemma pull_ok:
  assumes "queue_ok q" and "contents q = d # ds"
  shows "\<exists>q'. pull_next_task r q = Inr (0 \<le> d, if d < 0 then -1 else d, q') \<and> contents q' = ds \<and>
           num_connections q' = int (length ds) \<and>
           (if length ds = 1 then queue_dangling q' else queue_ok q')"
proof -
  obtain s as where c: "chain q s as" and g: "good_tail q s as"
    using assms(1) by (auto simp: queue_ok_def)
  have len: "length as = Suc (length ds)" using contents_length [OF c] assms(2) by simp
  then consider t where "as = [t]" | t b bs where "as = t # b # bs"
    by (metis Suc_length_conv list.exhaust)
  then show ?thesis
  proof cases
    case 1
    with pull_chain_last [of q s t r] c g obtain q' where
      "pull_next_task r q = Inr (0 \<le> d, if d < 0 then -1 else d, q')" "queue_ok q'" "contents q' = []"
      using assms(2) by auto
    with len 1 counter_ok [of q'] show ?thesis by auto
  next
    case 2
    with pull_chain_more [of q s t b bs r] c g obtain q' where q':
      "pull_next_task r q = Inr (0 \<le> d, if d < 0 then -1 else d, q')" "contents q' = ds"
      "chain q' s (b # bs)" "queue_tail q' = queue_tail q" "conns q' t = None"
      using assms(2) by auto
    moreover from q'(2,3) have "num_connections q' = int (length ds)"
      using contents_length [OF q'(3)] by (simp add: chain_def)
    moreover have "if length ds = 1 then queue_dangling q' else queue_ok q'"
    proof (cases bs)
      case Nil
      with 2 g q'(4) have "queue_tail q' = At_Next t" by (simp add: good_tail_def)
      with q'(3,5) Nil 2 len show ?thesis by (auto simp: queue_dangling_def)
    next
      case (Cons x xs)
      with 2 g q'(4) have "good_tail q' s (b # bs)" by (simp add: good_tail_def)
      with q'(3) Cons 2 len show ?thesis by (auto intro: queue_okI)
    qed
    ultimately show ?thesis by blast
  qed
qed

lemma dangling_faults:
  assumes "queue_dangling q"
  shows "enqueue_task allocated d q = Inl Use_After_Free" and "pull_next_task r q = Inl Use_After_Free"
proof -
  obtain s as a where c: "chain q s as" and "as \<noteq> []" and tail: "queue_tail q = At_Next a" "conns q a = None"
    using assms by (auto simp: queue_dangling_def)
  then obtain t ts where as: "as = t # ts" by (cases as) auto
  have target: "tail_target q = Inl Use_After_Free"
    by (simp add: tail_target_def tail node_at_def)
  then show "enqueue_task allocated d q = Inl Use_After_Free"
    by (simp add: enqueue_task_def)
  from c as show "pull_next_task r q = Inl Use_After_Free"
    by (auto simp: chain_def pull_next_task_def node_at_def target Let_def)
qed

section \<open>The contract\<close>

datatype queue_op = Enqueue int | Pull

fun run_spec :: "(int \<Rightarrow> int) \<Rightarrow> (int \<Rightarrow> int) \<Rightarrow> queue_op list \<Rightarrow> int list \<Rightarrow> (int list \<times> int list) option" where
  "run_spec inp outp [] ds = Some ([], ds)"
| "run_spec inp outp (Enqueue d # ops) ds = run_spec inp outp ops (ds @ [inp d])"
| "run_spec inp outp (Pull # ops) ds =
     (case ds of
        [] \<Rightarrow> run_spec inp outp ops []
      | x # xs \<Rightarrow>
          if length xs = 1 then None
          else map_option (\<lambda>(outs, ds'). (outp x # outs, ds')) (run_spec inp outp ops xs))"

locale fifo =
  fixes enq :: "int \<Rightarrow> 'q \<Rightarrow> fault + 'q"
    and pull :: "'q \<Rightarrow> fault + (int option \<times> 'q)"
    and list :: "'q \<Rightarrow> int list"
    and good :: "'q \<Rightarrow> bool"
    and inp :: "int \<Rightarrow> int"
    and outp :: "int \<Rightarrow> int"
  assumes enq_law: "good q \<Longrightarrow> \<exists>q'. enq d q = Inr q' \<and> good q' \<and> list q' = list q @ [inp d]"
    and pull_law:
      "good q \<Longrightarrow> list q = x # xs \<Longrightarrow> length xs \<noteq> 1 \<Longrightarrow>
         \<exists>q'. pull q = Inr (Some (outp x), q') \<and> good q' \<and> list q' = xs"
    and pull_none: "good q \<Longrightarrow> list q = [] \<Longrightarrow> pull q = Inr (None, q)"
begin

fun run :: "queue_op list \<Rightarrow> 'q \<Rightarrow> fault + (int list \<times> 'q)" where
  "run [] q = Inr ([], q)"
| "run (Enqueue d # ops) q = cbind (enq d q) (run ops)"
| "run (Pull # ops) q =
     cbind (pull q) (\<lambda>(r, q'). cbind (run ops q')
       (\<lambda>(outs, q''). Inr ((case r of None \<Rightarrow> outs | Some x \<Rightarrow> x # outs), q'')))"

lemma run_refines:
  "good q \<Longrightarrow> run_spec inp outp ops (list q) = Some (outs, ds) \<Longrightarrow>
     \<exists>q'. run ops q = Inr (outs, q') \<and> good q' \<and> list q' = ds"
proof (induction ops arbitrary: q outs)
  case Nil
  then show ?case by simp
next
  case (Cons op ops)
  show ?case
  proof (cases op)
    case (Enqueue d)
    obtain q1 where q1: "enq d q = Inr q1" "good q1" "list q1 = list q @ [inp d]"
      using enq_law [OF Cons.prems(1)] by blast
    with Cons.prems(2) Enqueue Cons.IH [OF q1(2)] show ?thesis by simp
  next
    case Pull
    show ?thesis
    proof (cases "list q")
      case Nil
      with pull_none Cons Pull show ?thesis by fastforce
    next
      case (Cons x xs)
      with Cons.prems(2) Pull obtain outs' where
        more: "length xs \<noteq> 1" "run_spec inp outp ops xs = Some (outs', ds)" "outs = outp x # outs'"
        by (auto split: if_splits)
      obtain q1 where q1: "pull q = Inr (Some (outp x), q1)" "good q1" "list q1 = xs"
        using pull_law [OF Cons.prems(1) Cons more(1)] by blast
      obtain q' where "run ops q1 = Inr (outs', q')" "good q'" "list q' = ds"
        using Cons.IH [OF q1(2), of outs'] more(2) q1(3) by auto
      with q1 Pull more(3) show ?thesis by simp
    qed
  qed
qed

end

section \<open>The code's queue meets it\<close>

definition queue_enq :: "int \<Rightarrow> task_queue \<Rightarrow> fault + task_queue" where
  "queue_enq d q = cbind (enqueue_task True d q) (\<lambda>(ok, q'). Inr q')"

text \<open>What \<open>thread_runner\<close> gets: nothing from an empty queue, else a descriptor or -1.\<close>

definition queue_pull :: "task_queue \<Rightarrow> fault + (int option \<times> task_queue)" where
  "queue_pull q =
     cbind (pull_next_task (-1) q)
       (\<lambda>(ok, r, q'). Inr (if contents q = [] then None else Some r, q'))"

definition delivered :: "int \<Rightarrow> int" where
  "delivered d = (if d < 0 then -1 else d)"

interpretation tasks: fifo queue_enq queue_pull contents queue_ok to_cint delivered
proof unfold_locales
  show "\<exists>q'. queue_enq d q = Inr q' \<and> queue_ok q' \<and> contents q' = contents q @ [to_cint d]"
    if "queue_ok q" for q d
    using enqueue_ok [OF that, of d] by (auto simp: queue_enq_def)
  show "\<exists>q'. queue_pull q = Inr (Some (delivered x), q') \<and> queue_ok q' \<and> contents q' = xs"
    if "queue_ok q" "contents q = x # xs" "length xs \<noteq> 1" for q x xs
    using pull_ok [OF that(1,2), of "-1"] that(2,3) by (auto simp: queue_pull_def delivered_def)
  show "queue_pull q = Inr (None, q)" if "queue_ok q" "contents q = []" for q
    using pull_empty [OF that] that(2) by (simp add: queue_pull_def)
qed

fun queue_run :: "queue_op list \<Rightarrow> task_queue \<Rightarrow> fault + (int list \<times> task_queue)" where
  "queue_run [] q = Inr ([], q)"
| "queue_run (Enqueue d # ops) q = cbind (queue_enq d q) (queue_run ops)"
| "queue_run (Pull # ops) q =
     cbind (queue_pull q) (\<lambda>(r, q'). cbind (queue_run ops q')
       (\<lambda>(outs, q''). Inr ((case r of None \<Rightarrow> outs | Some x \<Rightarrow> x # outs), q'')))"

lemma queue_run_eq: "queue_run ops q = tasks.run ops q"
proof (induction ops arbitrary: q)
  case (Cons op ops)
  then have "queue_run ops = tasks.run ops" by (simp add: fun_eq_iff)
  then show ?case by (cases op) simp_all
qed simp

lemma init_queue_ok: "queue_ok (init_queue boot_queue)" "contents (init_queue boot_queue) = []"
proof -
  have c: "chain (init_queue boot_queue) 0 []"
    by (auto simp: chain_def init_queue_def boot_queue_def blank_conn_def split: if_splits)
  then show "queue_ok (init_queue boot_queue)"
    by (rule queue_okI) (simp add: good_tail_def init_queue_def)
  show "contents (init_queue boot_queue) = []" using contents_chain [OF c] by simp
qed

section \<open>Properties\<close>

text \<open>
  On a good queue \<open>enqueue_task\<close> appends the descriptor (as an \<open>int\<close>) at the
  tail and counts it, keeping the list doubly linked; a failed allocation returns false and
  leaves the contents and the counter alone.
\<close>

theorem enqueue_appends:
  assumes "queue_ok q"
  shows "case enqueue_task allocated d q of
           Inr (ok, q') \<Rightarrow>
             ok = allocated \<and> queue_ok q' \<and> num_connections q' = int (length (contents q')) \<and>
             contents q' = (if allocated then contents q @ [to_cint d] else contents q)
         | Inl f \<Rightarrow> False"
proof (cases allocated)
  case True
  with enqueue_ok [OF assms, of d] counter_ok show ?thesis by auto
next
  case False
  then show ?thesis using enqueue_fails [OF assms, of d] counter_ok [OF assms] assms by simp
qed

theorem enqueue_appends_witness:
  "case enqueue_task True 7 (init_queue boot_queue) of
     Inr (ok, q') \<Rightarrow>
       ok = True \<and> queue_ok q' \<and> num_connections q' = int (length (contents q')) \<and>
       contents q' = (if True then contents (init_queue boot_queue) @ [to_cint 7]
                      else contents (init_queue boot_queue))
   | Inl f \<Rightarrow> False"
  by (rule enqueue_appends) (rule init_queue_ok)

text \<open>
  C5: A schedule of enqueues and pulls on a freshly initialised queue that never pulls from a queue of
  exactly two tasks runs without a fault and delivers the descriptors first in, first out (a
  negative one as -1); a pull from the empty queue delivers nothing.
\<close>

theorem queue_schedule_fifo:
  assumes "run_spec to_cint delivered ops [] = Some (outs, ds)"
  shows "\<exists>q'. queue_run ops (init_queue boot_queue) = Inr (outs, q') \<and> queue_ok q' \<and> contents q' = ds"
  using tasks.run_refines [OF init_queue_ok(1), of ops outs ds] assms init_queue_ok(2)
  by (simp add: queue_run_eq)

theorem queue_schedule_fifo_witness:
  "\<exists>q'. queue_run [Enqueue 4, Enqueue 5, Enqueue 6, Pull, Enqueue 7, Pull] (init_queue boot_queue)
          = Inr ([4, 5], q') \<and> queue_ok q' \<and> contents q' = [6, 7]"
  by (rule queue_schedule_fifo) (simp add: to_cint_def delivered_def)

text \<open>
  A pull from a good queue of exactly two tasks returns the older one, but frees the
  node that \<open>queue_tail\<close> points into: whatever the next operation is, an enqueue or a
  pull, it reads freed memory.
\<close>

theorem pull_of_two_dangles:
  assumes "queue_ok q" and "contents q = [d, e]"
  shows "\<exists>q'. pull_next_task r q = Inr (0 \<le> d, delivered d, q') \<and> contents q' = [e] \<and>
           enqueue_task allocated x q' = Inl Use_After_Free \<and>
           pull_next_task r' q' = Inl Use_After_Free"
proof -
  obtain q' where "pull_next_task r q = Inr (0 \<le> d, delivered d, q')" "contents q' = [e]" "queue_dangling q'"
    using pull_ok [OF assms, of r] by (auto simp: delivered_def)
  with dangling_faults [OF \<open>queue_dangling q'\<close>] show ?thesis by auto
qed

definition two_tasks :: task_queue where
  "two_tasks = \<lparr>conns = [0 \<mapsto> \<lparr>socket_descriptor = 0, next_conn = Some 1, previous_conn = None\<rparr>,
                        1 \<mapsto> \<lparr>socket_descriptor = 5, next_conn = Some 2, previous_conn = Some 0\<rparr>,
                        2 \<mapsto> \<lparr>socket_descriptor = 6, next_conn = None, previous_conn = Some 1\<rparr>],
               fresh_addr = 3, queue_head = Some 0, queue_tail = At_Next 1, num_connections = 2\<rparr>"

lemma two_tasks_ok: "queue_ok two_tasks" "contents two_tasks = [5, 6]"
proof -
  have c: "chain two_tasks 0 [1, 2]"
    by (auto simp: chain_def two_tasks_def split: if_splits)
  then show "queue_ok two_tasks"
    by (rule queue_okI) (simp add: good_tail_def two_tasks_def)
  show "contents two_tasks = [5, 6]"
    unfolding contents_chain [OF c] by (simp add: two_tasks_def)
qed

theorem pull_of_two_dangles_witness:
  "\<exists>q'. pull_next_task (-1) two_tasks = Inr (0 \<le> (5 :: int), delivered 5, q') \<and> contents q' = [6] \<and>
     enqueue_task True 7 q' = Inl Use_After_Free \<and> pull_next_task (-1) q' = Inl Use_After_Free"
  using two_tasks_ok by (rule pull_of_two_dangles)

text \<open>
  The case is reachable from boot with any descriptors: two enqueues, one pull and a
  third enqueue (two connections with data, one picked up by a thread, one more) run into
  freed memory.
\<close>

lemma third_task_faults:
  "queue_run [Enqueue a, Enqueue b, Pull, Enqueue c] (init_queue boot_queue) = Inl Use_After_Free"
proof -
  obtain q1 where q1: "queue_enq a (init_queue boot_queue) = Inr q1" "queue_ok q1" "contents q1 = [to_cint a]"
    using tasks.enq_law [OF init_queue_ok(1), of a] init_queue_ok(2) by auto
  obtain q2 where q2: "queue_enq b q1 = Inr q2" "queue_ok q2" "contents q2 = [to_cint a, to_cint b]"
    using tasks.enq_law [OF q1(2), of b] q1(3) by auto
  obtain q3 x where "queue_pull q2 = Inr (Some x, q3)" "queue_dangling q3"
    using pull_ok [OF q2(2,3), of "-1"] q2(3) by (auto simp: queue_pull_def)
  with q1(1) q2(1) show ?thesis by (simp add: queue_enq_def dangling_faults)
qed

end
