(* ===== verification/Thread_Pool.thy ===== *)
theory Thread_Pool
  imports Task_Fifo
begin

text \<open>
  The producer and the workers of \<open>thread_handler.c\<close> as a step relation: \<open>thread_runner\<close>
  of each worker against \<open>enqueue_task\<close> of the orchestrator. A step is what runs between
  two operations other threads can see: the code under \<open>enqueue_lock\<close> is one step, so is
  \<open>pthread_cond_wait\<close> up to the release of the lock, and the test of
  \<open>num_connections\<close> is one of its own, because the producer does not hold
  \<open>thread_lock\<close>. A queue operation that faults has no successor.

  Shown: \<open>thread_lock\<close> excludes, a worker never pulls from an empty queue, tasks are taken
  in the order of their arrival under every interleaving, and a wakeup can be lost.
\<close>

section \<open>The state\<close>

text \<open>Where a worker is in the body of its loop.\<close>

datatype worker_pc =
    Locking            \<comment> \<open>before \<open>pthread_mutex_lock(&thread_lock)\<close>\<close>
  | Testing            \<comment> \<open>holding the lock, at \<open>while(num_connections == 0)\<close>\<close>
  | Going_To_Wait      \<comment> \<open>the test was true, before \<open>pthread_cond_wait\<close>\<close>
  | Waiting            \<comment> \<open>inside it, the lock released\<close>
  | Waking             \<comment> \<open>woken, before the lock is taken again\<close>
  | Pulling            \<comment> \<open>the test was false, before \<open>_pull_next_task\<close>\<close>
  | Pulled "int option" \<comment> \<open>before \<open>pthread_mutex_unlock(&thread_lock)\<close>\<close>
  | Serving int

text \<open>\<open>Exiting\<close>: the event loop has returned.\<close>

datatype producer_pc = Polling | Signalling | Exiting

record pool =
  owner :: "nat option"
  worker :: "nat \<Rightarrow> worker_pc"
  producer :: producer_pc
  queue :: task_queue
  arrived :: "int list"
  taken :: "int list"

definition boot_pool :: pool where
  "boot_pool = \<lparr>owner = None, worker = (\<lambda>_. Locking), producer = Polling,
                queue = init_queue boot_queue, arrived = [], taken = []\<rparr>"

definition move :: "nat \<Rightarrow> worker_pc \<Rightarrow> pool \<Rightarrow> pool" where
  "move w pc s = s\<lparr>worker := (worker s)(w := pc)\<rparr>"

section \<open>The steps of \<open>n\<close> workers and the producer\<close>

inductive pool_step :: "nat \<Rightarrow> pool \<Rightarrow> pool \<Rightarrow> bool" for n where
  lock: "w < n \<Longrightarrow> worker s w = Locking \<Longrightarrow> owner s = None \<Longrightarrow>
    pool_step n s (move w Testing s\<lparr>owner := Some w\<rparr>)"
| test_empty: "w < n \<Longrightarrow> worker s w = Testing \<Longrightarrow> num_connections (queue s) = 0 \<Longrightarrow>
    pool_step n s (move w Going_To_Wait s)"
| test_task: "w < n \<Longrightarrow> worker s w = Testing \<Longrightarrow> num_connections (queue s) \<noteq> 0 \<Longrightarrow>
    pool_step n s (move w Pulling s)"
| wait: "w < n \<Longrightarrow> worker s w = Going_To_Wait \<Longrightarrow>
    pool_step n s (move w Waiting s\<lparr>owner := None\<rparr>)"
| spurious: "w < n \<Longrightarrow> worker s w = Waiting \<Longrightarrow> pool_step n s (move w Waking s)"
| relock: "w < n \<Longrightarrow> worker s w = Waking \<Longrightarrow> owner s = None \<Longrightarrow>
    pool_step n s (move w Testing s\<lparr>owner := Some w\<rparr>)"
| pull: "w < n \<Longrightarrow> worker s w = Pulling \<Longrightarrow> pull_next_task (- 1) (queue s) = Inr (ok, fd, q) \<Longrightarrow>
    contents (queue s) \<noteq> [] \<Longrightarrow>
    pool_step n s (move w (Pulled (if ok then Some fd else None)) s\<lparr>queue := q, taken := taken s @ [fd]\<rparr>)"
| pull_none: "w < n \<Longrightarrow> worker s w = Pulling \<Longrightarrow> pull_next_task (- 1) (queue s) = Inr (ok, fd, q) \<Longrightarrow>
    contents (queue s) = [] \<Longrightarrow>
    pool_step n s (move w (Pulled None) s\<lparr>queue := q\<rparr>)"
| unlock: "w < n \<Longrightarrow> worker s w = Pulled (Some fd) \<Longrightarrow>
    pool_step n s (move w (Serving fd) s\<lparr>owner := None\<rparr>)"
| give_up: "w < n \<Longrightarrow> worker s w = Pulled None \<Longrightarrow>
    pool_step n s (move w Locking s\<lparr>owner := None\<rparr>)"
| served: "w < n \<Longrightarrow> worker s w = Serving fd \<Longrightarrow> pool_step n s (move w Locking s)"
| enqueue: "producer s = Polling \<Longrightarrow> enqueue_task True d (queue s) = Inr (ok, q) \<Longrightarrow>
    pool_step n s (s\<lparr>queue := q, producer := Signalling, arrived := arrived s @ [to_cint d]\<rparr>)"
| no_memory: "producer s = Polling \<Longrightarrow> enqueue_task False d (queue s) = Inr (ok, q) \<Longrightarrow>
    pool_step n s (s\<lparr>queue := q\<rparr>)"
| signal: "producer s = Signalling \<Longrightarrow> w < n \<Longrightarrow> worker s w = Waiting \<Longrightarrow>
    pool_step n s (move w Waking s\<lparr>producer := Polling\<rparr>)"
| signal_lost: "producer s = Signalling \<Longrightarrow> \<forall>w < n. worker s w \<noteq> Waiting \<Longrightarrow>
    pool_step n s (s\<lparr>producer := Polling\<rparr>)"

inductive_cases pool_stepE: "pool_step n s s'"

definition reachable :: "nat \<Rightarrow> pool \<Rightarrow> bool" where
  "reachable n s \<longleftrightarrow> (pool_step n)\<^sup>*\<^sup>* boot_pool s"

lemma move_simps [simp]:
  "worker (move w pc s) = (worker s)(w := pc)" "owner (move w pc s) = owner s"
  "producer (move w pc s) = producer s" "queue (move w pc s) = queue s"
  "arrived (move w pc s) = arrived s" "taken (move w pc s) = taken s"
  "worker (move w pc s\<lparr>owner := a\<rparr>) = (worker s)(w := pc)"
  by (simp_all add: move_def)

section \<open>The invariant\<close>

text \<open>The places of the loop between lock and unlock.\<close>

definition critical :: "worker_pc \<Rightarrow> bool" where
  "critical pc \<longleftrightarrow> pc \<in> {Testing, Going_To_Wait, Pulling} \<or> (\<exists>r. pc = Pulled r)"

definition queue_state :: "task_queue \<Rightarrow> bool" where
  "queue_state q \<longleftrightarrow> queue_ok q \<or> queue_dangling q"

definition pool_inv :: "pool \<Rightarrow> bool" where
  "pool_inv s \<longleftrightarrow>
     (\<forall>w. critical (worker s w) \<longleftrightarrow> owner s = Some w) \<and>
     queue_state (queue s) \<and>
     (\<forall>w. worker s w = Pulling \<longrightarrow> contents (queue s) \<noteq> []) \<and>
     map delivered (arrived s) = taken s @ map delivered (contents (queue s))"

lemma critical_simps [simp]:
  "critical Testing" "critical Going_To_Wait" "critical Pulling" "critical (Pulled r)"
  "\<not> critical Locking" "\<not> critical Waiting" "\<not> critical Waking" "\<not> critical (Serving fd)"
  by (simp_all add: critical_def)

lemma queue_state_counter: "queue_state q \<Longrightarrow> num_connections q = int (length (contents q))"
  by (auto simp: queue_state_def counter_ok queue_dangling_def contents_length) (simp add: chain_def)

lemma enqueue_state:
  assumes "queue_state q" and "enqueue_task allocated d q = Inr (ok, q')"
  shows "queue_state q' \<and> contents q' = (if allocated then contents q @ [to_cint d] else contents q)"
proof -
  have ok: "queue_ok q" using assms dangling_faults(1) by (auto simp: queue_state_def)
  show ?thesis
  proof (cases allocated)
    case True
    then show ?thesis using enqueue_ok [OF ok, of d] assms(2) by (auto simp: queue_state_def)
  next
    case False
    then show ?thesis using enqueue_fails [OF ok, of d] assms(2) ok by (auto simp: queue_state_def)
  qed
qed

lemma pull_state:
  assumes "queue_state q" and "pull_next_task (- 1) q = Inr (ok, fd, q')" and "contents q \<noteq> []"
  shows "queue_state q' \<and> contents q = hd (contents q) # contents q' \<and> fd = delivered (hd (contents q))"
proof -
  have ok: "queue_ok q" using assms dangling_faults(2) by (auto simp: queue_state_def)
  obtain d ds where ds: "contents q = d # ds" using assms(3) by (cases "contents q") auto
  then show ?thesis
    using pull_ok [OF ok ds, of "- 1"] assms(2)
    by (auto simp: queue_state_def delivered_def split: if_splits)
qed

lemma boot_pool_inv: "pool_inv boot_pool"
  using init_queue_ok by (simp add: pool_inv_def boot_pool_def queue_state_def)

lemma pool_invD:
  assumes "pool_inv s"
  shows "critical (worker s w) \<longleftrightarrow> owner s = Some w" and "queue_state (queue s)"
    and "worker s w = Pulling \<Longrightarrow> contents (queue s) \<noteq> []"
    and "map delivered (arrived s) = taken s @ map delivered (contents (queue s))"
  using assms unfolding pool_inv_def by blast+

text \<open>Steps of one worker that leave the queue alone, keeping or passing the lock.\<close>

lemma inv_move:
  assumes "pool_inv s" and "critical pc \<longleftrightarrow> critical (worker s w)" and "pc = Pulling \<Longrightarrow> contents (queue s) \<noteq> []"
  shows "pool_inv (move w pc s)"
  using pool_invD [OF assms(1)] assms(2,3) by (auto simp: pool_inv_def)

lemma inv_take:
  assumes "pool_inv s" and "owner s = None" and "critical pc" and "pc \<noteq> Pulling"
  shows "pool_inv (move w pc s\<lparr>owner := Some w\<rparr>)"
  using pool_invD [OF assms(1)] assms(2-4) by (auto simp: pool_inv_def)

lemma inv_release:
  assumes "pool_inv s" and "critical (worker s w)" and "\<not> critical pc"
  shows "pool_inv (move w pc s\<lparr>owner := None\<rparr>)"
proof -
  have "owner s = Some w" using pool_invD(1) [OF assms(1)] assms(2) by blast
  then have "\<not> critical (worker s v)" if "v \<noteq> w" for v using pool_invD(1) [OF assms(1), of v] that by simp
  then show ?thesis
    using pool_invD(2-4) [OF assms(1)] assms(3) by (auto simp: pool_inv_def)
qed

lemma inv_queue:
  assumes "pool_inv s" and "queue_state q" and "contents (queue s) \<noteq> [] \<Longrightarrow> contents q \<noteq> []"
    and "map delivered a = taken s @ map delivered (contents q)"
  shows "pool_inv (s\<lparr>queue := q, producer := p, arrived := a\<rparr>)"
  using pool_invD [OF assms(1)] assms(2-4) by (simp add: pool_inv_def)

lemma inv_pull:
  assumes "pool_inv s" and "worker s w = Pulling" and "pull_next_task (- 1) (queue s) = Inr (ok, fd, q)"
  shows "pool_inv (move w (Pulled r) s\<lparr>queue := q, taken := taken s @ [fd]\<rparr>)"
proof -
  note inv = pool_invD [OF assms(1)]
  have owner: "owner s = Some w" using inv(1) [of w] assms(2) by simp
  have others: "worker s v \<noteq> Pulling" if "v \<noteq> w" for v using inv(1) [of v] owner that by auto
  have q: "queue_state q" "contents (queue s) = hd (contents (queue s)) # contents q"
      "fd = delivered (hd (contents (queue s)))"
    using pull_state [OF inv(2) assms(3) inv(3) [OF assms(2)]] by blast+
  have "map delivered (contents (queue s)) = fd # map delivered (contents q)"
    by (subst q(2)) (simp add: q(3))
  then show ?thesis using inv(1,4) owner others q(1) by (simp add: pool_inv_def)
qed

lemma pool_inv_step:
  assumes "pool_step n s s'" and "pool_inv s"
  shows "pool_inv s'"
  using assms
proof (induction rule: pool_step.induct)
  case (test_task w s)
  then have "contents (queue s) \<noteq> []" using queue_state_counter [OF pool_invD(2)] by fastforce
  with test_task show ?case by (intro inv_move) simp_all
next
  case (pull w s ok fd q)
  then show ?case by (intro inv_pull) simp_all
next
  case (pull_none w s ok fd q)
  then show ?case using pool_invD(3) by blast
next
  case (enqueue s d ok q)
  then show ?case
    using enqueue_state [OF pool_invD(2) enqueue.hyps(2)] pool_invD(4) [OF enqueue.prems]
    by (intro inv_queue) simp_all
next
  case (no_memory s d ok q)
  then have "pool_inv (s\<lparr>queue := q, producer := producer s, arrived := arrived s\<rparr>)"
    using enqueue_state [OF pool_invD(2) no_memory.hyps(2)] pool_invD(4) [OF no_memory.prems]
    by (intro inv_queue) simp_all
  then show ?case by (simp add: pool_inv_def)
next
  case (signal s w)
  then have "pool_inv (move w Waking s)" by (intro inv_move) simp_all
  then show ?case by (simp add: pool_inv_def)
next
  case (signal_lost s)
  then show ?case by (simp add: pool_inv_def)
qed (intro inv_move inv_take inv_release; simp)+

lemma reachable_inv: "reachable n s \<Longrightarrow> pool_inv s"
  unfolding reachable_def by (induction rule: rtranclp_induct) (auto intro: boot_pool_inv pool_inv_step)

lemma boot_reachable: "reachable n boot_pool"
  by (simp add: reachable_def)

lemma reachable_step: "reachable n s \<Longrightarrow> pool_step n s s' \<Longrightarrow> reachable n s'"
  unfolding reachable_def by (rule rtranclp.rtrancl_into_rtrancl)

lemma reachable_loops: "reachable n s \<Longrightarrow> producer s \<noteq> Exiting"
  unfolding reachable_def
  by (induction rule: rtranclp_induct) (auto simp: boot_pool_def elim: pool_stepE)

text \<open>A task arrives and a worker is about to pull it.\<close>

lemma pulling_reachable: "\<exists>s. reachable 2 s \<and> worker s 0 = Pulling"
proof -
  obtain q where q: "enqueue_task True 5 (init_queue boot_queue) = Inr (True, q)" "num_connections q = 1"
    using enqueue_ok [OF init_queue_ok(1), of 5] by (auto simp: init_queue_def boot_queue_def)
  let ?s1 = "boot_pool\<lparr>queue := q, producer := Signalling, arrived := arrived boot_pool @ [to_cint 5]\<rparr>"
  let ?s2 = "move 0 Testing ?s1\<lparr>owner := Some 0\<rparr>"
  let ?s3 = "move 0 Pulling ?s2"
  have "reachable 2 ?s1"
    by (rule reachable_step [OF boot_reachable]) (rule enqueue [where ok = True]; simp add: boot_pool_def q)
  then have "reachable 2 ?s2"
    by (rule reachable_step) (rule lock; simp add: boot_pool_def)
  then have "reachable 2 ?s3"
    by (rule reachable_step) (rule test_task; simp add: q(2))
  then show ?thesis by (intro exI [of _ ?s3]) simp
qed

section \<open>Properties\<close>

text \<open>
  C21: In every reachable state at most one worker is between lock and unlock of
  \<open>thread_lock\<close>, and a worker that is about to pull finds the queue non-empty: the test of
  \<open>num_connections\<close> made under the lock still holds when it pulls, although the producer
  does not take that lock.
\<close>

theorem pool_mutual_exclusion:
  assumes "reachable n s"
  shows "(critical (worker s v) \<and> critical (worker s w) \<longrightarrow> v = w) \<and>
         (worker s w = Pulling \<longrightarrow> contents (queue s) \<noteq> [])"
  using pool_invD(1) [OF reachable_inv [OF assms], of v] pool_invD(1) [OF reachable_inv [OF assms], of w]
    pool_invD(3) [OF reachable_inv [OF assms], of w] by auto

theorem pool_mutual_exclusion_witness:
  "\<exists>s :: pool. worker s 0 = Pulling \<and> contents (queue s) \<noteq> []"
proof -
  obtain s where s: "reachable 2 s" "worker s 0 = Pulling" using pulling_reachable by blast
  have "contents (queue s) \<noteq> []" using pool_mutual_exclusion [OF s(1), of 0 0] s(2) by blast
  with s(2) show ?thesis by blast
qed

text \<open>
  C7: Under every interleaving of any number of workers with the producer, the descriptors the
  workers have taken followed by those still queued are the descriptors that arrived, in order
  of arrival: no task is lost, duplicated or overtaken.
\<close>

theorem pool_order:
  assumes "reachable n s"
  shows "map delivered (arrived s) = taken s @ map delivered (contents (queue s))"
  by (rule pool_invD(4) [OF reachable_inv [OF assms]])

lemma unheard_task:
  "\<exists>s. reachable 1 s \<and> worker s 0 = Waiting \<and> producer s = Polling \<and>
       contents (queue s) = [to_cint d] \<and> arrived s = [to_cint d] \<and> taken s = []"
proof -
  let ?s1 = "move 0 Testing boot_pool\<lparr>owner := Some 0\<rparr>"
  let ?s2 = "move 0 Going_To_Wait ?s1"
  obtain q where q: "enqueue_task True d (init_queue boot_queue) = Inr (True, q)" "contents q = [to_cint d]"
    using enqueue_ok [OF init_queue_ok(1), of d] init_queue_ok(2) by auto
  let ?s3 = "?s2\<lparr>queue := q, producer := Signalling, arrived := arrived ?s2 @ [to_cint d]\<rparr>"
  let ?s4 = "?s3\<lparr>producer := Polling\<rparr>"
  let ?s5 = "move 0 Waiting ?s4\<lparr>owner := None\<rparr>"
  have "reachable 1 ?s1"
    by (rule reachable_step [OF boot_reachable]) (rule lock; simp add: boot_pool_def)
  then have "reachable 1 ?s2"
    by (rule reachable_step) (rule test_empty; simp add: boot_pool_def init_queue_def boot_queue_def)
  then have "reachable 1 ?s3"
    by (rule reachable_step) (rule enqueue [where ok = True]; simp add: boot_pool_def q)
  then have "reachable 1 ?s4"
    by (rule reachable_step) (rule signal_lost; simp)
  then have "reachable 1 ?s5"
    by (rule reachable_step) (rule wait; simp)
  then show ?thesis using q(2) by (intro exI [of _ ?s5]) (simp add: boot_pool_def)
qed

theorem pool_order_witness:
  "\<exists>s :: pool. arrived s = [to_cint 5] \<and> map delivered (arrived s) = taken s @ map delivered (contents (queue s))"
  using unheard_task [of 5] pool_order by blast

text \<open>
  C36: A wakeup can be lost. With one worker a state is reachable in which a task is queued, the
  producer has already signalled, and the worker waits for a signal: the producer signals
  without holding \<open>thread_lock\<close>, in between the worker's test and its wait. The task stays
  until another one arrives or the wait ends spuriously.
\<close>

theorem wakeup_lost:
  "\<exists>s. reachable 1 s \<and> worker s 0 = Waiting \<and> producer s = Polling \<and>
       contents (queue s) = [to_cint d]"
  using unheard_task [of d] by auto

end
