(* ===== verification/Pool_Liveness.thy ===== *)
theory Pool_Liveness
  imports Thread_Pool
begin

text \<open>
  What the pool gets done. With two workers or more a wakeup that hits nobody is harmless: at
  every moment at which a task is queued and the producer is back at its poll, some worker is on
  its way to the queue (\<open>watch_inv\<close>). From there the scheduler can always bring the oldest task
  to a worker, without a new arrival and without a spurious wakeup, as long as the queue has not
  been corrupted.
\<close>

section \<open>Somebody is awake\<close>

definition asleep :: "worker_pc \<Rightarrow> bool" where
  "asleep pc \<longleftrightarrow> pc = Waiting \<or> pc = Going_To_Wait"

lemma asleep_simps [simp]:
  "asleep Waiting" "asleep Going_To_Wait" "\<not> asleep Locking" "\<not> asleep Testing" "\<not> asleep Waking"
  "\<not> asleep Pulling" "\<not> asleep (Pulled r)" "\<not> asleep (Serving fd)"
  by (simp_all add: asleep_def)

definition some_awake :: "nat \<Rightarrow> pool \<Rightarrow> bool" where
  "some_awake n s \<longleftrightarrow> (\<exists>w < n. \<not> asleep (worker s w))"

text \<open>The workers that exist, and the watch over the queue.\<close>

definition watch_inv :: "nat \<Rightarrow> pool \<Rightarrow> bool" where
  "watch_inv n s \<longleftrightarrow>
     (\<forall>w. n \<le> w \<longrightarrow> worker s w = Locking) \<and>
     (producer s = Polling \<longrightarrow> contents (queue s) \<noteq> [] \<longrightarrow> some_awake n s)"

lemma some_awake_move: "w < n \<Longrightarrow> \<not> asleep pc \<Longrightarrow> some_awake n (move w pc s)"
  by (auto simp: some_awake_def)

lemma some_awake_others:
  "some_awake n s \<Longrightarrow> asleep (worker s w) \<Longrightarrow> some_awake n (move w pc s)"
  by (auto simp: some_awake_def)

lemma some_awake_owner [simp]: "some_awake n (s\<lparr>owner := a\<rparr>) \<longleftrightarrow> some_awake n s"
  by (simp add: some_awake_def)

text \<open>A signal that hits nobody: at most one worker is between its test and its wait.\<close>

lemma nobody_waits:
  assumes "pool_inv s" and "2 \<le> n" and "\<forall>w < n. worker s w \<noteq> Waiting"
  shows "some_awake n s"
proof (rule ccontr)
  assume "\<not> some_awake n s"
  then have "worker s 0 = Going_To_Wait" "worker s 1 = Going_To_Wait"
    using assms(2,3) by (auto simp: some_awake_def asleep_def)
  then show False using pool_invD(1) [OF assms(1), of 0] pool_invD(1) [OF assms(1), of 1] by simp
qed

lemma watch_invD:
  assumes "watch_inv n s"
  shows "n \<le> w \<Longrightarrow> worker s w = Locking"
    and "producer s = Polling \<Longrightarrow> contents (queue s) \<noteq> [] \<Longrightarrow> some_awake n s"
  using assms by (auto simp: watch_inv_def)

lemma watch_move:
  assumes "watch_inv n s" and "w < n" and "\<not> asleep pc"
  shows "watch_inv n (move w pc s)" and "watch_inv n (move w pc s\<lparr>owner := a\<rparr>)"
    and "watch_inv n (move w pc s\<lparr>queue := q, taken := t\<rparr>)" and "watch_inv n (move w pc s\<lparr>queue := q\<rparr>)"
    and "watch_inv n (move w pc s\<lparr>producer := p\<rparr>)"
  using assms by (auto simp: watch_inv_def some_awake_def)

lemma watch_step:
  assumes "pool_step n s s'" and "pool_inv s" and "watch_inv n s" and "2 \<le> n"
  shows "watch_inv n s'"
  using assms
proof (induction rule: pool_step.induct)
  case (test_empty w s)
  then have "contents (queue s) = []" using queue_state_counter [OF pool_invD(2)] by fastforce
  with test_empty show ?case by (simp add: watch_inv_def)
next
  case (wait w s)
  then show ?case using some_awake_others [of n s w Waiting] by (simp add: watch_inv_def)
next
  case (no_memory s d ok q)
  then show ?case
    using enqueue_state [OF pool_invD(2) no_memory.hyps(2)] by (simp add: watch_inv_def some_awake_def)
next
  case (enqueue s d ok q)
  then show ?case by (simp add: watch_inv_def)
next
  case (signal_lost s)
  then show ?case using nobody_waits by (simp add: watch_inv_def some_awake_def)
qed (simp_all add: watch_move)

lemma boot_watch: "watch_inv n boot_pool"
  using init_queue_ok(2) by (simp add: watch_inv_def boot_pool_def)

lemma reachable_watch: "reachable n s \<Longrightarrow> 2 \<le> n \<Longrightarrow> watch_inv n s"
  unfolding reachable_def
proof (induction rule: rtranclp_induct)
  case (step s s')
  then have "pool_inv s" using reachable_inv by (simp add: reachable_def)
  with step show ?case using watch_step by blast
qed (rule boot_watch)

section \<open>Towards the queue\<close>

text \<open>The runs considered: no arrival, no failed allocation, no spurious wakeup.\<close>

definition quiet_step :: "nat \<Rightarrow> pool \<Rightarrow> pool \<Rightarrow> bool" where
  "quiet_step n s s' \<longleftrightarrow>
     pool_step n s s' \<and> arrived s' = arrived s \<and>
     (\<forall>w. worker s w = Waiting \<longrightarrow> worker s' w = Waiting \<or> producer s = Signalling)"

lemma quietI:
  "pool_step n s s' \<Longrightarrow> arrived s' = arrived s \<Longrightarrow>
     (\<And>w. worker s w = Waiting \<Longrightarrow> worker s' w = Waiting \<or> producer s = Signalling) \<Longrightarrow> quiet_step n s s'"
  by (simp add: quiet_step_def)

definition takes_next :: "nat \<Rightarrow> pool \<Rightarrow> bool" where
  "takes_next n s \<longleftrightarrow>
     (\<exists>s'. (quiet_step n)\<^sup>*\<^sup>* s s' \<and> taken s' = taken s @ [delivered (hd (contents (queue s)))] \<and>
             arrived s' = arrived s)"

lemma takes_next_step:
  assumes "quiet_step n s s1" and "takes_next n s1" and "taken s1 = taken s" and "queue s1 = queue s"
  shows "takes_next n s"
proof -
  have "arrived s1 = arrived s" using assms(1) by (simp add: quiet_step_def)
  with assms show ?thesis unfolding takes_next_def by (auto intro: converse_rtranclp_into_rtranclp)
qed

lemma takes_pulling:
  assumes "w < n" and "worker s w = Pulling" and "queue_ok (queue s)" and "contents (queue s) \<noteq> []"
  shows "takes_next n s"
proof -
  obtain d ds where ds: "contents (queue s) = d # ds" using assms(4) by (cases "contents (queue s)") auto
  obtain q where q: "pull_next_task (- 1) (queue s) = Inr (0 \<le> d, delivered d, q)"
    using pull_ok [OF assms(3) ds, of "- 1"] by (auto simp: delivered_def)
  let ?s = "move w (Pulled (if 0 \<le> d then Some (delivered d) else None)) s\<lparr>queue := q, taken := taken s @ [delivered d]\<rparr>"
  have "quiet_step n s ?s"
    by (rule quietI [OF pull [OF assms(1,2) q assms(4)]]) (use assms(2) in auto)
  then show ?thesis
    unfolding takes_next_def using ds by (intro exI [of _ ?s]) auto
qed

lemma takes_testing:
  assumes "w < n" and "worker s w = Testing" and "queue_ok (queue s)" and "contents (queue s) \<noteq> []"
  shows "takes_next n s"
proof (rule takes_next_step)
  have "num_connections (queue s) \<noteq> 0" using assms(3,4) by (simp add: counter_ok)
  then show "quiet_step n s (move w Pulling s)"
    by (intro quietI [OF test_task [OF assms(1,2)]]) (use assms(2) in auto)
  show "takes_next n (move w Pulling s)" by (rule takes_pulling [of w]) (use assms in simp_all)
qed simp_all

lemma takes_free:
  assumes "w < n" and "worker s w \<in> {Locking, Waking} \<or> (\<exists>fd. worker s w = Serving fd)" and "owner s = None"
    and "queue_ok (queue s)" and "contents (queue s) \<noteq> []"
  shows "takes_next n s"
proof -
  have locked: "takes_next n t" if "worker t w \<in> {Locking, Waking}" "owner t = None" "queue t = queue s" for t
  proof (rule takes_next_step)
    have "pool_step n t (move w Testing t\<lparr>owner := Some w\<rparr>)"
      using that assms(1) by (auto intro: lock relock)
    then show "quiet_step n t (move w Testing t\<lparr>owner := Some w\<rparr>)" by (rule quietI) (use that in auto)
    show "takes_next n (move w Testing t\<lparr>owner := Some w\<rparr>)"
      by (rule takes_testing [of w]) (use assms that in simp_all)
  qed simp_all
  show ?thesis
  proof (cases "\<exists>fd. worker s w = Serving fd")
    case True
    then obtain fd where fd: "worker s w = Serving fd" by blast
    show ?thesis
    proof (rule takes_next_step)
      show "quiet_step n s (move w Locking s)" by (rule quietI [OF served [OF assms(1) fd]]) (use fd in auto)
      show "takes_next n (move w Locking s)" by (rule locked) (use assms(3) in simp_all)
    qed simp_all
  next
    case False
    then show ?thesis using assms(2,3) by (intro locked) auto
  qed
qed

text \<open>With the lock held, its owner goes on first.\<close>

lemma awake_free:
  assumes "pool_inv s" and "owner s = None" and "some_awake n s"
  obtains w where "w < n" and "worker s w \<in> {Locking, Waking} \<or> (\<exists>fd. worker s w = Serving fd)"
proof -
  obtain w where w: "w < n" "\<not> asleep (worker s w)" using assms(3) by (auto simp: some_awake_def)
  moreover have "\<not> critical (worker s w)" using pool_invD(1) [OF assms(1)] assms(2) by simp
  ultimately show thesis using that by (cases "worker s w") auto
qed

text \<open>The owner of the lock lets go of it, and some worker is left to take the task.\<close>

lemma takes_released:
  assumes "pool_inv s" and "queue_ok (queue s)" and "contents (queue s) \<noteq> []" and "critical (worker s v)"
    and "pool_step n s (move v pc s\<lparr>owner := None\<rparr>)" and "some_awake n (move v pc s)" and "\<not> critical pc"
    and "worker s v \<noteq> Waiting"
  shows "takes_next n s"
proof (rule takes_next_step)
  let ?t = "move v pc s\<lparr>owner := None\<rparr>"
  show "quiet_step n s ?t" by (rule quietI [OF assms(5)]) (use assms(8) in auto)
  have "pool_inv ?t" by (rule inv_release [OF assms(1,4,7)])
  moreover have "some_awake n ?t" using assms(6) by (simp add: some_awake_def)
  ultimately obtain w where "w < n" "worker ?t w \<in> {Locking, Waking} \<or> (\<exists>fd. worker ?t w = Serving fd)"
    using awake_free [of ?t n] by auto
  then show "takes_next n ?t" using assms(2,3) by (intro takes_free [of w]) simp_all
qed simp_all

lemma takes_awake:
  assumes "pool_inv s" and "watch_inv n s" and "some_awake n s" and "queue_ok (queue s)"
    and "contents (queue s) \<noteq> []"
  shows "takes_next n s"
proof (cases "owner s")
  case None
  then obtain w where "w < n" "worker s w \<in> {Locking, Waking} \<or> (\<exists>fd. worker s w = Serving fd)"
    using awake_free [OF assms(1) _ assms(3)] by blast
  then show ?thesis using takes_free None assms(4,5) by blast
next
  case (Some v)
  then have crit: "critical (worker s v)" using pool_invD(1) [OF assms(1)] by simp
  have v: "v < n"
  proof (rule ccontr)
    assume "\<not> v < n"
    then show False using watch_invD(1) [OF assms(2), of v] crit by simp
  qed
  note released = takes_released [OF assms(1,4,5) crit]
  show ?thesis
  proof (cases "worker s v")
    case Testing
    then show ?thesis using takes_testing v assms(4,5) by blast
  next
    case Pulling
    then show ?thesis using takes_pulling v assms(4,5) by blast
  next
    case Going_To_Wait
    then show ?thesis
      using wait [OF v Going_To_Wait] some_awake_others [OF assms(3), of v Waiting] by (intro released [where pc = Waiting]) simp_all
  next
    case (Pulled r)
    show ?thesis
    proof (cases r)
      case None
      then show ?thesis
        using give_up [OF v] Pulled some_awake_move [OF v, of Locking s] by (intro released [where pc = Locking]) simp_all
    next
      case (Some fd)
      then show ?thesis
        using unlock [OF v] Pulled some_awake_move [OF v, of "Serving fd" s] by (intro released [where pc = "Serving fd"]) simp_all
    qed
  qed (use crit in simp_all)
qed

text \<open>A producer that is about to signal does so first.\<close>

lemma takes_any:
  assumes "reachable n s" and "2 \<le> n" and "queue_ok (queue s)" and "contents (queue s) \<noteq> []"
  shows "takes_next n s"
proof -
  have inv: "pool_inv s" "watch_inv n s" using assms(1,2) reachable_inv reachable_watch by blast+
  show ?thesis
  proof (cases "producer s")
    case Polling
    then show ?thesis using takes_awake inv watch_invD(2) assms(3,4) by blast
  next
    case Signalling
    have polled: "takes_next n s"
      if "pool_step n s t" "producer t = Polling" "queue t = queue s" "taken t = taken s" "arrived t = arrived s" for t
    proof (rule takes_next_step)
      show "quiet_step n s t" by (rule quietI [OF that(1,5)]) (simp add: Signalling)
      have "pool_inv t" "watch_inv n t" using pool_inv_step watch_step that(1) inv assms(2) by blast+
      then show "takes_next n t" using takes_awake watch_invD(2) that(2,3) assms(3,4) by metis
    qed (use that in simp_all)
    show ?thesis
    proof (cases "\<exists>w < n. worker s w = Waiting")
      case True
      then obtain w where w: "w < n" "worker s w = Waiting" by blast
      show ?thesis by (rule polled [OF signal [OF Signalling w]]) simp_all
    next
      case False
      then have "\<forall>w < n. worker s w \<noteq> Waiting" by blast
      then show ?thesis by (intro polled [OF signal_lost [OF Signalling]]) simp_all
    qed
  next
    case Exiting
    then show ?thesis using reachable_loops [OF assms(1)] by blast
  qed
qed

section \<open>Properties\<close>

text \<open>Two workers, one task queued and not yet signalled.\<close>

lemma queued_reachable:
  "\<exists>s. reachable 2 s \<and> queue_ok (queue s) \<and> contents (queue s) = [5] \<and> taken s = [] \<and> producer s = Polling"
proof -
  obtain q where q: "enqueue_task True 5 (init_queue boot_queue) = Inr (True, q)" "queue_ok q" "contents q = [5]"
    using enqueue_ok [OF init_queue_ok(1), of 5] init_queue_ok(2) by (auto simp: to_cint_def)
  let ?s1 = "boot_pool\<lparr>queue := q, producer := Signalling, arrived := arrived boot_pool @ [to_cint 5]\<rparr>"
  let ?s2 = "?s1\<lparr>producer := Polling\<rparr>"
  have "reachable 2 ?s1"
    by (rule reachable_step [OF boot_reachable]) (rule enqueue [where ok = True]; simp add: boot_pool_def q)
  then have "reachable 2 ?s2"
    by (rule reachable_step) (rule signal_lost; simp add: boot_pool_def)
  then show ?thesis using q by (intro exI [of _ ?s2]) (simp add: boot_pool_def)
qed

text \<open>
  C17: With two workers or more no task is left unheard: whenever a task is queued and the
  producer is back at its poll, some worker is neither waiting nor on its way to wait, in every
  reachable state.
\<close>

theorem some_worker_awake:
  assumes "reachable n s" and "2 \<le> n" and "producer s = Polling" and "contents (queue s) \<noteq> []"
  shows "\<exists>w < n. worker s w \<noteq> Waiting \<and> worker s w \<noteq> Going_To_Wait"
  using watch_invD(2) [OF reachable_watch [OF assms(1,2)] assms(3,4)] by (auto simp: some_awake_def asleep_def)

theorem some_worker_awake_witness:
  "\<exists>s :: pool. contents (queue s) = [5] \<and> (\<exists>w < 2. worker s w \<noteq> Waiting \<and> worker s w \<noteq> Going_To_Wait)"
proof -
  obtain s where s: "reachable 2 s" "contents (queue s) = [5]" "producer s = Polling" using queued_reachable by blast
  have "\<exists>w < 2. worker s w \<noteq> Waiting \<and> worker s w \<noteq> Going_To_Wait"
    by (rule some_worker_awake [OF s(1)]) (simp_all add: s)
  with s(2) show ?thesis by blast
qed

text \<open>
  Progress. With two workers or more, from every reachable state with a task in an
  uncorrupted queue the pool can take exactly the oldest task next, by steps of the workers and
  the pending signal alone: no arrival and no spurious wakeup is needed. In particular the pool
  has no deadlock while tasks are queued.
\<close>

theorem oldest_task_taken:
  assumes "reachable n s" and "2 \<le> n" and "queue_ok (queue s)" and "contents (queue s) \<noteq> []"
  shows "\<exists>s'. (quiet_step n)\<^sup>*\<^sup>* s s' \<and> taken s' = taken s @ [delivered (hd (contents (queue s)))] \<and>
              arrived s' = arrived s"
  using takes_any [OF assms] by (auto simp: takes_next_def)

theorem oldest_task_taken_witness:
  "\<exists>s s'. reachable 2 s \<and> taken s = [] \<and> (quiet_step 2)\<^sup>*\<^sup>* s s' \<and> taken s' = [5]"
proof -
  obtain s where s: "reachable 2 s" "queue_ok (queue s)" "contents (queue s) = [5]" "taken s = []"
    using queued_reachable by blast
  obtain s' where "(quiet_step 2)\<^sup>*\<^sup>* s s'" "taken s' = taken s @ [delivered (hd (contents (queue s)))]"
    using oldest_task_taken [OF s(1) _ s(2)] s(3) by auto
  with s show ?thesis by (auto simp: delivered_def)
qed

end
