(* ===== verification/Connection.thy ===== *)
theory Connection
  imports Configuration
begin

text \<open>
  \<open>services/tcp/connection-handler/connection_handler.c\<close>. What the kernel answers is an
  argument: a descriptor or a negative number for the calls that return an \<open>int\<close>, and for
  \<open>recv\<close> a function of the state of the peer and the number of bytes asked for. The two
  static variables and a log of the descriptors opened and closed are the state.
  \<open>errno\<close> and its messages are not modelled.
\<close>

section \<open>The state\<close>

text \<open>\<open>bound_address\<close> points into the list of addresses, \<open>Freed\<close> once that list is.\<close>

record 'a conn_state =
  listener :: int
  bound_address :: "'a ptr"
  opened_fds :: "int list"
  closed_fds :: "int list"

definition boot_conn :: "'a conn_state" where
  "boot_conn = \<lparr>listener = - 1, bound_address = Null, opened_fds = [], closed_fds = []\<rparr>"

definition close_fd :: "int \<Rightarrow> 'a conn_state \<Rightarrow> 'a conn_state" where
  "close_fd fd st = st\<lparr>closed_fds := closed_fds st @ [fd]\<rparr>"

text \<open>A descriptor the kernel hands out; a negative answer opens nothing.\<close>

definition open_fd :: "int \<Rightarrow> 'a conn_state \<Rightarrow> 'a conn_state" where
  "open_fd fd st = (if fd < 0 then st else st\<lparr>opened_fds := opened_fds st @ [fd]\<rparr>)"

section \<open>The listening socket\<close>

definition get_socket_descriptor :: "'a conn_state \<Rightarrow> int \<Rightarrow> bool \<times> int" where
  "get_socket_descriptor st result =
     (if listener st < 0 then (False, result) else (True, listener st))"

text \<open>
  \<open>find_bind\<close> on the static \<open>socket_descriptor\<close>; \<open>sock\<close> and \<open>bind_to\<close> are the
  answers of \<open>socket\<close> and \<open>bind\<close>. The result of \<open>setsockopt\<close> is not looked at.
\<close>

fun find_bind :: "('a \<Rightarrow> int) \<Rightarrow> (int \<Rightarrow> 'a \<Rightarrow> int) \<Rightarrow> 'a list \<Rightarrow> 'a conn_state \<Rightarrow> bool \<times> 'a conn_state" where
  "find_bind sock bind_to [] st = (\<not> listener st < 0, st)"
| "find_bind sock bind_to (a # addresses) st =
     (let fd = sock a; st1 = open_fd fd (st\<lparr>listener := fd\<rparr>)
      in if fd < 0 then find_bind sock bind_to addresses st1
         else if bind_to fd a < 0 then
           find_bind sock bind_to addresses ((close_fd fd st1)\<lparr>listener := - 1\<rparr>)
         else (\<not> listener st1 < 0, st1\<lparr>bound_address := Live a\<rparr>))"

text \<open>\<open>freeaddrinfo\<close> on the list \<open>bound_address\<close> points into.\<close>

definition free_addresses :: "'a conn_state \<Rightarrow> 'a conn_state" where
  "free_addresses st =
     st\<lparr>bound_address := (case bound_address st of Null \<Rightarrow> Null | _ \<Rightarrow> Freed)\<rparr>"

definition find_connection ::
  "('a \<Rightarrow> int) \<Rightarrow> (int \<Rightarrow> 'a \<Rightarrow> int) \<Rightarrow> (int \<Rightarrow> int) \<Rightarrow> 'a list \<Rightarrow> 'a conn_state \<Rightarrow> bool \<times> 'a conn_state" where
  "find_connection sock bind_to connect_to addresses st =
     (let (bound, st1) = find_bind sock bind_to addresses st
      in if \<not> bound then (False, st1)
         else if connect_to (listener st1) < 0 then (False, close_fd (listener st1) st1)
         else (True, free_addresses st1))"

definition find_listen ::
  "('a \<Rightarrow> int) \<Rightarrow> (int \<Rightarrow> 'a \<Rightarrow> int) \<Rightarrow> (int \<Rightarrow> int \<Rightarrow> int) \<Rightarrow> configuration \<Rightarrow> 'a list
     \<Rightarrow> 'a conn_state \<Rightarrow> bool \<times> 'a conn_state" where
  "find_listen sock bind_to listen_on cfg addresses st =
     (let (bound, st1) = find_bind sock bind_to addresses st
      in if \<not> bound then (False, st1)
         else if \<not> validate_syscall (listen_on (listener st1) (sint (ucast (max_connections cfg) :: 32 word)))
                     (Some ''find_listen'')
         then (False, st1) else (True, st1))"

section \<open>Connections\<close>

definition shutdown_connection :: "int \<Rightarrow> bool" where
  "shutdown_connection shutdown_return =
     (if \<not> validate_syscall shutdown_return (Some ''shutdown_connection'') then False else True)"

text \<open>\<open>accepted\<close> is the answer of \<open>accept\<close>, \<open>timeout_set\<close> that of \<open>setsockopt\<close>.\<close>

definition accept_connection ::
  "int \<Rightarrow> int \<Rightarrow> 'a conn_state \<Rightarrow> bool \<times> int \<times> 'a conn_state" where
  "accept_connection accepted timeout_set st =
     (let st1 = open_fd accepted st
      in if \<not> validate_syscall accepted (Some ''accept_connection'') then (False, - 1, st1)
         else if \<not> validate_syscall timeout_set (Some ''accept_connection'') then (False, - 1, st1)
         else (True, accepted, st1))"

definition close_connection :: "int \<Rightarrow> 'a conn_state \<Rightarrow> bool \<times> 'a conn_state" where
  "close_connection client_descriptor st =
     (let st1 = close_fd (listener st) st
      in if \<not> validate_syscall client_descriptor (Some ''close_connection'') then (False, st1)
         else (True, st1))"

section \<open>Data\<close>

text \<open>A local variable without initialiser is \<open>None\<close> until it is assigned.\<close>

definition read_local :: "'a option \<Rightarrow> fault + 'a" where
  "read_local v = (case v of None \<Rightarrow> Inl Uninit_Read | Some x \<Rightarrow> Inr x)"

text \<open>
  \<open>send_data\<close>: the initialiser of \<open>bytes_sent\<close> uses \<open>bytes_sent\<close>. \<open>send_to\<close> is
  the answer of \<open>send\<close> to an offset and a length.
\<close>

function send_data :: "(size_t \<Rightarrow> size_t \<Rightarrow> size_t) \<Rightarrow> size_t \<Rightarrow> size_t \<Rightarrow> fault + bool" where
  "send_data send_to data_length total_bytes_sent =
     (if total_bytes_sent < data_length then
        cbind (read_local None)
          (\<lambda>bytes_sent.
             let sent = send_to bytes_sent (data_length - bytes_sent)
             in if \<not> validate_syscall (sint (ucast sent :: 32 word)) (Some ''send_data'') then Inr False
                else if sent = 0 then Inr False
                else send_data send_to data_length (total_bytes_sent + sent))
      else Inr True)"
  by pat_completeness auto
termination
  by (relation "measure (\<lambda>_. 0)") (auto simp: read_local_def)

declare send_data.simps [simp del]

text \<open>
  \<open>receive_data\<close>: \<open>recv peer n\<close> is \<open>None\<close> on an error, else the bytes received, with the
  state the peer is in afterwards. The results are the return value, the buffer and
  \<open>*num_bytes_read\<close>.
\<close>

type_synonym 's receiver = "'s \<Rightarrow> nat \<Rightarrow> byte list option \<times> 's"

definition receive_data ::
  "'s receiver \<Rightarrow> 's \<Rightarrow> nat \<Rightarrow> byte list \<Rightarrow> nat \<Rightarrow> fault + (bool \<times> byte list \<times> nat \<times> 's)" where
  "receive_data recv peer buffer_length buffer num_bytes_read =
     (case recv peer buffer_length of
        (None, peer') \<Rightarrow> Inr (False, buffer, num_bytes_read, peer')
      | (Some bs, peer') \<Rightarrow>
          cbind (c_store buffer 0 bs)
            (\<lambda>buffer'. Inr (True, buffer', length bs, peer')))"

definition get_peer_name :: "int \<Rightarrow> bool" where
  "get_peer_name peer_return =
     (if \<not> validate_syscall peer_return (Some ''get_peer_name'') then False else True)"

definition get_host_name :: "int \<Rightarrow> bool" where
  "get_host_name host_return =
     (if \<not> validate_syscall host_return (Some ''get_host_name'') then False else True)"

section \<open>Lemmas\<close>

text \<open>What POSIX promises of \<open>recv\<close>: it never delivers more than it was asked for.\<close>

definition recv_bounded :: "'s receiver \<Rightarrow> bool" where
  "recv_bounded recv \<longleftrightarrow> (\<forall>peer n bs peer'. recv peer n = (Some bs, peer') \<longrightarrow> length bs \<le> n)"

lemma receive_data_zeroed:
  assumes "recv_bounded recv" and "n \<le> k"
  shows "receive_data recv peer n (replicate k 0) num =
           Inr (case recv peer n of
                  (None, peer') \<Rightarrow> (False, replicate k 0, num, peer')
                | (Some bs, peer') \<Rightarrow> (True, bs @ replicate (k - length bs) 0, length bs, peer'))"
proof (cases "recv peer n")
  case (Pair answer peer')
  show ?thesis
  proof (cases answer)
    case (Some bs)
    then have "length bs \<le> n" using assms(1) Pair by (auto simp: recv_bounded_def)
    then have "c_store (replicate k 0) 0 bs = Inr (bs @ replicate (k - length bs) 0)"
      using assms(2) by (simp add: c_store_def)
    with Pair Some show ?thesis by (simp add: receive_data_def)
  qed (simp add: Pair receive_data_def)
qed

text \<open>
  First fit: the result is the first address that gives a socket and binds; every socket
  opened before it has been closed.
\<close>

definition binds :: "('a \<Rightarrow> int) \<Rightarrow> (int \<Rightarrow> 'a \<Rightarrow> int) \<Rightarrow> 'a \<Rightarrow> bool" where
  "binds sock bind_to a \<longleftrightarrow> 0 \<le> sock a \<and> 0 \<le> bind_to (sock a) a"

lemma find_bind_first_fit:
  "find_bind sock bind_to addresses st =
     (let tried = map sock (filter (\<lambda>a. 0 \<le> sock a) (takeWhile (\<lambda>a. \<not> binds sock bind_to a) addresses));
          st' = st\<lparr>opened_fds := opened_fds st @ tried, closed_fds := closed_fds st @ tried\<rparr>
      in case find (binds sock bind_to) addresses of
           Some a \<Rightarrow> (True, st'\<lparr>listener := sock a, bound_address := Live a,
                                opened_fds := opened_fds st @ tried @ [sock a]\<rparr>)
         | None \<Rightarrow> if addresses = [] then (0 \<le> listener st, st)
                   else (False, st'\<lparr>listener := (if sock (last addresses) < 0 then sock (last addresses) else - 1)\<rparr>))"
  (is "_ = ?r addresses st")
proof (induction addresses arbitrary: st)
  case (Cons a as)
  show ?case
  proof (cases "binds sock bind_to a")
    case True
    then show ?thesis by (simp add: binds_def open_fd_def Let_def)
  next
    case False
    then consider (no_sock) "sock a < 0" | (no_bind) "0 \<le> sock a" "bind_to (sock a) a < 0"
      by (cases "sock a < 0") (simp_all add: binds_def not_le)
    then show ?thesis
      by cases (use False Cons in
        \<open>simp_all add: open_fd_def close_fd_def Let_def split: option.split\<close>)
  qed
qed (simp add: not_less)

end
