(* ===== verification/Request_Reader.thy ===== *)
theory Request_Reader
  imports Connection Http_Handler
begin

text \<open>
  The part of \<open>services/orchestration/thread-handler/thread_handler.c\<close> that reads a
  request from a socket: \<open>_get_request_headers\<close>, \<open>_get_request_contents\<close> and
  \<open>_process_request\<close>. The socket is a \<open>receiver\<close> and the state of its peer. The
  request buffer is a heap block, so a result carries the pointer to it, \<open>Freed\<close> where
  the function released it. Byte counts are naturals; every one stays below 2^31.
\<close>

section \<open>Constants\<close>

definition RECEIVE_BUFFER_SIZE :: nat where "RECEIVE_BUFFER_SIZE = 32768"

definition END_OF_BUFFER :: "byte list" where "END_OF_BUFFER = [13, 10, 13, 10]"

definition CONTENT_LENGTH_HEADER :: "byte list" where
  "CONTENT_LENGTH_HEADER = map of_char ''Content-Length:''"

definition CONTENT_LENGTH_HEADER_LENGTH :: nat where "CONTENT_LENGTH_HEADER_LENGTH = 15"

section \<open>The header section\<close>

text \<open>\<open>free(buffer); return false;\<close>\<close>

definition release_buffer ::
  "byte list \<Rightarrow> nat \<Rightarrow> 's \<Rightarrow> fault + (bool \<times> byte list ptr \<times> nat \<times> 's)" where
  "release_buffer buffer count peer = cbind (cfree (Live buffer)) (\<lambda>b. Inr (False, b, count, peer))"

function get_request_headers ::
  "'s receiver \<Rightarrow> byte list \<Rightarrow> nat \<Rightarrow> 's \<Rightarrow> fault + (bool \<times> byte list ptr \<times> nat \<times> 's)" where
  "get_request_headers recv buffer total_bytes_read peer =
     cbind (c_load buffer total_bytes_read)
       (\<lambda>seen.
          if c_memmem seen END_OF_BUFFER then Inr (True, Live buffer, total_bytes_read, peer)
          else cbind (receive_data recv peer (MAX_HTTP_HEADER_LINE_SIZE - 1)
                        (replicate MAX_HTTP_HEADER_LINE_SIZE 0) 0)
            (\<lambda>(ok, header_buffer, num_bytes_read, peer').
               if \<not> ok then release_buffer buffer total_bytes_read peer'
               else if total_bytes_read + num_bytes_read > MAX_HTTP_HEADER_LINE_SIZE
                 then release_buffer buffer total_bytes_read peer'
               else if num_bytes_read < 1 then release_buffer buffer total_bytes_read peer'
               else cbind (c_load header_buffer num_bytes_read)
                 (\<lambda>bs. cbind (c_store buffer total_bytes_read bs)
                   (\<lambda>buffer'. get_request_headers recv buffer' (total_bytes_read + num_bytes_read) peer'))))"
  by pat_completeness auto
termination
  by (relation "measure (\<lambda>(recv, buffer, count, peer). MAX_HTTP_HEADER_LINE_SIZE - count)") auto

declare get_request_headers.simps [simp del]

section \<open>The body\<close>

text \<open>
  \<open>strtoul(region, NULL, 10)\<close>: the value, and whether \<open>errno\<close> is set. Whether it is set
  when there is no digit depends on the platform and is the argument \<open>einval\<close>.
\<close>

definition is_space :: "byte \<Rightarrow> bool" where
  "is_space c \<longleftrightarrow> c = 32 \<or> 9 \<le> c \<and> c \<le> 13"

definition c_strtoul :: "bool \<Rightarrow> byte list \<Rightarrow> fault + (size_t \<times> bool)" where
  "c_strtoul einval region =
     (let s = dropWhile is_space region;
          negative = (case s of c # _ \<Rightarrow> c = 45 | [] \<Rightarrow> False);
          s' = (case s of c # r \<Rightarrow> if c = 45 \<or> c = 43 then r else s | [] \<Rightarrow> []);
          ds = takeWhile is_digit s'
      in if dropWhile is_digit s' = [] then Inl Out_Of_Bounds
         else if ds = [] then Inr (0, einval)
         else if dec_value ds \<ge> 2 ^ 64 then Inr (- 1, True)
         else Inr (if negative then - of_nat (dec_value ds) else of_nat (dec_value ds), False))"

text \<open>
  The loop over the body. \<open>total_bytes_read\<close> is a pointer to one \<open>int32_t\<close>, and
  \<open>total_bytes_read += num_bytes_read\<close> moves the pointer: \<open>cells\<close> is the object it points
  into, \<open>cursor\<close> its offset there.
\<close>

function contents_loop ::
  "'s receiver \<Rightarrow> nat \<Rightarrow> nat \<Rightarrow> nat \<Rightarrow> byte list \<Rightarrow> nat list \<Rightarrow> nat \<Rightarrow> 's
     \<Rightarrow> fault + (bool \<times> byte list ptr \<times> 's)" where
  "contents_loop recv content_length receive_buffer_size body_bytes_read buffer cells cursor peer =
     (if body_bytes_read < content_length then
        (let asked = (if content_length - body_bytes_read < receive_buffer_size
                      then content_length - body_bytes_read else receive_buffer_size)
         in cbind (receive_data recv peer asked (replicate RECEIVE_BUFFER_SIZE 0) 0)
              (\<lambda>(ok, body_buffer, num_bytes_read, peer').
                 if \<not> ok then cbind (cfree (Live buffer)) (\<lambda>b. Inr (False, b, peer'))
                 else if num_bytes_read < 1 then Inr (True, Live buffer, peer')
                 else cbind (c_load body_buffer num_bytes_read)
                   (\<lambda>bs. cbind (rd cells cursor)
                     (\<lambda>total_bytes_read. cbind (c_store buffer total_bytes_read bs)
                       (\<lambda>buffer'. contents_loop recv content_length asked
                          (body_bytes_read + num_bytes_read) buffer' cells (cursor + num_bytes_read) peer')))))
      else Inr (True, Live buffer, peer))"
  by pat_completeness auto
termination
  by (relation "measure (\<lambda>(recv, content_length, size, body_read, buffer, cells, at, peer). content_length - body_read)")
     auto

declare contents_loop.simps [simp del]

text \<open>\<open>header\<close> is the offset of the Content-Length header in the buffer.\<close>

definition get_request_contents ::
  "'s receiver \<Rightarrow> bool \<Rightarrow> byte list \<Rightarrow> nat \<Rightarrow> nat \<Rightarrow> 's \<Rightarrow> fault + (bool \<times> byte list ptr \<times> 's)" where
  "get_request_contents recv einval buffer header total_bytes_read peer =
     cbind (c_strtoul einval (drop (header + CONTENT_LENGTH_HEADER_LENGTH) buffer))
       (\<lambda>(content_length, errno).
          if errno then cbind (cfree (Live buffer)) (\<lambda>b. Inr (False, b, peer))
          else if unat content_length > RECEIVE_BUFFER_SIZE
            then cbind (cfree (Live buffer)) (\<lambda>b. Inr (False, b, peer))
          else if content_length > 0 then
            contents_loop recv (unat content_length) RECEIVE_BUFFER_SIZE 0 buffer [total_bytes_read] 0 peer
          else Inr (True, Live buffer, peer))"

section \<open>The request\<close>

text \<open>
  The end of \<open>_process_request\<close>, from the allocation of the response buffer on. The results
  are the return value, the pointers to the request buffer and to the response buffer as they
  are on return, the number of allocations made and the state of the peer.
\<close>

definition respond ::
  "allocator \<Rightarrow> stack_bytes \<Rightarrow> nat \<Rightarrow> int \<Rightarrow> byte list ptr \<Rightarrow> nat \<Rightarrow> 's
     \<Rightarrow> fault + (bool \<times> byte list ptr \<times> http_request ptr \<times> nat \<times> 's)" where
  "respond alloc stack n socket_descriptor b total_bytes_read peer =
     (if \<not> alloc n then Inr (False, b, Null, Suc n, peer)
      else cbind (deref b)
        (\<lambda>message. cbind (process_http_request alloc stack (Suc n) socket_descriptor
                            (Some message) total_bytes_read (Some (Live zero_request)))
          (\<lambda>(ok, n'). cbind (cfree (Live zero_request))
            (\<lambda>response. cbind (cfree b)
              (\<lambda>b'. Inr (ok, b', response, n', peer))))))"

definition process_request ::
  "allocator \<Rightarrow> stack_bytes \<Rightarrow> bool \<Rightarrow> 's receiver \<Rightarrow> nat \<Rightarrow> int \<Rightarrow> 's
     \<Rightarrow> fault + (bool \<times> byte list ptr \<times> http_request ptr \<times> nat \<times> 's)" where
  "process_request alloc stack einval recv n socket_descriptor peer =
     (if \<not> alloc n then Inr (False, Null, Null, Suc n, peer)
      else cbind (get_request_headers recv (replicate RECEIVE_BUFFER_SIZE 0) 0 peer)
        (\<lambda>(ok, b, total_bytes_read, peer1).
           if \<not> ok then Inr (False, b, Null, Suc n, peer1)
           else cbind (deref b)
             (\<lambda>buffer. cbind (c_strstr buffer CONTENT_LENGTH_HEADER 0)
               (\<lambda>content_length_header.
                  cbind
                    (case content_length_header of
                       None \<Rightarrow> Inr (True, b, peer1)
                     | Some header \<Rightarrow> get_request_contents recv einval buffer header total_bytes_read peer1)
                    (\<lambda>(ok, b', peer2).
                       if \<not> ok then Inr (False, b', Null, Suc n, peer2)
                       else respond alloc stack (Suc n) socket_descriptor b' total_bytes_read peer2)))))"

section \<open>Reading headers\<close>

text \<open>The block with the first bytes of the stream in it.\<close>

definition filled :: "byte list \<Rightarrow> byte list" where
  "filled bs = bs @ replicate (RECEIVE_BUFFER_SIZE - length bs) 0"

lemma header_sizes: "MAX_HTTP_HEADER_LINE_SIZE \<le> RECEIVE_BUFFER_SIZE"
  by (simp add: MAX_HTTP_HEADER_LINE_SIZE_def RECEIVE_BUFFER_SIZE_def)

lemma c_load_front: "c_load (cs @ r) (length cs) = Inr cs"
  by (simp add: c_load_def)

lemma filled_load: "c_load (filled bs) (length bs) = Inr bs"
  by (simp add: c_load_def filled_def)

lemma filled_store:
  "length bs + length cs \<le> RECEIVE_BUFFER_SIZE \<Longrightarrow> c_store (filled bs) (length bs) cs = Inr (filled (bs @ cs))"
  by (simp add: c_store_def filled_def)

lemma release_buffer_simp: "release_buffer buffer count peer = Inr (False, Freed, count, peer)"
  by (simp add: release_buffer_def)

text \<open>One round of the loop.\<close>

lemma headers_step:
  assumes "recv_bounded recv" and "length bs \<le> MAX_HTTP_HEADER_LINE_SIZE"
  shows "get_request_headers recv (filled bs) (length bs) peer =
           (if c_memmem bs END_OF_BUFFER then Inr (True, Live (filled bs), length bs, peer)
            else case recv peer (MAX_HTTP_HEADER_LINE_SIZE - 1) of
                   (None, peer') \<Rightarrow> Inr (False, Freed, length bs, peer')
                 | (Some cs, peer') \<Rightarrow>
                     if length (bs @ cs) > MAX_HTTP_HEADER_LINE_SIZE \<or> cs = []
                     then Inr (False, Freed, length bs, peer')
                     else get_request_headers recv (filled (bs @ cs)) (length (bs @ cs)) peer')"
proof -
  have "receive_data recv peer (MAX_HTTP_HEADER_LINE_SIZE - 1) (replicate MAX_HTTP_HEADER_LINE_SIZE 0) 0 =
      Inr (case recv peer (MAX_HTTP_HEADER_LINE_SIZE - 1) of
             (None, peer') \<Rightarrow> (False, replicate MAX_HTTP_HEADER_LINE_SIZE 0, 0, peer')
           | (Some cs, peer') \<Rightarrow> (True, cs @ replicate (MAX_HTTP_HEADER_LINE_SIZE - length cs) 0, length cs, peer'))"
    by (rule receive_data_zeroed [OF assms(1)]) simp
  moreover have "c_store (filled bs) (length bs) cs = Inr (filled (bs @ cs))"
    if "length bs + length cs \<le> MAX_HTTP_HEADER_LINE_SIZE" for cs
    using that header_sizes by (intro filled_store) simp
  ultimately show ?thesis
    by (subst get_request_headers.simps)
       (auto simp: filled_load release_buffer_simp c_load_front split: prod.split option.split)
qed

end
