(* ===== verification/Reader_Properties.thy ===== *)
theory Reader_Properties
  imports Request_Reader Http_Properties
begin

text \<open>
  The properties of the request reader: the header loop on any and on a given peer, a body
  that comes in one piece and one that does not, and what \<open>_process_request\<close> leaves
  behind.
\<close>

section \<open>The header loop\<close>

lemma headers_outcome:
  assumes "recv_bounded recv" and "length bs \<le> MAX_HTTP_HEADER_LINE_SIZE"
  shows "\<exists>ok b k peer'. get_request_headers recv (filled bs) (length bs) peer = Inr (ok, b, k, peer') \<and>
           (if ok then \<exists>cs. b = Live (filled (bs @ cs)) \<and> k = length (bs @ cs) \<and>
                              k \<le> MAX_HTTP_HEADER_LINE_SIZE \<and> c_memmem (bs @ cs) END_OF_BUFFER
            else b = Freed)"
  using assms(2)
proof (induction "MAX_HTTP_HEADER_LINE_SIZE - length bs" arbitrary: bs peer rule: less_induct)
  case less
  note step = headers_step [OF assms(1) less.prems, of peer]
  show ?case
  proof (cases "c_memmem bs END_OF_BUFFER")
    case True
    then show ?thesis using step less.prems by (auto intro: exI [of _ "[]"])
  next
    case False
    obtain answer peer' where answer: "recv peer (MAX_HTTP_HEADER_LINE_SIZE - 1) = (answer, peer')"
      by (cases "recv peer (MAX_HTTP_HEADER_LINE_SIZE - 1)")
    show ?thesis
    proof (cases answer)
      case None
      then show ?thesis using step False answer by auto
    next
      case (Some cs)
      show ?thesis
      proof (cases "length (bs @ cs) > MAX_HTTP_HEADER_LINE_SIZE \<or> cs = []")
        case True
        then show ?thesis using step False answer Some by auto
      next
        case fits: False
        then have "MAX_HTTP_HEADER_LINE_SIZE - length (bs @ cs) < MAX_HTTP_HEADER_LINE_SIZE - length bs"
          and "length (bs @ cs) \<le> MAX_HTTP_HEADER_LINE_SIZE"
          by (cases cs; simp)+
        from less.hyps [OF this, of peer'] show ?thesis
          using step False answer Some fits by (fastforce split: if_splits)
      qed
    qed
  qed
qed

text \<open>A peer that answers the reader's calls with the given pieces.\<close>

fun delivers :: "'s receiver \<Rightarrow> 's \<Rightarrow> byte list list \<Rightarrow> 's \<Rightarrow> bool" where
  "delivers recv peer [] peer' \<longleftrightarrow> peer = peer'"
| "delivers recv peer (c # cs) peer' \<longleftrightarrow>
     (case recv peer (MAX_HTTP_HEADER_LINE_SIZE - 1) of
        (Some b, p) \<Rightarrow> b = c \<and> delivers recv p cs peer'
      | (None, p) \<Rightarrow> False)"

definition ends_with_piece :: "byte list list \<Rightarrow> bool" where
  "ends_with_piece cs \<longleftrightarrow>
     list_all (\<lambda>i. \<not> c_memmem (concat (take i cs)) END_OF_BUFFER) [0..<length cs] \<and>
     c_memmem (concat cs) END_OF_BUFFER"

lemma headers_collected:
  assumes "recv_bounded recv" and "delivers recv peer cs peer'" and "[] \<notin> set cs"
    and "\<forall>i < length cs. \<not> c_memmem (bs @ concat (take i cs)) END_OF_BUFFER"
    and "c_memmem (bs @ concat cs) END_OF_BUFFER" and "length (bs @ concat cs) \<le> MAX_HTTP_HEADER_LINE_SIZE"
  shows "get_request_headers recv (filled bs) (length bs) peer =
           Inr (True, Live (filled (bs @ concat cs)), length (bs @ concat cs), peer')"
  using assms(2-)
proof (induction cs arbitrary: bs peer)
  case Nil
  then show ?case using headers_step [OF assms(1), of bs peer] by simp
next
  case (Cons c cs)
  obtain p where p: "recv peer (MAX_HTTP_HEADER_LINE_SIZE - 1) = (Some c, p)" "delivers recv p cs peer'"
    using Cons.prems(1) by (auto split: prod.splits option.splits)
  have "\<not> c_memmem bs END_OF_BUFFER" using Cons.prems(3) by fastforce
  then have "get_request_headers recv (filled bs) (length bs) peer =
      get_request_headers recv (filled (bs @ c)) (length (bs @ c)) p"
    using headers_step [OF assms(1), of bs peer] Cons.prems(2,5) p(1) by auto
  also have "\<dots> = Inr (True, Live (filled ((bs @ c) @ concat cs)), length ((bs @ c) @ concat cs), peer')"
  proof (rule Cons.IH [OF p(2)])
    show "\<forall>i<length cs. \<not> c_memmem ((bs @ c) @ concat (take i cs)) END_OF_BUFFER"
    proof (intro allI impI)
      fix i assume "i < length cs"
      then show "\<not> c_memmem ((bs @ c) @ concat (take i cs)) END_OF_BUFFER"
        using Cons.prems(3) [rule_format, of "Suc i"] by simp
    qed
  qed (use Cons.prems in simp_all)
  finally show ?case by simp
qed

section \<open>A scripted peer\<close>

text \<open>A peer that sends the given packets, each at most as long as asked for.\<close>

fun scripted :: "byte list list receiver" where
  "scripted [] n = (Some [], [])"
| "scripted (c # cs) n = (if length c \<le> n then (Some c, cs) else (Some (take n c), drop n c # cs))"

lemma scripted_bounded: "recv_bounded scripted"
  unfolding recv_bounded_def
proof (intro allI impI)
  fix peer n bs peer'
  assume "scripted peer n = (Some bs, peer')"
  then show "length bs \<le> n" by (cases peer) (auto split: if_splits)
qed

section \<open>The buffers\<close>

lemma headers_released: "get_request_headers recv buffer k peer = Inr (False, b, k', peer') \<Longrightarrow> b = Freed"
proof (induction recv buffer k peer rule: get_request_headers.induct)
  case (1 recv buffer k peer)
  show ?case
    using 1(2)
    by (subst (asm) get_request_headers.simps)
       (auto simp: cbind_eq_Inr release_buffer_simp split: if_splits prod.splits dest!: 1(1))
qed

lemma contents_released: "contents_loop recv L asked k buffer cells c peer = Inr (False, b, peer') \<Longrightarrow> b = Freed"
proof (induction recv L asked k buffer cells c peer rule: contents_loop.induct)
  case (1 recv L asked k buffer cells c peer)
  show ?case
    using 1(2)
    by (subst (asm) contents_loop.simps)
       (auto simp: cbind_eq_Inr Let_def split: if_splits prod.splits dest!: 1(1))
qed

section \<open>Bodies\<close>

lemma strtoul_digits:
  assumes "list_all is_space sp" and "list_all is_digit ds" and "ds \<noteq> []" and "\<not> is_digit d"
    and "dec_value ds < 2 ^ 64"
  shows "c_strtoul einval (sp @ ds @ d # rest) = Inr (of_nat (dec_value ds), False)"
proof -
  obtain c ds' where ds: "ds = c # ds'" using assms(3) by (cases ds) auto
  have c: "is_digit c" using assms(2) by (simp add: ds)
  then have "\<not> is_space c" "c \<noteq> 45" "c \<noteq> 43"
    by - (erule is_digit_obtains, drule below_ten, auto simp: is_space_def digit_def)+
  moreover have "dropWhile is_space (sp @ ds @ d # rest) = dropWhile is_space (ds @ d # rest)"
    using assms(1) by (simp add: list_all_iff)
  moreover have "takeWhile is_digit (ds @ d # rest) = ds" "dropWhile is_digit (ds @ d # rest) = d # rest"
    using assms(2,4) by (simp_all add: list_all_iff)
  moreover have "is_digit c" by (rule c)
  ultimately show ?thesis using assms(4,5) by (auto simp: c_strtoul_def ds Let_def)
qed

text \<open>The buffer has a Content-Length header with the number \<open>L\<close> at \<open>pos\<close>.\<close>

definition announces :: "byte list \<Rightarrow> nat \<Rightarrow> nat \<Rightarrow> bool" where
  "announces buffer pos L \<longleftrightarrow>
     (let s = dropWhile is_space (drop (pos + CONTENT_LENGTH_HEADER_LENGTH) buffer)
      in takeWhile is_digit s \<noteq> [] \<and> dropWhile is_digit s \<noteq> [] \<and> dec_value (takeWhile is_digit s) = L)"

lemma announced_length:
  assumes "announces buffer pos L" and "L < 2 ^ 64"
  shows "c_strtoul einval (drop (pos + CONTENT_LENGTH_HEADER_LENGTH) buffer) = Inr (of_nat L, False)"
proof -
  let ?r = "drop (pos + CONTENT_LENGTH_HEADER_LENGTH) buffer"
  let ?s = "dropWhile is_space ?r"
  obtain d rest where d: "dropWhile is_digit ?s = d # rest"
    using assms(1) by (cases "dropWhile is_digit ?s") (auto simp: announces_def Let_def)
  then have "\<not> is_digit d" by (metis dropWhile_eq_Cons_conv)
  moreover have "?r = takeWhile is_space ?r @ takeWhile is_digit ?s @ d # rest"
    using d by (metis takeWhile_dropWhile_id)
  moreover have "list_all is_space (takeWhile is_space ?r)" "list_all is_digit (takeWhile is_digit ?s)"
    by (auto simp: list_all_iff dest: set_takeWhileD)
  ultimately show ?thesis
    using assms strtoul_digits [of "takeWhile is_space ?r" "takeWhile is_digit ?s" d einval rest]
    by (simp add: announces_def Let_def)
qed

lemma contents_start:
  assumes "announces buffer pos L" and "0 < L" and "L \<le> RECEIVE_BUFFER_SIZE"
  shows "get_request_contents recv einval buffer pos k peer =
           contents_loop recv L RECEIVE_BUFFER_SIZE 0 buffer [k] 0 peer"
proof -
  have "L < 2 ^ 64" using assms(3) by (simp add: RECEIVE_BUFFER_SIZE_def)
  moreover from this have "unat (of_nat L :: size_t) = L" by (simp add: unat_of_nat take_bit_nat_eq_self)
  moreover from this have "(0 :: size_t) < of_nat L" using assms(2) by (simp add: word_less_nat_alt)
  ultimately show ?thesis
    using assms(3) by (simp add: get_request_contents_def announced_length [OF assms(1)])
qed

text \<open>One round of the loop over the body.\<close>

lemma contents_step:
  assumes "recv_bounded recv" and "k < L" and "asked = min (L - k) bound" and "bound \<le> RECEIVE_BUFFER_SIZE"
    and "recv peer asked = (Some bs, peer')" and "bs \<noteq> []"
  shows "contents_loop recv L bound k buffer cells c peer =
           cbind (rd cells c) (\<lambda>t. cbind (c_store buffer t bs)
             (\<lambda>buffer'. contents_loop recv L asked (k + length bs) buffer' cells (c + length bs) peer'))"
proof -
  have "receive_data recv peer asked (replicate RECEIVE_BUFFER_SIZE 0) 0 =
      Inr (True, bs @ replicate (RECEIVE_BUFFER_SIZE - length bs) 0, length bs, peer')"
    using receive_data_zeroed [OF assms(1), of asked RECEIVE_BUFFER_SIZE peer 0] assms(3-5) by simp
  moreover have "asked = (if L - k < bound then L - k else bound)" using assms(3) by (simp add: min_def)
  ultimately show ?thesis
    using assms(2,6) by (subst contents_loop.simps) (simp add: Let_def c_load_front)
qed

section \<open>Properties\<close>

text \<open>
  C22: Reading the header section is safe and bounded for any peer that keeps the contract of
  \<open>recv\<close>: it never faults and always returns. On success the buffer holds what was received
  followed by zeros, at most 8192 bytes with the blank line among them, and the count says how
  many; on failure the buffer has been freed.
\<close>

theorem request_headers_safe:
  assumes "recv_bounded recv"
  shows "\<exists>ok b k peer'. get_request_headers recv (replicate RECEIVE_BUFFER_SIZE 0) 0 peer = Inr (ok, b, k, peer') \<and>
           (if ok then \<exists>bs. b = Live (bs @ replicate (RECEIVE_BUFFER_SIZE - length bs) 0) \<and> k = length bs \<and>
                              k \<le> MAX_HTTP_HEADER_LINE_SIZE \<and> c_memmem bs END_OF_BUFFER
            else b = Freed)"
  using headers_outcome [OF assms, of "[]" peer]
  by (simp only: filled_def append_Nil list.size diff_zero)

theorem request_headers_safe_witness:
  "\<exists>ok b k peer'. get_request_headers scripted (replicate RECEIVE_BUFFER_SIZE 0) 0 [[1], [13, 10, 13, 10]]
       = Inr (ok, b, k, peer') \<and>
     (if ok then \<exists>bs. b = Live (bs @ replicate (RECEIVE_BUFFER_SIZE - length bs) 0) \<and> k = length bs \<and>
                        k \<le> MAX_HTTP_HEADER_LINE_SIZE \<and> c_memmem bs END_OF_BUFFER
      else b = Freed)"
  by (rule request_headers_safe [OF scripted_bounded])

text \<open>
  C25: However the peer splits its bytes, if the piece that completes the blank line comes
  before the 8192nd byte is exceeded and no piece is empty, the reader collects all pieces in order
  and stops right after that piece.
\<close>

theorem request_headers_collect:
  assumes "recv_bounded recv" and "delivers recv peer cs peer'" and "[] \<notin> set cs"
    and "ends_with_piece cs" and "length (concat cs) \<le> MAX_HTTP_HEADER_LINE_SIZE"
  shows "get_request_headers recv (replicate RECEIVE_BUFFER_SIZE 0) 0 peer =
           Inr (True, Live (concat cs @ replicate (RECEIVE_BUFFER_SIZE - length (concat cs)) 0),
                length (concat cs), peer')"
  using headers_collected [OF assms(1-3), of "[]"] assms(4,5)
  by (simp add: filled_def ends_with_piece_def list_all_iff)

theorem request_headers_collect_witness:
  "get_request_headers scripted (replicate RECEIVE_BUFFER_SIZE 0) 0 [[71, 13], [10, 13, 10, 7]] =
     Inr (True, Live (concat [[71, 13], [10, 13, 10, 7]] @
            replicate (RECEIVE_BUFFER_SIZE - length (concat [[71, 13], [10, 13, 10, 7 :: byte]])) 0),
          length (concat [[71, 13], [10, 13, 10, 7 :: byte]]), [])"
  by (rule request_headers_collect [OF scripted_bounded])
     (simp_all add: MAX_HTTP_HEADER_LINE_SIZE_def ends_with_piece_def END_OF_BUFFER_def c_memmem_def upt_rec)

text \<open>
  C33: A body that arrives in one piece is stored right behind the bytes read before, and the
  rest of the buffer is kept; the caller's byte count does not grow by it. There is no check
  that it fits: where it does not, the copy leaves the buffer.
\<close>

theorem body_in_one_piece:
  assumes "recv_bounded recv" and "announces buffer pos L" and "0 < L" and "L \<le> RECEIVE_BUFFER_SIZE"
    and "recv peer L = (Some bs, peer')" and "length bs = L"
  shows "get_request_contents recv einval buffer pos k peer =
           (if k + L \<le> length buffer
            then Inr (True, Live (take k buffer @ bs @ drop (k + L) buffer), peer')
            else Inl Out_Of_Bounds)"
proof -
  have "contents_loop recv L L L b [k] L peer' = Inr (True, Live b, peer')" for b
    by (subst contents_loop.simps) simp
  then show ?thesis
    using contents_step [OF assms(1,3), of L RECEIVE_BUFFER_SIZE peer bs peer' buffer "[k]" 0] assms(3-6)
    by (auto simp: contents_start [OF assms(2-4)] rd_def c_store_def)
qed

definition sample_buffer :: "byte list" where
  "sample_buffer = CONTENT_LENGTH_HEADER @ [32, 50, 13, 10, 13, 10, 0, 0]"

lemma sample_announces: "announces sample_buffer 0 2"
  by (simp add: announces_def sample_buffer_def CONTENT_LENGTH_HEADER_def CONTENT_LENGTH_HEADER_LENGTH_def
      is_space_def is_digit_def dec_value_def)

theorem body_in_one_piece_witness:
  "get_request_contents scripted True sample_buffer 0 21 [[1, 2]] =
     (if 21 + 2 \<le> length sample_buffer
      then Inr (True, Live (take 21 sample_buffer @ [1, 2] @ drop (21 + 2) sample_buffer), [])
      else Inl Out_Of_Bounds)"
  by (rule body_in_one_piece [OF scripted_bounded sample_announces])
     (simp_all add: RECEIVE_BUFFER_SIZE_def)

text \<open>
  C34: A body that arrives in two pieces makes the reader run out of bounds: after the first
  piece it has advanced the pointer to the byte count instead of the count, and the second
  piece is stored at whatever lies there.
\<close>

theorem body_in_two_pieces_faults:
  assumes "recv_bounded recv" and "announces buffer pos L" and "L \<le> RECEIVE_BUFFER_SIZE"
    and "recv peer L = (Some bs, peer1)" and "bs \<noteq> []" and "length bs < L"
    and "recv peer1 (L - length bs) = (Some cs, peer2)" and "cs \<noteq> []"
  shows "get_request_contents recv einval buffer pos k peer = Inl Out_Of_Bounds"
proof -
  have L: "0 < L" using assms(6) by simp
  have "contents_loop recv L L (length bs) b [k] (length bs) peer1 = Inl Out_Of_Bounds" for b
    using contents_step [OF assms(1,6), of "L - length bs" L peer1 cs peer2 b "[k]" "length bs"] assms(3,5-8)
    by (cases bs) (simp_all add: rd_out)
  then show ?thesis
    using contents_step [OF assms(1) L, of L RECEIVE_BUFFER_SIZE peer bs peer1 buffer "[k]" 0] assms(3-5)
    by (auto simp: contents_start [OF assms(2) L assms(3)] rd_def c_store_def)
qed

theorem body_in_two_pieces_faults_witness:
  "get_request_contents scripted True sample_buffer 0 21 [[1], [2]] = Inl Out_Of_Bounds"
  by (rule body_in_two_pieces_faults [OF scripted_bounded sample_announces, where bs = "[1]" and ?peer1.0 = "[[2]]"
        and cs = "[2]" and ?peer2.0 = "[]"])
     (simp_all add: RECEIVE_BUFFER_SIZE_def)

lemma get_contents_released:
  "get_request_contents recv einval buffer header k p = Inr (False, b, p') \<Longrightarrow> b = Freed"
  by (auto simp: get_request_contents_def cbind_eq_Inr dest: contents_released split: if_splits)

lemma respond_releases:
  assumes "respond alloc stack n socket b k p = Inr (ok, b', response, n', p')"
  shows "\<not> ok \<and> (\<forall>x. response \<noteq> Live x) \<and> ((\<exists>x. b' = Live x) \<longrightarrow> \<not> alloc n)"
  using assms process_http_request_not_true
  by (auto simp: respond_def cbind_eq_Inr cfree_Inr split: if_splits)

text \<open>
  C32: \<open>_process_request\<close> never returns true, and whenever it returns it has released the
  response buffer and, unless the allocation of the response buffer failed, the request
  buffer; only in that case is the request buffer leaked.
\<close>

theorem process_request_releases:
  assumes "process_request alloc stack einval recv n socket peer = Inr (ok, b, response, n', peer')"
  shows "\<not> ok \<and> (\<forall>x. response \<noteq> Live x) \<and> ((\<exists>x. b = Live x) \<longrightarrow> alloc n \<and> \<not> alloc (Suc n))"
proof -
  consider (refused) "\<not> ok" "b = Freed" "response = Null"
    | (memory) "\<not> ok" "b = Null" "response = Null"
    | (last) b' k p where "respond alloc stack (Suc n) socket b' k p = Inr (ok, b, response, n', peer')" "alloc n"
    using assms
    by (auto simp: process_request_def cbind_eq_Inr split: if_splits option.splits
          dest!: headers_released get_contents_released)
  then show ?thesis by cases (auto dest: respond_releases)
qed

lemma closed_peer_run:
  "process_request (\<lambda>_. True) zero_stack True scripted 0 5 [] = Inr (False, Freed, Null, 1, [])"
proof -
  have "get_request_headers scripted (filled []) (length []) [] = Inr (False, Freed, 0, [])"
    using headers_step [OF scripted_bounded, of "[]" "[]"]
    by (simp add: c_memmem_def END_OF_BUFFER_def)
  then show ?thesis by (simp add: process_request_def filled_def)
qed

theorem process_request_releases_witness:
  "\<exists>ok b response. process_request (\<lambda>_. True) zero_stack True scripted 0 5 [] = Inr (ok, b, response, 1, []) \<and>
     \<not> ok \<and> (\<forall>x. response \<noteq> Live x)"
proof (intro exI conjI)
  note outcome = process_request_releases [OF closed_peer_run]
  show "process_request (\<lambda>_. True) zero_stack True scripted 0 5 [] = Inr (False, Freed, Null, 1, [])"
    by (rule closed_peer_run)
  show "\<not> False" by (rule conjunct1 [OF outcome])
  show "\<forall>x. (Null :: http_request ptr) \<noteq> Live x" by (rule conjunct1 [OF conjunct2 [OF outcome]])
qed

section \<open>A whole connection\<close>

lemma c_strstr_None:
  "terminated r \<Longrightarrow> \<not> sublist needle (cstring r) \<Longrightarrow> c_strstr r needle pos = Inr None"
proof (induction r arbitrary: pos)
  case (Cons c r)
  then have "\<not> prefix needle (cstring (c # r))" by auto
  with Cons show ?case by (cases "c = 0") (auto simp: sublist_Cons_right)
qed simp

lemma field_bytes_no_nul: "list_all field_ok hs \<Longrightarrow> 0 \<notin> set (field_bytes hs)"
  by (induction hs) (auto dest: field_line_plain plain_text_no_nul)

lemma request_no_nul:
  assumes "request_line_ok stack req m r p" and "list_all field_ok hs"
  shows "0 \<notin> set (request_bytes m r p hs [])"
  using plain_text_no_nul [OF request_line_plain [OF assms(1)]] field_bytes_no_nul [OF assms(2)]
  by (simp add: request_bytes_def)

lemma request_bytes_body: "request_bytes m r p hs [] @ body = request_bytes m r p hs body"
  by (simp add: request_bytes_def)

lemma served_invalid_free:
  assumes "recv_bounded recv" and "delivers recv peer cs peer'" and "[] \<notin> set cs"
    and "ends_with_piece cs" and "length (concat cs) \<le> MAX_HTTP_HEADER_LINE_SIZE"
    and "concat cs = request_bytes m r p hs []" and "\<not> sublist CONTENT_LENGTH_HEADER (concat cs)"
    and "request_line_ok stack fresh_request m r p" and "list_all field_ok hs" and "\<forall>i. alloc i"
    and "length hs \<le> MAX_HTTP_HEADER_COUNT" and "host_values hs \<noteq> []"
  shows "process_request alloc stack einval recv n socket peer = Inl Invalid_Free"
proof -
  let ?req = "concat cs" and ?zeros = "replicate (RECEIVE_BUFFER_SIZE - length (concat cs)) (0 :: byte)"
  have read: "get_request_headers recv (replicate RECEIVE_BUFFER_SIZE 0) 0 peer =
      Inr (True, Live (?req @ ?zeros), length ?req, peer')"
    using headers_collected [OF assms(1-3), of "[]"] assms(4,5)
    by (simp add: filled_def ends_with_piece_def list_all_iff)
  have sizes: "0 < length ?req" "length ?req \<le> MAX_HTTP_HEADER_TOTAL_SIZE" "length ?req < RECEIVE_BUFFER_SIZE"
    using assms(5,6)
    by (simp_all add: request_bytes_def MAX_HTTP_HEADER_TOTAL_SIZE_def MAX_HTTP_HEADER_COUNT_def
        MAX_HTTP_HEADER_LINE_SIZE_def RECEIVE_BUFFER_SIZE_def)
  then obtain k where "RECEIVE_BUFFER_SIZE - length ?req = Suc k"
    by (cases "RECEIVE_BUFFER_SIZE - length ?req") auto
  then have "cstring (?req @ ?zeros) = ?req" "terminated (?req @ ?zeros)"
    using request_no_nul [OF assms(8,9)] assms(6) by simp_all
  then have search: "c_strstr (?req @ ?zeros) CONTENT_LENGTH_HEADER 0 = Inr None"
    using assms(7) by (simp add: c_strstr_None)
  have "process_http_request alloc stack (n + 2) socket (Some (?req @ ?zeros)) (length ?req) (Some (Live zero_request))
      = Inl Invalid_Free"
    using process_http_request_served [OF assms(8-12) sizes(1,2), of "n + 2" socket ?zeros "Live zero_request"]
    by (simp add: assms(6) request_bytes_body)
  then show ?thesis
    using assms(10) by (simp add: process_request_def read search respond_def)
qed

text \<open>
  End to end: a client that sends a well-formed request without a body (a Host field, at
  most 8192 bytes, in any pieces) brings the worker that serves it to an invalid \<open>free\<close>.
\<close>

theorem served_connection_invalid_free:
  assumes "recv_bounded recv" and "delivers recv peer cs peer'" and "[] \<notin> set cs"
    and "ends_with_piece cs" and "length (concat cs) \<le> MAX_HTTP_HEADER_LINE_SIZE"
    and "concat cs = request_bytes m r p hs []" and "\<not> sublist CONTENT_LENGTH_HEADER (concat cs)"
    and "request_line_ok stack fresh_request m r p" and "list_all field_ok hs" and "\<forall>i. alloc i"
    and "length hs \<le> MAX_HTTP_HEADER_COUNT" and "host_values hs \<noteq> []"
  shows "process_request alloc stack einval recv n socket peer = Inl Invalid_Free"
  using assms by (rule served_invalid_free)

lemma sample_request:
  "request_bytes get_method root_route http_1_1 [host_field] [] =
     [71, 69, 84, 32, 47, 32, 72, 84, 84, 80, 47, 49, 46, 49, 13, 10, 72, 111, 115, 116, 58, 32, 97, 13, 10, 13, 10]"
  by (simp add: request_bytes_def request_line_of_def get_method_def root_route_def http_1_1_def host_field_def
      field_line_def header_line_of_def)

theorem served_connection_invalid_free_witness:
  "process_request (\<lambda>_. True) zero_stack True scripted 0 5
     [request_bytes get_method root_route http_1_1 [host_field] []] = Inl Invalid_Free"
proof (rule served_connection_invalid_free [OF scripted_bounded, where hs = "[host_field]"])
  let ?r = "request_bytes get_method root_route http_1_1 [host_field] []"
  show "delivers scripted [?r] [?r] []"
    by (simp add: sample_request MAX_HTTP_HEADER_LINE_SIZE_def)
  show "ends_with_piece [?r]"
    by (simp add: sample_request ends_with_piece_def END_OF_BUFFER_def c_memmem_def)
  show "\<not> sublist CONTENT_LENGTH_HEADER (concat [?r])"
    by (simp add: sample_request CONTENT_LENGTH_HEADER_def sublist_Cons_right)
  show "request_line_ok zero_stack fresh_request get_method root_route http_1_1" by (rule sample_line_ok)
qed (simp_all add: sample_fields_ok sample_request MAX_HTTP_HEADER_LINE_SIZE_def MAX_HTTP_HEADER_COUNT_def
      sample_host)

end
