(* ===== verification/Pool_Serving.thy ===== *)
theory Pool_Serving
  imports Pool_Liveness Reader_Properties "HOL-Library.Multiset"
begin

text \<open>
  The thread pool with its work: the protocol of \<open>Thread_Pool\<close> and what a worker does between
  two rounds, \<open>_process_request\<close> and the close of the socket. Requests of different workers
  share nothing but the allocator, so one request is one step; a step that faults ends the
  program. Shown: the steps of the system are steps of the protocol, so that everything proved
  there holds here; every descriptor that arrived is in exactly one place, whatever the
  interleaving; and exactly when the program can end in a fault, that of a request being served
  or of the queue a pull from two left behind.
\<close>

section \<open>The system\<close>

record ('s, 'a) system =
  threads_of :: pool
  peer_of :: "int \<Rightarrow> 's"
  sockets :: "'a conn_state"
  allocations :: nat

datatype ('s, 'a) system_state = Running "('s, 'a) system" | Crashed fault

text \<open>
  \<open>protocol\<close> is any step of the pool but the end of a request. After \<open>_process_request\<close> both
  branches of \<open>thread_runner\<close> close the socket.
\<close>

inductive system_step ::
  "allocator \<Rightarrow> stack_bytes \<Rightarrow> bool \<Rightarrow> 's receiver \<Rightarrow> nat \<Rightarrow> ('s, 'a) system_state \<Rightarrow> ('s, 'a) system_state \<Rightarrow> bool"
  for alloc stack einval recv n where
  protocol: "pool_step n (threads_of x) s \<Longrightarrow>
    \<forall>w fd. worker (threads_of x) w = Serving fd \<longrightarrow> worker s w = Serving fd \<Longrightarrow>
    system_step alloc stack einval recv n (Running x) (Running (x\<lparr>threads_of := s\<rparr>))"
| serve: "w < n \<Longrightarrow> worker (threads_of x) w = Serving fd \<Longrightarrow>
    process_request alloc stack einval recv (allocations x) fd (peer_of x fd) = Inr (ok, b, response, k, peer) \<Longrightarrow>
    system_step alloc stack einval recv n (Running x)
      (Running (x\<lparr>threads_of := move w Locking (threads_of x), peer_of := (peer_of x)(fd := peer),
                  sockets := (if fd \<noteq> - 1 then close_fd fd (sockets x) else sockets x), allocations := k\<rparr>))"
| serve_fault: "w < n \<Longrightarrow> worker (threads_of x) w = Serving fd \<Longrightarrow>
    process_request alloc stack einval recv (allocations x) fd (peer_of x fd) = Inl e \<Longrightarrow>
    system_step alloc stack einval recv n (Running x) (Crashed e)"
| pull_fault: "w < n \<Longrightarrow> worker (threads_of x) w = Pulling \<Longrightarrow>
    pull_next_task (- 1) (queue (threads_of x)) = Inl e \<Longrightarrow>
    system_step alloc stack einval recv n (Running x) (Crashed e)"
| enqueue_fault: "producer (threads_of x) = Polling \<Longrightarrow>
    enqueue_task allocated d (queue (threads_of x)) = Inl e \<Longrightarrow>
    system_step alloc stack einval recv n (Running x) (Crashed e)"

inductive_cases system_stepE: "system_step alloc stack einval recv n (Running x) y"

definition boot_system :: "(int \<Rightarrow> 's) \<Rightarrow> 'a conn_state \<Rightarrow> nat \<Rightarrow> ('s, 'a) system" where
  "boot_system peers st k =
     \<lparr>threads_of = boot_pool, peer_of = peers, sockets = st, allocations = k\<rparr>"

definition system_reaches ::
  "allocator \<Rightarrow> stack_bytes \<Rightarrow> bool \<Rightarrow> 's receiver \<Rightarrow> nat \<Rightarrow> ('s, 'a) system \<Rightarrow> ('s, 'a) system_state \<Rightarrow> bool" where
  "system_reaches alloc stack einval recv n x y \<longleftrightarrow> (system_step alloc stack einval recv n)\<^sup>*\<^sup>* (Running x) y"

section \<open>The protocol underneath\<close>

lemma system_step_pool:
  assumes "system_step alloc stack einval recv n (Running x) (Running y)"
  shows "pool_step n (threads_of x) (threads_of y)"
  using assms by (rule system_stepE) (auto intro: pool_step.served)

lemma from_running: "system_step alloc stack einval recv n y z \<Longrightarrow> \<exists>x. y = Running x"
  by (induction rule: system_step.induct) simp_all

text \<open>What holds at the start and survives every step that does not crash holds of every state reached.\<close>

lemma system_invariant:
  assumes "system_reaches alloc stack einval recv n x0 (Running x)" and "P x0"
    and step: "\<And>x y. system_step alloc stack einval recv n (Running x) (Running y) \<Longrightarrow> P x \<Longrightarrow> P y"
  shows "P x"
proof -
  have "case y of Running x \<Rightarrow> P x | Crashed _ \<Rightarrow> True"
    if "(system_step alloc stack einval recv n)\<^sup>*\<^sup>* (Running x0) y" for y
    using that
  proof (induction rule: rtranclp_induct)
    case base
    then show ?case using assms(2) by simp
  next
    case (step y z)
    obtain x where y: "y = Running x" using from_running [OF step.hyps(2)] by blast
    then show ?case using step assms(3) [of x] by (cases z) auto
  qed
  from this [of "Running x"] show ?thesis using assms(1) by (simp add: system_reaches_def)
qed

lemma system_pool_reachable:
  assumes "system_reaches alloc stack einval recv n (boot_system peers st k) (Running x)"
  shows "reachable n (threads_of x)"
  by (rule system_invariant [OF assms])
    (auto simp: boot_system_def boot_reachable intro: reachable_step system_step_pool)

section \<open>Where the descriptors are\<close>

text \<open>The descriptor a worker has taken and not yet closed.\<close>

fun in_hand :: "worker_pc \<Rightarrow> int list" where
  "in_hand (Pulled (Some fd)) = [fd]"
| "in_hand (Serving fd) = [fd]"
| "in_hand _ = []"

definition held :: "nat \<Rightarrow> pool \<Rightarrow> int multiset" where
  "held n s = (\<Sum>w<n. mset (in_hand (worker s w)))"

lemma held_simps [simp]:
  "held n (s\<lparr>owner := a\<rparr>) = held n s" "held n (s\<lparr>queue := q\<rparr>) = held n s"
  "held n (s\<lparr>producer := p\<rparr>) = held n s" "held n (s\<lparr>arrived := ds\<rparr>) = held n s"
  "held n (s\<lparr>taken := ds\<rparr>) = held n s"
  by (simp_all add: held_def)

lemma held_move:
  assumes "w < n"
  shows "held n (move w pc s) + mset (in_hand (worker s w)) = held n s + mset (in_hand pc)"
proof -
  have split: "held n t = mset (in_hand (worker t w)) + (\<Sum>v\<in>{..<n} - {w}. mset (in_hand (worker t v)))" for t
    unfolding held_def using assms by (intro sum.remove) simp_all
  have "(\<Sum>v\<in>{..<n} - {w}. mset (in_hand (worker (move w pc s) v))) =
      (\<Sum>v\<in>{..<n} - {w}. mset (in_hand (worker s v)))"
    by (rule sum.cong) simp_all
  then show ?thesis by (simp add: split [of "move w pc s"] split [of s] ac_simps)
qed

lemma held_move_empty:
  "w < n \<Longrightarrow> in_hand (worker s w) = in_hand pc \<Longrightarrow> held n (move w pc s) = held n s"
  using held_move [of w n pc s] by simp

lemma pull_result:
  assumes "queue_state q" and "pull_next_task (- 1) q = Inr (ok, fd, q')" and "contents q \<noteq> []"
  shows "ok \<longleftrightarrow> 0 \<le> fd"
proof -
  have "queue_ok q" using assms(1,2) dangling_faults(2) by (auto simp: queue_state_def)
  moreover obtain d ds where "contents q = d # ds" using assms(3) by (cases "contents q") auto
  ultimately show ?thesis using pull_ok [of q d ds "- 1"] assms(2) by (auto split: if_splits)
qed

definition valid_fds :: "int list \<Rightarrow> int multiset" where
  "valid_fds ds = mset (filter (\<lambda>d. 0 \<le> d) ds)"

lemma valid_fds_simps [simp]:
  "valid_fds [] = {#}" "valid_fds (xs @ ys) = valid_fds xs + valid_fds ys"
  "valid_fds [d] = (if 0 \<le> d then {#d#} else {#})" "valid_fds (map delivered ds) = valid_fds ds"
  by (simp_all add: valid_fds_def) (induction ds; simp add: delivered_def)

text \<open>A step of the protocol that ends no request moves descriptors from the queue to a worker.\<close>

lemma held_protocol:
  assumes "pool_step n s t" and "queue_state (queue s)"
    and "\<forall>w fd. worker s w = Serving fd \<longrightarrow> worker t w = Serving fd"
  shows "held n t + valid_fds (taken s) = held n s + valid_fds (taken t)"
  using assms
proof (induction rule: pool_step.induct)
  case (pull w s ok fd q)
  have "held n (move w (Pulled (if ok then Some fd else None)) s) =
      held n s + mset (in_hand (Pulled (if ok then Some fd else None)))"
    using held_move [of w n "Pulled (if ok then Some fd else None)" s] pull.hyps by simp
  moreover have "ok \<longleftrightarrow> 0 \<le> fd" using pull_result pull by blast
  ultimately show ?case by simp
next
  case (served w s fd)
  from served.prems(2) have "worker (move w Locking s) w = Serving fd" using served.hyps by blast
  then show ?case by simp
qed (simp_all add: held_move_empty)

text \<open>
  Every descriptor taken from the queue is in the hands of a worker or closed; the ones closed
  before the start are \<open>closed0\<close>.
\<close>

definition accounted :: "nat \<Rightarrow> int list \<Rightarrow> ('s, 'a) system \<Rightarrow> bool" where
  "accounted n closed0 x \<longleftrightarrow>
     mset closed0 + valid_fds (taken (threads_of x)) = mset (closed_fds (sockets x)) + held n (threads_of x) \<and>
     (\<forall>fd \<in># held n (threads_of x). 0 \<le> fd)"

lemma accountedI:
  assumes "mset closed0 + valid_fds (taken (threads_of x)) = mset (closed_fds (sockets x)) + held n (threads_of x)"
    and "\<And>fd. fd \<in># held n (threads_of x) \<Longrightarrow> 0 \<le> fd"
  shows "accounted n closed0 x"
  using assms by (simp add: accounted_def)

lemma boot_accounted: "accounted n (closed_fds st) (boot_system peers st k)"
  by (simp add: accounted_def boot_system_def boot_pool_def held_def)

lemma held_after_protocol:
  assumes "held n t + valid_fds ts = held n s + valid_fds tt" and "\<forall>fd \<in># held n s. 0 \<le> fd"
    and "fd \<in># held n t"
  shows "0 \<le> fd"
proof -
  have "fd \<in># held n s + valid_fds tt" using assms(3) by (simp flip: assms(1))
  then show ?thesis using assms(2) by (auto simp: valid_fds_def)
qed

lemma accounted_step:
  assumes "system_step alloc stack einval recv n (Running x) (Running y)" and "accounted n closed0 x"
    and "queue_state (queue (threads_of x))"
  shows "accounted n closed0 y"
  using assms(1)
proof (rule system_stepE)
  fix s assume y: "Running y = Running (x\<lparr>threads_of := s\<rparr>)" and step: "pool_step n (threads_of x) s"
    and keep: "\<forall>w fd. worker (threads_of x) w = Serving fd \<longrightarrow> worker s w = Serving fd"
  note moved = held_protocol [OF step assms(3) keep]
  show ?thesis
  proof (rule accountedI)
    have "mset closed0 + valid_fds (taken s) + held n (threads_of x) =
        mset closed0 + (held n s + valid_fds (taken (threads_of x)))"
      by (simp only: moved) (simp add: ac_simps)
    also have "\<dots> = (mset closed0 + valid_fds (taken (threads_of x))) + held n s" by (simp add: ac_simps)
    also have "\<dots> = (mset (closed_fds (sockets x)) + held n s) + held n (threads_of x)"
      using assms(2) by (simp add: accounted_def ac_simps)
    finally show "mset closed0 + valid_fds (taken (threads_of y)) = mset (closed_fds (sockets y)) + held n (threads_of y)"
      using y by simp
  next
    fix fd assume "fd \<in># held n (threads_of y)"
    then show "0 \<le> fd" using held_after_protocol [OF moved] assms(2) y by (simp add: accounted_def)
  qed
next
  fix w fd ok b response k peer
  assume y: "Running y = Running (x\<lparr>threads_of := move w Locking (threads_of x), peer_of := (peer_of x)(fd := peer),
                  sockets := (if fd \<noteq> - 1 then close_fd fd (sockets x) else sockets x), allocations := k\<rparr>)"
    and w: "w < n" "worker (threads_of x) w = Serving fd"
  have held: "held n (threads_of x) = add_mset fd (held n (move w Locking (threads_of x)))"
    using held_move [OF w(1), of Locking "threads_of x"] w(2) by simp
  then have "fd \<noteq> - 1" using assms(2) by (auto simp: accounted_def)
  then show ?thesis
    using y assms(2) by (simp add: accounted_def held close_fd_def)
qed simp_all

lemma reached_accounted:
  assumes "system_reaches alloc stack einval recv n (boot_system peers st k) (Running x)"
  shows "reachable n (threads_of x) \<and> accounted n (closed_fds st) x"
proof (rule system_invariant [OF assms])
  show "reachable n (threads_of (boot_system peers st k)) \<and> accounted n (closed_fds st) (boot_system peers st k)"
    by (simp add: boot_system_def boot_reachable boot_accounted [unfolded boot_system_def])
next
  fix x y :: "('a, 'b) system"
  assume "system_step alloc stack einval recv n (Running x) (Running y)"
    and "reachable n (threads_of x) \<and> accounted n (closed_fds st) x"
  then show "reachable n (threads_of y) \<and> accounted n (closed_fds st) y"
    using accounted_step pool_invD(2) [OF reachable_inv] reachable_step system_step_pool by blast
qed

section \<open>Reaching states and crashes\<close>

lemma system_reaches_start: "system_reaches alloc stack einval recv n x (Running x)"
  by (simp add: system_reaches_def)

lemma system_reaches_step:
  "system_reaches alloc stack einval recv n x y \<Longrightarrow> system_step alloc stack einval recv n y z \<Longrightarrow>
     system_reaches alloc stack einval recv n x z"
  unfolding system_reaches_def by (rule rtranclp.rtrancl_into_rtrancl)

text \<open>While no worker serves, the protocol runs on its own.\<close>

definition nobody_serves :: "pool \<Rightarrow> bool" where
  "nobody_serves s \<longleftrightarrow> (\<forall>w fd. worker s w \<noteq> Serving fd)"

lemma nobody_serves_simps [simp]:
  "nobody_serves boot_pool" "nobody_serves (s\<lparr>owner := a\<rparr>) = nobody_serves s"
  "nobody_serves (s\<lparr>queue := q\<rparr>) = nobody_serves s" "nobody_serves (s\<lparr>producer := p\<rparr>) = nobody_serves s"
  "nobody_serves (s\<lparr>arrived := ds\<rparr>) = nobody_serves s" "nobody_serves (s\<lparr>taken := ds\<rparr>) = nobody_serves s"
  by (simp_all add: nobody_serves_def boot_pool_def)

lemma nobody_serves_move [simp]:
  "nobody_serves s \<Longrightarrow> (\<And>fd. pc \<noteq> Serving fd) \<Longrightarrow> nobody_serves (move w pc s)"
  by (simp add: nobody_serves_def)

lemma protocol_runs:
  assumes "system_reaches alloc stack einval recv n x (Running (y\<lparr>threads_of := s\<rparr>))" and "pool_step n s t"
    and "nobody_serves s"
  shows "system_reaches alloc stack einval recv n x (Running (y\<lparr>threads_of := t\<rparr>))"
proof (rule system_reaches_step [OF assms(1)])
  show "system_step alloc stack einval recv n (Running (y\<lparr>threads_of := s\<rparr>)) (Running (y\<lparr>threads_of := t\<rparr>))"
    using protocol [of n "y\<lparr>threads_of := s\<rparr>" t] assms(2,3) by (simp add: nobody_serves_def)
qed

text \<open>A queue faults only where its tail dangles.\<close>

lemma queue_fault:
  assumes "queue_state q" and "enqueue_task allocated d q = Inl e \<or> pull_next_task r q = Inl e"
  shows "e = Use_After_Free \<and> queue_dangling q"
proof (cases "queue_dangling q")
  case True
  then show ?thesis using dangling_faults assms(2) by auto
next
  case False
  then have ok: "queue_ok q" using assms(1) by (simp add: queue_state_def)
  have "\<exists>x. enqueue_task allocated d q = Inr x"
    using enqueue_ok [OF ok, of d] enqueue_fails [OF ok, of d] by (cases allocated) auto
  moreover have "\<exists>x. pull_next_task r q = Inr x"
    using pull_empty [OF ok, of r] pull_ok [OF ok, of _ _ r] by (cases "contents q") fastforce+
  ultimately show ?thesis using assms(2) by auto
qed

text \<open>Where a corrupted queue comes from: the pull of the first of exactly two tasks.\<close>

definition left_by_pull_of_two :: "nat \<Rightarrow> task_queue \<Rightarrow> bool" where
  "left_by_pull_of_two n q \<longleftrightarrow>
     (\<exists>t ok fd. reachable n t \<and> queue_ok (queue t) \<and> length (contents (queue t)) = 2 \<and>
        pull_next_task (- 1) (queue t) = Inr (ok, fd, q))"

lemma left_by_pull_dangling: "left_by_pull_of_two n q \<Longrightarrow> queue_dangling q"
proof -
  assume "left_by_pull_of_two n q"
  then obtain t :: pool and ok fd where t: "queue_ok (queue t)" "length (contents (queue t)) = 2"
      "pull_next_task (- 1) (queue t) = Inr (ok, fd, q)"
    by (auto simp: left_by_pull_of_two_def)
  then obtain d ds where "contents (queue t) = d # ds" "length ds = 1" by (cases "contents (queue t)") auto
  then show "queue_dangling q" using pull_ok [OF t(1), of d ds "- 1"] t(3) by auto
qed

lemma not_both: "queue_ok q \<Longrightarrow> \<not> queue_dangling q"
  using enqueue_fails [of q 0] dangling_faults(1) [of q False 0] by auto

lemma dangling_origin:
  assumes "reachable n s" and "queue_dangling (queue s)"
  shows "left_by_pull_of_two n (queue s)"
proof -
  have "queue_dangling (queue s) \<longrightarrow> left_by_pull_of_two n (queue s)"
    using assms(1) unfolding reachable_def
  proof (induction rule: rtranclp_induct)
    case base
    then show ?case using not_both [OF init_queue_ok(1)] by (simp add: boot_pool_def)
  next
    case (step s t)
    have s: "reachable n s" "queue_state (queue s)"
      using step.hyps(1) pool_invD(2) [OF reachable_inv] by (simp_all add: reachable_def)
    from step.hyps(2) show ?case
    proof (rule pool_stepE)
      fix w ok fd q
      assume t: "t = move w (Pulled (if ok then Some fd else None)) s\<lparr>queue := q, taken := taken s @ [fd]\<rparr>"
        and pulled: "pull_next_task (- 1) (queue s) = Inr (ok, fd, q)" and some: "contents (queue s) \<noteq> []"
      have ok: "queue_ok (queue s)" using s(2) pulled dangling_faults(2) by (auto simp: queue_state_def)
      obtain d ds where ds: "contents (queue s) = d # ds" using some by (cases "contents (queue s)") auto
      have q: "if length ds = 1 then queue_dangling q else queue_ok q"
        using pull_ok [OF ok ds, of "- 1"] pulled by auto
      show ?thesis
      proof
        assume "queue_dangling (queue t)"
        then have "length ds = 1" using q not_both [of q] t by (auto split: if_splits)
        then have "length (contents (queue s)) = 2" by (simp add: ds)
        then show "left_by_pull_of_two n (queue t)"
          unfolding left_by_pull_of_two_def using s(1) ok pulled t by (intro exI [of _ s]) simp
      qed
    next
      fix d ok q
      assume t: "t = s\<lparr>queue := q, producer := Signalling, arrived := arrived s @ [to_cint d]\<rparr>"
        and "enqueue_task True d (queue s) = Inr (ok, q)"
      moreover from this have "queue_ok (queue s)" using s(2) dangling_faults(1) by (auto simp: queue_state_def)
      ultimately show ?thesis using enqueue_ok [of "queue s" d] not_both by auto
    next
      fix d ok q
      assume t: "t = s\<lparr>queue := q\<rparr>" and "enqueue_task False d (queue s) = Inr (ok, q)"
      moreover from this have "queue_ok (queue s)" using s(2) dangling_faults(1) by (auto simp: queue_state_def)
      ultimately show ?thesis using enqueue_fails [of "queue s" d] not_both by auto
    next
      fix w ok fd q
      assume t: "t = move w (Pulled None) s\<lparr>queue := q\<rparr>"
        and pulled: "pull_next_task (- 1) (queue s) = Inr (ok, fd, q)" and none: "contents (queue s) = []"
      have ok: "queue_ok (queue s)" using s(2) pulled dangling_faults(2) by (auto simp: queue_state_def)
      then show ?thesis using pull_empty [OF ok none, of "- 1"] pulled t not_both by simp
    qed (use step.IH in simp_all)
  qed
  with assms(2) show ?thesis by blast
qed

section \<open>Properties\<close>

text \<open>
  C4: No connection is lost and none is closed twice. In every state the system reaches, for any
  number of workers, any interleaving, any requests and any allocation failures, every
  descriptor that has arrived is in exactly one place: closed, in the hands of one worker, or
  queued. Counted with multiplicities, so a descriptor number that arrives again is served and
  closed again.
\<close>

theorem descriptors_accounted:
  assumes "system_reaches alloc stack einval recv n (boot_system peers st k) (Running x)"
  shows "mset (closed_fds st) + valid_fds (arrived (threads_of x)) =
           mset (closed_fds (sockets x)) + held n (threads_of x) + valid_fds (contents (queue (threads_of x)))"
proof -
  note reached = reached_accounted [OF assms]
  have "valid_fds (map delivered (arrived (threads_of x))) =
      valid_fds (taken (threads_of x)) + valid_fds (map delivered (contents (queue (threads_of x))))"
    using pool_invD(4) [OF reachable_inv] reached by (metis valid_fds_simps(2))
  then show ?thesis using reached by (simp add: accounted_def flip: add.assoc)
qed

text \<open>
  C15: Exactly when the program can end. Whatever the machine, the clients and the interleaving,
  the next step of a state the pool reaches can be a crash with the fault \<open>e\<close> in two cases and
  no other: some worker is serving a request that faults with \<open>e\<close>; or \<open>e\<close> is a read of freed
  memory, the queue is the very one that a pull from a good queue of exactly two tasks left
  behind, and a worker is about to pull from it or the event loop is free to add to it.
\<close>

theorem crash_causes:
  assumes "system_reaches alloc stack einval recv n (boot_system peers st k) (Running x)"
  shows "system_step alloc stack einval recv n (Running x) (Crashed e) \<longleftrightarrow>
           (\<exists>w fd. w < n \<and> worker (threads_of x) w = Serving fd \<and>
              process_request alloc stack einval recv (allocations x) fd (peer_of x fd) = Inl e) \<or>
           e = Use_After_Free \<and> left_by_pull_of_two n (queue (threads_of x)) \<and>
             ((\<exists>w < n. worker (threads_of x) w = Pulling) \<or> producer (threads_of x) = Polling)"
    (is "?crash \<longleftrightarrow> ?request \<or> ?queue")
proof
  have reached: "reachable n (threads_of x)" by (rule system_pool_reachable [OF assms])
  note fault = queue_fault [OF pool_invD(2) [OF reachable_inv [OF reached]]]
  assume ?crash
  then show "?request \<or> ?queue"
    by (rule system_stepE) (use fault dangling_origin [OF reached] in \<open>blast+\<close>)
next
  assume "?request \<or> ?queue"
  then show ?crash
  proof (elim disjE conjE exE)
    assume q: "left_by_pull_of_two n (queue (threads_of x))" and e: "e = Use_After_Free"
    note faults = dangling_faults [OF left_by_pull_dangling [OF q]]
    { fix w assume "w < n" "worker (threads_of x) w = Pulling"
      then show ?thesis using pull_fault faults(2) e by blast }
    { assume "producer (threads_of x) = Polling"
      then show ?thesis using enqueue_fault faults(1) e by blast }
  qed (rule serve_fault)
qed

text \<open>Two tasks arrive, a worker takes the first, the other stays behind a dangling tail.\<close>

lemma dangling_reached:
  assumes "1 \<le> n"
  shows "\<exists>s. system_reaches alloc stack einval recv n (boot_system peers st k)
               (Running (boot_system peers st k\<lparr>threads_of := s\<rparr>)) \<and>
             producer s = Polling \<and> queue_dangling (queue s) \<and> nobody_serves s \<and>
             arrived s = [to_cint a, to_cint b] \<and>
             worker s 0 = Pulled (if 0 \<le> to_cint a then Some (to_cint a) else None)"
proof -
  let ?x = "boot_system peers st k"
  let ?reached = "\<lambda>s. system_reaches alloc stack einval recv n ?x (Running (?x\<lparr>threads_of := s\<rparr>))"
  obtain q1 where q1: "enqueue_task True a (init_queue boot_queue) = Inr (True, q1)" "queue_ok q1"
      "contents q1 = [to_cint a]"
    using enqueue_ok [OF init_queue_ok(1), of a] init_queue_ok(2) by auto
  obtain q2 where q2: "enqueue_task True b q1 = Inr (True, q2)" "queue_ok q2" "contents q2 = [to_cint a, to_cint b]"
    using enqueue_ok [OF q1(2), of b] q1(3) by auto
  obtain ok fd q3 where q3: "pull_next_task (- 1) q2 = Inr (ok, fd, q3)" "queue_dangling q3"
      "ok = (0 \<le> to_cint a)" "0 \<le> to_cint a \<Longrightarrow> fd = to_cint a"
    using pull_ok [OF q2(2,3), of "- 1"] by auto
  let ?s1 = "boot_pool\<lparr>queue := q1, producer := Signalling, arrived := [to_cint a]\<rparr>"
  let ?s2 = "?s1\<lparr>producer := Polling\<rparr>"
  let ?s3 = "?s2\<lparr>queue := q2, producer := Signalling, arrived := [to_cint a, to_cint b]\<rparr>"
  let ?s4 = "?s3\<lparr>producer := Polling\<rparr>"
  let ?s5 = "move 0 Testing ?s4\<lparr>owner := Some 0\<rparr>"
  let ?s6 = "move 0 Pulling ?s5"
  let ?s7 = "move 0 (Pulled (if ok then Some fd else None)) ?s6\<lparr>queue := q3, taken := taken ?s6 @ [fd]\<rparr>"
  have "?reached boot_pool" by (simp add: system_reaches_start boot_system_def)
  moreover have "pool_step n boot_pool ?s1"
    using enqueue [of boot_pool a True q1 n] q1(1) by (simp add: boot_pool_def)
  ultimately have "?reached ?s1" by (rule protocol_runs) simp
  moreover have "pool_step n ?s1 ?s2" by (rule signal_lost) (simp_all add: boot_pool_def)
  ultimately have "?reached ?s2" by (rule protocol_runs) simp
  moreover have "pool_step n ?s2 ?s3" using enqueue [of ?s2 b True q2 n] q2(1) by simp
  ultimately have "?reached ?s3" by (rule protocol_runs) simp
  moreover have "pool_step n ?s3 ?s4" by (rule signal_lost) (simp_all add: boot_pool_def)
  ultimately have "?reached ?s4" by (rule protocol_runs) simp
  moreover have "pool_step n ?s4 ?s5" by (rule lock) (use assms in \<open>simp_all add: boot_pool_def\<close>)
  ultimately have "?reached ?s5" by (rule protocol_runs) simp
  moreover have "pool_step n ?s5 ?s6" by (rule test_task) (use assms counter_ok [OF q2(2)] q2(3) in simp_all)
  ultimately have "?reached ?s6" by (rule protocol_runs) simp
  moreover have "pool_step n ?s6 ?s7" by (rule pull) (use assms q3(1) q2(3) in simp_all)
  ultimately have "?reached ?s7" by (rule protocol_runs) simp
  then show ?thesis using q3(2-4) by (intro exI [of _ ?s7]) simp
qed

lemma served_reached:
  "\<exists>x. system_reaches (\<lambda>_. False) zero_stack True scripted 2 (boot_system (\<lambda>_. []) (boot_conn :: unit conn_state) 0) (Running x) \<and>
       arrived (threads_of x) = [5, 6] \<and> closed_fds (sockets x) = [5]"
proof -
  let ?x = "boot_system (\<lambda>_. []) boot_conn 0 :: (byte list list, unit) system"
  let ?reaches = "system_reaches (\<lambda>_. False) zero_stack True scripted 2 ?x"
  have "to_cint 5 = 5" "to_cint 6 = 6" by (simp_all add: to_cint_id)
  then obtain s where s: "?reaches (Running (?x\<lparr>threads_of := s\<rparr>))" "nobody_serves s" "arrived s = [5, 6]"
      "worker s 0 = Pulled (Some 5)"
    using dangling_reached [of 2 "\<lambda>_. False" zero_stack True scripted "\<lambda>_. []" "boot_conn :: unit conn_state" 0 5 6]
    by auto
  let ?t = "move 0 (Serving 5) s\<lparr>owner := None\<rparr>"
  have t: "?reaches (Running (?x\<lparr>threads_of := ?t\<rparr>))"
    by (rule protocol_runs [OF s(1) _ s(2)]) (rule unlock; simp add: s(4))
  let ?y = "?x\<lparr>threads_of := ?t\<rparr>"
  let ?z = "?y\<lparr>threads_of := move 0 Locking (threads_of ?y), peer_of := (peer_of ?y)(5 := []),
              sockets := (if (5 :: int) \<noteq> - 1 then close_fd 5 (sockets ?y) else sockets ?y), allocations := 1\<rparr>
              :: (byte list list, unit) system"
  have "system_step (\<lambda>_. False) zero_stack True scripted 2 (Running ?y) (Running ?z)"
    by (rule serve [where ok = False and b = Null and response = Null]) (simp_all add: process_request_def boot_system_def)
  then have "?reaches (Running ?z)" by (rule system_reaches_step [OF t])
  then show ?thesis by (intro exI [of _ ?z]) (simp add: s(3) close_fd_def boot_conn_def boot_system_def)
qed

text \<open>
  C27: Three connections are enough. From every start of the pool, with any number of workers and
  whatever the machine and the clients do, the program can be brought to a state in which
  connections on any two descriptors have arrived, no request has been served (no peer has been
  read from, nothing allocated for a request, no socket closed), and the third connection,
  whichever it is, makes the event loop read freed memory.
\<close>

theorem pool_can_crash:
  assumes "1 \<le> n"
  shows "\<exists>x. system_reaches alloc stack einval recv n (boot_system peers st k) (Running x) \<and>
           arrived (threads_of x) = [to_cint a, to_cint b] \<and>
           peer_of x = peers \<and> allocations x = k \<and> sockets x = st \<and> producer (threads_of x) = Polling \<and>
           (\<forall>allocated c. enqueue_task allocated c (queue (threads_of x)) = Inl Use_After_Free) \<and>
           system_step alloc stack einval recv n (Running x) (Crashed Use_After_Free)"
proof -
  obtain s where s: "system_reaches alloc stack einval recv n (boot_system peers st k)
        (Running (boot_system peers st k\<lparr>threads_of := s\<rparr>))"
      "producer s = Polling" "queue_dangling (queue s)" "arrived s = [to_cint a, to_cint b]"
    using dangling_reached [OF assms, of alloc stack einval recv peers st k a b] by blast
  let ?x = "boot_system peers st k\<lparr>threads_of := s\<rparr>"
  have "system_step alloc stack einval recv n (Running ?x) (Crashed Use_After_Free)"
    using enqueue_fault [of ?x True 7 Use_After_Free] dangling_faults(1) [OF s(3)] s(2) by simp
  then show ?thesis
    using s dangling_faults(1) [OF s(3)] by (intro exI [of _ ?x]) (simp add: boot_system_def)
qed

theorem pool_can_crash_witness:
  "\<exists>x. system_reaches (\<lambda>_. True) zero_stack True scripted 8 (boot_system (\<lambda>_. []) (boot_conn :: unit conn_state) 0) (Running x) \<and>
     arrived (threads_of x) = [5, 6] \<and> closed_fds (sockets x) = [] \<and>
     system_step (\<lambda>_. True) zero_stack True scripted 8 (Running x) (Crashed Use_After_Free)"
proof -
  have "to_cint 5 = 5" "to_cint 6 = 6" by (simp_all add: to_cint_id)
  then show ?thesis
    using pool_can_crash [of 8 "\<lambda>_. True" zero_stack True scripted "\<lambda>_. []" "boot_conn :: unit conn_state" 0 5 6]
    by (auto simp: boot_conn_def)
qed

text \<open>Two connections, the first taken: the crash that is possible next comes from the queue.\<close>

theorem crash_causes_witness:
  "\<exists>x. system_reaches (\<lambda>_. True) zero_stack True scripted 2 (boot_system (\<lambda>_. []) (boot_conn :: unit conn_state) 0) (Running x) \<and>
     arrived (threads_of x) = [to_cint 5, to_cint 6] \<and> left_by_pull_of_two 2 (queue (threads_of x)) \<and>
     (\<forall>e. system_step (\<lambda>_. True) zero_stack True scripted 2 (Running x) (Crashed e) \<longleftrightarrow> e = Use_After_Free)"
proof -
  obtain s where s: "system_reaches (\<lambda>_. True) zero_stack True scripted 2 (boot_system (\<lambda>_. []) (boot_conn :: unit conn_state) 0)
        (Running (boot_system (\<lambda>_. []) (boot_conn :: unit conn_state) 0\<lparr>threads_of := s\<rparr>))"
      "producer s = Polling" "queue_dangling (queue s)" "nobody_serves s" "arrived s = [to_cint 5, to_cint 6]"
    using dangling_reached [of 2 "\<lambda>_. True" zero_stack True scripted "\<lambda>_. []" "boot_conn :: unit conn_state" 0 5 6] by auto
  have "left_by_pull_of_two 2 (queue s)"
    using dangling_origin [OF system_pool_reachable [OF s(1)]] s(3) by simp
  then show ?thesis
    using crash_causes [OF s(1)] s(2,4) s(1,5)
    by (intro exI [of _ "boot_system (\<lambda>_. []) (boot_conn :: unit conn_state) 0\<lparr>threads_of := s\<rparr>"])
       (simp add: nobody_serves_def)
qed

theorem descriptors_accounted_witness:
  "\<exists>x. system_reaches (\<lambda>_. False) zero_stack True scripted 2 (boot_system (\<lambda>_. []) (boot_conn :: unit conn_state) 0) (Running x) \<and>
     arrived (threads_of x) = [5, 6] \<and> closed_fds (sockets x) = [5] \<and>
     mset (closed_fds (boot_conn :: unit conn_state)) + valid_fds (arrived (threads_of x)) =
       mset (closed_fds (sockets x)) + held 2 (threads_of x) + valid_fds (contents (queue (threads_of x)))"
  using served_reached descriptors_accounted by blast

end
