(* ===== verification/Pool_Progress.thy ===== *)
theory Pool_Progress
  imports Pool_Serving
begin

text \<open>
  Progress of the pool with its work, without further arrivals (\<open>drains\<close>). The steps of the
  protocol lift to the system, where a request either returns and its socket is closed, or
  faults; workers that hold descriptors can always get rid of them. So a queued connection can
  always be taken, served and closed, unless a request of a connection that had already arrived
  faults on the way.
\<close>

section \<open>Lifting the protocol\<close>

definition drain_step ::
  "allocator \<Rightarrow> stack_bytes \<Rightarrow> bool \<Rightarrow> 's receiver \<Rightarrow> nat \<Rightarrow> ('s, 'a) system \<Rightarrow> ('s, 'a) system \<Rightarrow> bool" where
  "drain_step alloc stack einval recv n x y \<longleftrightarrow>
     system_step alloc stack einval recv n (Running x) (Running y) \<and> arrived (threads_of y) = arrived (threads_of x)"

definition drains ::
  "allocator \<Rightarrow> stack_bytes \<Rightarrow> bool \<Rightarrow> 's receiver \<Rightarrow> nat \<Rightarrow> ('s, 'a) system \<Rightarrow> ('s, 'a) system \<Rightarrow> bool" where
  "drains alloc stack einval recv n = (drain_step alloc stack einval recv n)\<^sup>*\<^sup>*"

text \<open>A worker serves a request that faults.\<close>

definition serves_faulty ::
  "allocator \<Rightarrow> stack_bytes \<Rightarrow> bool \<Rightarrow> 's receiver \<Rightarrow> nat \<Rightarrow> ('s, 'a) system \<Rightarrow> int \<Rightarrow> bool" where
  "serves_faulty alloc stack einval recv n x fd \<longleftrightarrow>
     (\<exists>w e. w < n \<and> worker (threads_of x) w = Serving fd \<and>
        process_request alloc stack einval recv (allocations x) fd (peer_of x fd) = Inl e)"

lemma drains_start: "drains alloc stack einval recv n x x"
  by (simp add: drains_def)

lemma drains_step:
  "drains alloc stack einval recv n x y \<Longrightarrow> drain_step alloc stack einval recv n y z \<Longrightarrow>
     drains alloc stack einval recv n x z"
  unfolding drains_def by (rule rtranclp.rtrancl_into_rtrancl)

lemma drains_trans:
  "drains alloc stack einval recv n x y \<Longrightarrow> drains alloc stack einval recv n y z \<Longrightarrow> drains alloc stack einval recv n x z"
  unfolding drains_def by (rule rtranclp_trans)

lemma drains_reaches:
  assumes "drains alloc stack einval recv n x y" and "system_reaches alloc stack einval recv n x0 (Running x)"
  shows "system_reaches alloc stack einval recv n x0 (Running y) \<and> arrived (threads_of y) = arrived (threads_of x)"
  using assms(1) unfolding drains_def
  by (induction rule: rtranclp_induct) (use assms(2) system_reaches_step in \<open>auto simp: drain_step_def\<close>)

text \<open>A request either returns or faults, so a worker that serves is never stuck.\<close>

lemma serving_moves:
  assumes "w < n" and "worker (threads_of x) w = Serving fd"
  shows "(\<exists>y. system_step alloc stack einval recv n (Running x) (Running y) \<and>
              threads_of y = move w Locking (threads_of x)) \<or>
         serves_faulty alloc stack einval recv n x fd"
proof (cases "process_request alloc stack einval recv (allocations x) fd (peer_of x fd)")
  case (Inl e)
  then show ?thesis using assms unfolding serves_faulty_def by blast
next
  case (Inr r)
  obtain ok b response k peer where "r = (ok, b, response, k, peer)" by (cases r) auto
  with serve [OF assms] Inr show ?thesis by fastforce
qed

lemma lift_step:
  assumes "pool_step n (threads_of x) s"
  shows "(\<exists>y. system_step alloc stack einval recv n (Running x) (Running y) \<and> threads_of y = s) \<or>
         (\<exists>fd. serves_faulty alloc stack einval recv n x fd)"
proof (cases "\<forall>w fd. worker (threads_of x) w = Serving fd \<longrightarrow> worker s w = Serving fd")
  case True
  then show ?thesis using protocol [OF assms] by fastforce
next
  case False
  from assms have "\<exists>w fd. w < n \<and> worker (threads_of x) w = Serving fd \<and> s = move w Locking (threads_of x)"
    by (rule pool_stepE) (use False in \<open>auto split: if_splits\<close>)
  then show ?thesis using serving_moves by blast
qed

lemma lift_run:
  assumes "(quiet_step n)\<^sup>*\<^sup>* s t" and "threads_of x = s"
  shows "\<exists>y. drains alloc stack einval recv n x y \<and>
           (threads_of y = t \<or> (\<exists>fd. serves_faulty alloc stack einval recv n y fd))"
  using assms(1)
proof (induction rule: rtranclp_induct)
  case base
  then show ?case using assms(2) drains_start by blast
next
  case (step t u)
  then have moved: "pool_step n t u" "arrived u = arrived t" by (simp_all add: quiet_step_def)
  from step.IH obtain y where y: "drains alloc stack einval recv n x y"
      "threads_of y = t \<or> (\<exists>fd. serves_faulty alloc stack einval recv n y fd)" by blast
  show ?case
  proof (cases "\<exists>fd. serves_faulty alloc stack einval recv n y fd")
    case False
    then obtain z where z: "system_step alloc stack einval recv n (Running y) (Running z)" "threads_of z = u"
      using lift_step [of n y u alloc stack einval recv] moved(1) y(2) by blast
    then have "drain_step alloc stack einval recv n y z" using moved(2) y(2) False by (auto simp: drain_step_def)
    then show ?thesis using drains_step [OF y(1)] z(2) by blast
  qed (use y(1) in blast)
qed

section \<open>Empty hands\<close>

lemma held_worker:
  assumes "fd \<in># held n s"
  obtains w where "w < n" and "in_hand (worker s w) = [fd]"
proof -
  from assms obtain w where "w < n" "fd \<in> set (in_hand (worker s w))"
    by (auto simp: held_def set_mset_sum)
  then show ?thesis using that by (cases "worker s w" rule: in_hand.cases) auto
qed

text \<open>What a worker holds has been taken, so it arrived.\<close>

lemma in_hand_taken:
  assumes "reachable n s" and "fd \<in> set (in_hand (worker s w))"
  shows "0 \<le> fd \<and> fd \<in> set (taken s)"
proof -
  have "\<forall>w. \<forall>fd \<in> set (in_hand (worker s w)). 0 \<le> fd \<and> fd \<in> set (taken s)"
    using assms(1) unfolding reachable_def
  proof (induction rule: rtranclp_induct)
    case (step s t)
    have s: "queue_state (queue s)"
      using step.hyps(1) pool_invD(2) [OF reachable_inv] by (simp add: reachable_def)
    from step.hyps(2) show ?case
    proof (rule pool_stepE)
      fix w ok fd q
      assume "t = move w (Pulled (if ok then Some fd else None)) s\<lparr>queue := q, taken := taken s @ [fd]\<rparr>"
        and "pull_next_task (- 1) (queue s) = Inr (ok, fd, q)" and "contents (queue s) \<noteq> []"
      then show ?thesis using step.IH pull_result [OF s] by auto
    next
      fix w fd
      assume "t = move w (Serving fd) s\<lparr>owner := None\<rparr>" and "worker s w = Pulled (Some fd)"
      then show ?thesis using step.IH [rule_format, of fd w] step.IH by simp
    qed (use step.IH in simp_all)
  qed (simp add: boot_pool_def)
  then show ?thesis using assms(2) by blast
qed

lemma in_hand_arrived:
  assumes "reachable n s" and "fd \<in> set (in_hand (worker s w))"
  shows "fd \<in> set (arrived s)"
proof -
  note hand = in_hand_taken [OF assms]
  have "set (taken s) \<subseteq> set (map delivered (arrived s))"
    using pool_invD(4) [OF reachable_inv [OF assms(1)]] by simp
  then obtain d where "d \<in> set (arrived s)" "fd = delivered d" using hand by auto
  then show ?thesis using hand by (auto simp: delivered_def split: if_splits)
qed

text \<open>One worker closes the descriptor in its hands.\<close>

definition frees_hand ::
  "allocator \<Rightarrow> stack_bytes \<Rightarrow> bool \<Rightarrow> 's receiver \<Rightarrow> nat \<Rightarrow> ('s, 'a) system \<Rightarrow> int \<Rightarrow> bool" where
  "frees_hand alloc stack einval recv n x fd \<longleftrightarrow>
     (\<exists>y. drains alloc stack einval recv n x y \<and>
          (serves_faulty alloc stack einval recv n y fd \<or>
           held n (threads_of x) = add_mset fd (held n (threads_of y)) \<and>
           taken (threads_of y) = taken (threads_of x)))"

lemma frees_serving:
  assumes "w < n" and "worker (threads_of x) w = Serving fd"
  shows "frees_hand alloc stack einval recv n x fd"
proof -
  have held: "held n (threads_of x) = add_mset fd (held n (move w Locking (threads_of x)))"
    using held_move [OF assms(1), of Locking "threads_of x"] assms(2) by simp
  from serving_moves [OF assms, of alloc stack einval recv] show ?thesis
  proof (elim disjE exE conjE)
    fix y assume y: "system_step alloc stack einval recv n (Running x) (Running y)" "threads_of y = move w Locking (threads_of x)"
    then have "drains alloc stack einval recv n x y"
      by (intro drains_step [OF drains_start]) (simp add: drain_step_def)
    with y(2) held show ?thesis unfolding frees_hand_def by (intro exI [of _ y]) simp
  next
    assume "serves_faulty alloc stack einval recv n x fd"
    then show ?thesis using drains_start unfolding frees_hand_def by blast
  qed
qed

lemma frees_pulled:
  assumes "w < n" and "worker (threads_of x) w = Pulled (Some fd)"
  shows "frees_hand alloc stack einval recv n x fd"
proof -
  let ?s = "move w (Serving fd) (threads_of x)\<lparr>owner := None\<rparr>" and ?y = "x\<lparr>threads_of := move w (Serving fd) (threads_of x)\<lparr>owner := None\<rparr>\<rparr>"
  have "system_step alloc stack einval recv n (Running x) (Running ?y)"
    by (rule protocol [OF unlock [OF assms]]) (use assms(2) in simp)
  then have first: "drains alloc stack einval recv n x ?y"
    by (intro drains_step [OF drains_start]) (simp add: drain_step_def)
  have held: "held n ?s = held n (threads_of x)" using assms by (simp add: held_move_empty)
  have "frees_hand alloc stack einval recv n ?y fd" by (rule frees_serving [of w]) (simp_all add: assms(1))
  then obtain z where "drains alloc stack einval recv n ?y z" "serves_faulty alloc stack einval recv n z fd \<or>
      held n (threads_of ?y) = add_mset fd (held n (threads_of z)) \<and> taken (threads_of z) = taken (threads_of ?y)"
    unfolding frees_hand_def by blast
  then show ?thesis
    using drains_trans [OF first] held unfolding frees_hand_def by (intro exI [of _ z]) auto
qed

lemma hands_emptied:
  "\<exists>y. drains alloc stack einval recv n x y \<and>
       ((\<exists>fd. serves_faulty alloc stack einval recv n y fd) \<or>
        held n (threads_of y) = {#} \<and> taken (threads_of y) = taken (threads_of x))"
proof (induction "held n (threads_of x)" arbitrary: x)
  case empty
  then show ?case using drains_start by metis
next
  case (add fd h)
  then have "fd \<in># held n (threads_of x)" by (metis union_single_eq_member)
  then obtain w where w: "w < n" "in_hand (worker (threads_of x) w) = [fd]" by (rule held_worker)
  then have "frees_hand alloc stack einval recv n x fd"
    using frees_serving frees_pulled by (cases "worker (threads_of x) w" rule: in_hand.cases) auto
  then obtain y where y: "drains alloc stack einval recv n x y"
      "serves_faulty alloc stack einval recv n y fd \<or>
       held n (threads_of x) = add_mset fd (held n (threads_of y)) \<and> taken (threads_of y) = taken (threads_of x)"
    unfolding frees_hand_def by blast
  from y(2) show ?case
  proof (elim disjE conjE)
    assume held: "held n (threads_of x) = add_mset fd (held n (threads_of y))"
      and same: "taken (threads_of y) = taken (threads_of x)"
    have "h = held n (threads_of y)" using held add.hyps(2) by simp
    from add.hyps(1) [OF this] show ?thesis using same drains_trans [OF y(1)] by auto
  qed (use y(1) in blast)
qed

section \<open>Property\<close>


lemma one_queued_reached:
  "\<exists>s. system_reaches alloc stack einval recv n (boot_system peers st k) (Running (boot_system peers st k\<lparr>threads_of := s\<rparr>)) \<and>
       queue_ok (queue s) \<and> contents (queue s) = [to_cint a] \<and> arrived s = [to_cint a] \<and> taken s = [] \<and>
       producer s = Signalling \<and> (\<forall>w. worker s w = Locking)"
proof -
  let ?x = "boot_system peers st k"
  let ?reached = "\<lambda>s. system_reaches alloc stack einval recv n ?x (Running (?x\<lparr>threads_of := s\<rparr>))"
  obtain q where q: "enqueue_task True a (init_queue boot_queue) = Inr (True, q)" "queue_ok q" "contents q = [to_cint a]"
    using enqueue_ok [OF init_queue_ok(1), of a] init_queue_ok(2) by auto
  let ?s = "boot_pool\<lparr>queue := q, producer := Signalling, arrived := [to_cint a]\<rparr>"
  have "?reached boot_pool" by (simp add: system_reaches_start boot_system_def)
  moreover have "pool_step n boot_pool ?s"
    using enqueue [of boot_pool a True q n] q(1) by (simp add: boot_pool_def)
  ultimately have "?reached ?s" by (rule protocol_runs) simp
  then show ?thesis using q(2,3) by (intro exI [of _ ?s]) (simp add: boot_pool_def)
qed


end
