(* ===== verification/Thread_Handler.thy ===== *)
theory Thread_Handler
  imports Reader_Properties Task_Fifo
begin

text \<open>
  The rest of \<open>thread_handler.c\<close>: one round of \<open>thread_runner\<close>, the start of the pool and
  the release of its memory. The outcomes of the \<open>pthread\<close> calls are arguments; the
  interleaving of the threads is the subject of \<open>Thread_Pool\<close>.
\<close>

section \<open>A round of a worker\<close>

text \<open>
  The body of \<open>while(1)\<close> once the wait is over (\<open>num_connections\<close> is not zero); with no
  task the thread keeps waiting and the state does not change. \<open>peers\<close> gives the peer behind
  each descriptor.
\<close>

definition runner_step ::
  "allocator \<Rightarrow> stack_bytes \<Rightarrow> bool \<Rightarrow> 's receiver \<Rightarrow> nat \<Rightarrow> (int \<Rightarrow> 's) \<Rightarrow> task_queue \<Rightarrow> 'a conn_state
     \<Rightarrow> fault + (nat \<times> (int \<Rightarrow> 's) \<times> task_queue \<times> 'a conn_state)" where
  "runner_step alloc stack einval recv n peers q st =
     (if num_connections q = 0 then Inr (n, peers, q, st)
      else cbind (pull_next_task (- 1) q)
        (\<lambda>(ok, fd, q').
           let hang_up = (\<lambda>st. if fd \<noteq> - 1 then close_fd fd st else st)
           in if \<not> ok then Inr (n, peers, q', hang_up st)
              else cbind (process_request alloc stack einval recv n fd (peers fd))
                (\<lambda>(served, _, _, n', peer').
                   if \<not> served then Inr (n', peers(fd := peer'), q', hang_up st)
                   else Inr (n', peers(fd := peer'), q', hang_up st))))"

section \<open>The pool\<close>

record thread_instance =
  virtual_id :: nat
  thread_id :: size_t

record thread_state =
  threads :: "thread_instance list ptr"
  tasks :: task_queue

text \<open>The static variables before the first call.\<close>

definition boot_threads :: thread_state where
  "boot_threads = \<lparr>threads = Null, tasks = boot_queue\<rparr>"

text \<open>
  The loop that starts the threads, \<open>left\<close> iterations before its end; \<open>create k\<close> is what
  \<open>pthread_create\<close> returns and the identifier it stores. The result is \<open>False\<close> when the
  loop leaves through one of its two failures.
\<close>

fun start_threads ::
  "(nat \<Rightarrow> int \<times> size_t) \<Rightarrow> nat \<Rightarrow> nat \<Rightarrow> thread_instance list \<Rightarrow> fault + (bool \<times> thread_instance list)" where
  "start_threads create cursor 0 pool = Inr (True, pool)"
| "start_threads create cursor (Suc left) pool =
     cbind (wr pool cursor \<lparr>virtual_id = cursor, thread_id = - 1\<rparr>)
       (\<lambda>pool1. let (status, tid) = create cursor;
                    pool2 = pool1[cursor := \<lparr>virtual_id = cursor, thread_id = tid\<rparr>]
                in if \<not> validate_syscall status (Some ''init_thread_handler'') then Inr (False, pool2)
                   else if tid = - 1 then Inr (False, pool2)
                   else start_threads create (Suc cursor) left pool2)"

text \<open>
  \<open>init_thread_handler\<close>: \<open>inits\<close> are the results of the three \<open>pthread\<close> initialisers,
  \<open>alloc n\<close> the allocation of the pool and \<open>alloc (Suc n)\<close> that of the sentinel.
\<close>

definition init_thread_handler ::
  "int \<times> int \<times> int \<Rightarrow> allocator \<Rightarrow> nat \<Rightarrow> (nat \<Rightarrow> int \<times> size_t) \<Rightarrow> configuration \<Rightarrow> thread_state
     \<Rightarrow> fault + (bool \<times> thread_state)" where
  "init_thread_handler inits alloc n create cfg st =
     (case inits of (thread_lock, enqueue_lock, thread_cond) \<Rightarrow>
        if thread_lock \<noteq> 0 then Inr (False, st)
        else if enqueue_lock \<noteq> 0 then Inr (False, st)
        else if thread_cond \<noteq> 0 then Inr (False, st)
        else if \<not> alloc n then Inr (False, st\<lparr>threads := Null\<rparr>)
        else
          (let pool = replicate (unat (num_cores cfg * 16) div 16) \<lparr>virtual_id = 0, thread_id = 0\<rparr>
           in cbind (start_threads create 0 (unat (num_cores cfg)) pool)
                (\<lambda>(started, pool').
                   if \<not> started then
                     cbind (cfree (Live pool')) (\<lambda>p. Inr (False, st\<lparr>threads := p\<rparr>))
                   else if \<not> alloc (Suc n) then
                     cbind (cfree (Live pool'))
                       (\<lambda>p. Inr (False, st\<lparr>threads := p, tasks := (tasks st)\<lparr>queue_head := None\<rparr>\<rparr>))
                   else Inr (True, st\<lparr>threads := Live pool', tasks := init_queue (tasks st)\<rparr>))))"

text \<open>\<open>free_thread_memory\<close>: the pool, then the sentinel.\<close>

definition free_node :: "nat option \<Rightarrow> conn_heap \<Rightarrow> fault + conn_heap" where
  "free_node p h =
     (case p of
        None \<Rightarrow> Inr h
      | Some a \<Rightarrow> (case h a of None \<Rightarrow> Inl Invalid_Free | Some _ \<Rightarrow> Inr (h(a := None))))"

definition free_thread_memory :: "thread_state \<Rightarrow> fault + (bool \<times> thread_state)" where
  "free_thread_memory st =
     cbind (if \<not> is_null (threads st) then cfree (threads st) else Inr (threads st))
       (\<lambda>p. cbind
          (if queue_head (tasks st) \<noteq> None then free_node (queue_head (tasks st)) (conns (tasks st))
           else Inr (conns (tasks st)))
          (\<lambda>h. Inr (True, st\<lparr>threads := p, tasks := (tasks st)\<lparr>conns := h\<rparr>\<rparr>)))"

section \<open>Lemmas\<close>

text \<open>
  What the loop takes for a thread that was started: a status that is not negative and an
  identifier that is not the initial -1. The loop goes through exactly when it accepts every
  one, and then every cell holds its index. (A documented failure of \<open>pthread_create\<close> is a
  positive number, so a thread the loop accepts need not exist: \<open>create_failed\<close> below.)
\<close>

definition loop_accepts :: "(nat \<Rightarrow> int \<times> size_t) \<Rightarrow> nat \<Rightarrow> bool" where
  "loop_accepts create k \<longleftrightarrow> 0 \<le> fst (create k) \<and> snd (create k) \<noteq> - 1"

lemma start_threads_run:
  assumes "length pool = cursor + left"
  shows "\<exists>pool'. start_threads create cursor left pool =
             Inr (list_all (loop_accepts create) [cursor..<cursor + left], pool') \<and>
           length pool' = length pool \<and>
           (list_all (loop_accepts create) [cursor..<cursor + left] \<longrightarrow>
              pool' = take cursor pool @
                map (\<lambda>k. \<lparr>virtual_id = k, thread_id = snd (create k)\<rparr>) [cursor..<cursor + left])"
  using assms
proof (induction left arbitrary: cursor pool)
  case (Suc left)
  obtain status tid where create: "create cursor = (status, tid)" by (cases "create cursor")
  let ?pool = "pool[cursor := \<lparr>virtual_id = cursor, thread_id = tid\<rparr>]"
  have range: "[cursor..<cursor + Suc left] = cursor # [Suc cursor..<Suc cursor + left]"
    by (simp add: upt_conv_Cons)
  have room: "cursor < length pool" using Suc.prems by simp
  show ?case
  proof (cases "loop_accepts create cursor")
    case False
    then show ?thesis
      unfolding range using room create by (auto simp: wr_in loop_accepts_def Let_def simp del: upt_Suc)
  next
    case True
    then have "start_threads create cursor (Suc left) pool = start_threads create (Suc cursor) left ?pool"
      using room create by (simp add: wr_in loop_accepts_def Let_def)
    moreover have "take (Suc cursor) ?pool = take cursor pool @ [\<lparr>virtual_id = cursor, thread_id = tid\<rparr>]"
      using room by (simp add: take_Suc_conv_app_nth)
    ultimately show ?thesis
      unfolding range using Suc.IH [of ?pool "Suc cursor"] Suc.prems True create
      by (auto simp del: upt_Suc)
  qed
qed simp

lemma pool_cells:
  "unat (n :: size_t) < 2 ^ 31 \<Longrightarrow> unat (n * 16) div 16 = unat n"
  by (simp add: unat_mult_lem [THEN iffD1])

lemma init_thread_handler_run:
  assumes "alloc n" and "unat (num_cores cfg) < 2 ^ 31"
  shows "\<exists>pool. length pool = unat (num_cores cfg) \<and>
           init_thread_handler (0, 0, 0) alloc n create cfg st =
             (if \<not> list_all (loop_accepts create) [0..<unat (num_cores cfg)]
              then Inr (False, st\<lparr>threads := Freed\<rparr>)
              else if \<not> alloc (Suc n)
              then Inr (False, st\<lparr>threads := Freed, tasks := (tasks st)\<lparr>queue_head := None\<rparr>\<rparr>)
              else Inr (True, st\<lparr>threads := Live pool, tasks := init_queue (tasks st)\<rparr>)) \<and>
           (list_all (loop_accepts create) [0..<unat (num_cores cfg)] \<longrightarrow>
              pool = map (\<lambda>k. \<lparr>virtual_id = k, thread_id = snd (create k)\<rparr>) [0..<unat (num_cores cfg)])"
proof -
  let ?n = "unat (num_cores cfg)" and ?blank = "\<lparr>virtual_id = 0, thread_id = 0\<rparr> :: thread_instance"
  obtain pool where "start_threads create 0 ?n (replicate ?n ?blank) =
        Inr (list_all (loop_accepts create) [0..<?n], pool)" "length pool = ?n"
      "list_all (loop_accepts create) [0..<?n] \<longrightarrow>
        pool = map (\<lambda>k. \<lparr>virtual_id = k, thread_id = snd (create k)\<rparr>) [0..<?n]"
    using start_threads_run [of "replicate ?n ?blank" 0 ?n create] by auto
  then show ?thesis
    using assms(1) by (intro exI [of _ pool]) (simp add: init_thread_handler_def pool_cells [OF assms(2)] Let_def)
qed

section \<open>Properties\<close>

text \<open>
  A worker that takes a task and comes back from serving it has removed exactly that task
  from the queue and closed exactly its socket, once, whatever the request was; a descriptor
  the queue marks invalid is dropped without closing anything.
\<close>

theorem worker_closes_socket:
  assumes "queue_ok q" and "contents q = d # ds"
    and "runner_step alloc stack einval recv n peers q st = Inr (n', peers', q', st')"
  shows "contents q' = ds \<and> st' = (if d < 0 then st else close_fd d st)"
proof -
  obtain q1 where q1: "pull_next_task (- 1) q = Inr (0 \<le> d, if d < 0 then -1 else d, q1)" "contents q1 = ds"
    using pull_ok [OF assms(1,2), of "- 1"] by auto
  moreover have "num_connections q \<noteq> 0" using counter_ok [OF assms(1)] assms(2) by simp
  ultimately show ?thesis
    using assms(3) by (auto simp: runner_step_def cbind_eq_Inr Let_def split: if_splits)
qed

definition one_task :: task_queue where
  "one_task = \<lparr>conns = [0 \<mapsto> \<lparr>socket_descriptor = 0, next_conn = Some 1, previous_conn = None\<rparr>,
                       1 \<mapsto> \<lparr>socket_descriptor = 5, next_conn = None, previous_conn = Some 0\<rparr>],
              fresh_addr = 2, queue_head = Some 0, queue_tail = At_Next 0, num_connections = 1\<rparr>"

lemma one_task_chain: "chain one_task 0 [1]"
  by (auto simp: chain_def one_task_def split: if_splits)

lemma one_task_ok: "queue_ok one_task" "contents one_task = [5]"
  using queue_okI [OF one_task_chain] contents_chain [OF one_task_chain]
  by (simp_all add: good_tail_def one_task_def)

lemma one_task_served:
  "\<exists>q' st'. runner_step (\<lambda>_. True) zero_stack True scripted 0 (\<lambda>_. []) one_task (boot_conn :: unit conn_state) =
     Inr (1, (\<lambda>_. []), q', st')"
proof -
  obtain q' where "pull_next_task (- 1) one_task = Inr (True, 5, q')"
    using pull_ok [OF one_task_ok, of "- 1"] by auto
  moreover have "process_request (\<lambda>_. True) zero_stack True scripted 0 5 [] = Inr (False, Freed, Null, 1, [])"
    by (rule closed_peer_run)
  ultimately show ?thesis by (simp add: runner_step_def one_task_def fun_upd_idem)
qed

theorem worker_closes_socket_witness:
  "\<exists>q' st'. runner_step (\<lambda>_. True) zero_stack True scripted 0 (\<lambda>_. []) one_task (boot_conn :: unit conn_state) =
       Inr (1, (\<lambda>_. []), q', st') \<and> contents q' = [] \<and> st' = (if (5 :: int) < 0 then boot_conn else close_fd 5 boot_conn)"
  using one_task_served worker_closes_socket [OF one_task_ok] by blast

text \<open>
  A start in which every thread starts leaves one instance per core with its index and
  identifier, and an empty good queue; releasing the memory then succeeds and frees both
  blocks.
\<close>

theorem thread_pool_started:
  assumes "alloc n" and "alloc (Suc n)" and "unat (num_cores cfg) < 2 ^ 31"
    and "list_all (loop_accepts create) [0..<unat (num_cores cfg)]"
  shows "\<exists>st'. init_thread_handler (0, 0, 0) alloc n create cfg boot_threads = Inr (True, st') \<and>
           threads st' = Live (map (\<lambda>k. \<lparr>virtual_id = k, thread_id = snd (create k)\<rparr>) [0..<unat (num_cores cfg)]) \<and>
           queue_ok (tasks st') \<and> contents (tasks st') = [] \<and>
           (\<exists>st''. free_thread_memory st' = Inr (True, st'') \<and> threads st'' = Freed)"
proof -
  let ?st = "boot_threads\<lparr>threads := Live (map (\<lambda>k. \<lparr>virtual_id = k, thread_id = snd (create k)\<rparr>)
               [0..<unat (num_cores cfg)]), tasks := init_queue boot_queue\<rparr>"
  have "init_thread_handler (0, 0, 0) alloc n create cfg boot_threads = Inr (True, ?st)"
    using init_thread_handler_run [of alloc n cfg create boot_threads, OF assms(1,3)] assms(2,4)
    by (auto simp: boot_threads_def)
  moreover have "\<exists>st''. free_thread_memory ?st = Inr (True, st'') \<and> threads st'' = Freed"
    by (simp add: free_thread_memory_def free_node_def init_queue_def boot_queue_def)
  ultimately show ?thesis using init_queue_ok by simp
qed

theorem thread_pool_started_witness:
  "\<exists>st'. init_thread_handler (0, 0, 0) (\<lambda>_. True) 0 (\<lambda>k. (0, of_nat k)) default_config boot_threads = Inr (True, st') \<and>
     threads st' = Live (map (\<lambda>k. \<lparr>virtual_id = k, thread_id = snd ((0 :: int), of_nat k)\<rparr>)
                           [0..<unat (num_cores default_config)]) \<and>
     queue_ok (tasks st') \<and> contents (tasks st') = [] \<and>
     (\<exists>st''. free_thread_memory st' = Inr (True, st'') \<and> threads st'' = Freed)"
  by (rule thread_pool_started) (simp_all add: default_config_def loop_accepts_def upt_rec)

text \<open>
  A failure of \<open>pthread_create\<close> as it is documented: an error number, which is positive. What
  it leaves in the identifier is not specified; unless it writes there, that is the initial -1.
\<close>

definition create_failed :: "(nat \<Rightarrow> int \<times> size_t) \<Rightarrow> nat \<Rightarrow> bool" where
  "create_failed create k \<longleftrightarrow> 0 < fst (create k)"

definition create_succeeded :: "(nat \<Rightarrow> int \<times> size_t) \<Rightarrow> nat \<Rightarrow> bool" where
  "create_succeeded create k \<longleftrightarrow> fst (create k) = 0 \<and> snd (create k) \<noteq> - 1"

text \<open>
  C37: What becomes of a thread that cannot be created. Where the failed \<open>pthread_create\<close> leaves
  the identifier as it was initialised, \<open>init_thread_handler\<close> frees the pool, keeps the pointer
  to it and fails, and the caller's \<open>free_thread_memory\<close> frees it a second time. Where it leaves
  anything else there, the failure goes unnoticed, since the status is tested for a negative
  number: the start succeeds with an entry for a thread that does not exist.
\<close>

theorem failed_start_double_free:
  assumes "alloc n" and "alloc (Suc n)" and "unat (num_cores cfg) < 2 ^ 31" and "k < unat (num_cores cfg)"
    and "create_failed create k" and "\<And>j. j < unat (num_cores cfg) \<Longrightarrow> j \<noteq> k \<Longrightarrow> create_succeeded create j"
  shows "if snd (create k) = - 1
         then \<exists>st'. init_thread_handler (0, 0, 0) alloc n create cfg st = Inr (False, st') \<and>
                free_thread_memory st' = Inl Invalid_Free
         else \<exists>st' pool. init_thread_handler (0, 0, 0) alloc n create cfg st = Inr (True, st') \<and>
                threads st' = Live pool \<and> length pool = unat (num_cores cfg) \<and>
                pool ! k = \<lparr>virtual_id = k, thread_id = snd (create k)\<rparr>"
proof -
  have "loop_accepts create j \<longleftrightarrow> j \<noteq> k \<or> snd (create k) \<noteq> - 1" if "j < unat (num_cores cfg)" for j
    using assms(5,6) that by (cases "j = k") (auto simp: loop_accepts_def create_failed_def create_succeeded_def)
  then have "list_all (loop_accepts create) [0..<unat (num_cores cfg)] \<longleftrightarrow> snd (create k) \<noteq> - 1"
    using assms(4) by (auto simp: list_all_iff)
  then show ?thesis
    using init_thread_handler_run [of alloc n cfg create st, OF assms(1,3)] assms(2,4)
    by (auto simp: free_thread_memory_def)
qed

text \<open>The fourth thread cannot be created (35, \<open>EAGAIN\<close>): its identifier is left alone, or is overwritten.\<close>

theorem failed_start_double_free_witness:
  "(\<exists>st'. init_thread_handler (0, 0, 0) (\<lambda>_. True) 0 (\<lambda>k. if k = 3 then (35, - 1) else (0, of_nat k)) default_config
       boot_threads = Inr (False, st') \<and> free_thread_memory st' = Inl Invalid_Free) \<and>
   (\<exists>st'. init_thread_handler (0, 0, 0) (\<lambda>_. True) 0 (\<lambda>k. if k = 3 then (35, 0) else (0, of_nat k)) default_config
       boot_threads = Inr (True, st'))"
proof
  have ids: "(word_of_nat j :: size_t) \<noteq> - 1" if "j < 8" for j
  proof
    assume "(word_of_nat j :: size_t) = - 1"
    then have "unat (word_of_nat j :: size_t) = unat (- 1 :: size_t)" by simp
    then show False using that by (simp add: unat_of_nat take_bit_nat_eq_self unsigned_minus_1_eq_mask mask_eq_exp_minus_1)
  qed
  show "\<exists>st'. init_thread_handler (0, 0, 0) (\<lambda>_. True) 0 (\<lambda>k. if k = 3 then (35, - 1) else (0, of_nat k)) default_config
       boot_threads = Inr (False, st') \<and> free_thread_memory st' = Inl Invalid_Free"
    using failed_start_double_free [of "\<lambda>_. True" 0 default_config 3 "\<lambda>k. if k = 3 then (35, - 1) else (0, of_nat k)" boot_threads]
    by (auto simp: default_config_def create_failed_def create_succeeded_def ids)
  show "\<exists>st'. init_thread_handler (0, 0, 0) (\<lambda>_. True) 0 (\<lambda>k. if k = 3 then (35, 0) else (0, of_nat k)) default_config
       boot_threads = Inr (True, st')"
    using failed_start_double_free [of "\<lambda>_. True" 0 default_config 3 "\<lambda>k. if k = 3 then (35, 0) else (0, of_nat k)" boot_threads]
    by (auto simp: default_config_def create_failed_def create_succeeded_def ids)
qed

end
