(* ===== verification/Pool_Shutdown.thy ===== *)
theory Pool_Shutdown
  imports Pool_Progress Thread_Handler
begin

text \<open>
  The end of \<open>main\<close> while the workers run. When the event loop returns, \<open>main\<close> calls
  \<open>free_thread_memory\<close> and returns \<open>EXIT_FAILURE\<close>; the workers are neither stopped nor
  joined, and go on until the process is gone. The release is one step of its own between the
  steps of the workers: it takes neither lock. Shown: a worker that still finds a task counted
  reads the freed sentinel, from every state the process can be left in with a task queued;
  nothing is taken after the release; and without a queued task only a request can fault.
\<close>

section \<open>The process\<close>

datatype ('s, 'a) process = Process "('s, 'a) system" | Failed fault | Exited nat

text \<open>The state after \<open>free_thread_memory\<close>: the producer is gone, the queue is what it left.\<close>

definition leave :: "thread_state \<Rightarrow> ('s, 'a) system \<Rightarrow> ('s, 'a) system" where
  "leave ts x = x\<lparr>threads_of := (threads_of x)\<lparr>producer := Exiting, queue := tasks ts\<rparr>\<rparr>"

text \<open>
  \<open>pool\<close> is the array of threads. \<open>poll_events\<close> returns between two events at the earliest, so
  the producer is not inside \<open>enqueue_task\<close>.
\<close>

inductive process_step ::
  "allocator \<Rightarrow> stack_bytes \<Rightarrow> bool \<Rightarrow> 's receiver \<Rightarrow> nat \<Rightarrow> thread_instance list
     \<Rightarrow> ('s, 'a) process \<Rightarrow> ('s, 'a) process \<Rightarrow> bool"
  for alloc stack einval recv n pool where
  threads_run: "system_step alloc stack einval recv n (Running x) (Running y) \<Longrightarrow>
    process_step alloc stack einval recv n pool (Process x) (Process y)"
| threads_fault: "system_step alloc stack einval recv n (Running x) (Crashed e) \<Longrightarrow>
    process_step alloc stack einval recv n pool (Process x) (Failed e)"
| release: "producer (threads_of x) = Polling \<Longrightarrow>
    free_thread_memory \<lparr>threads = Live pool, tasks = queue (threads_of x)\<rparr> = Inr (ok, ts) \<Longrightarrow>
    process_step alloc stack einval recv n pool (Process x) (Process (leave ts x))"
| release_fault: "producer (threads_of x) = Polling \<Longrightarrow>
    free_thread_memory \<lparr>threads = Live pool, tasks = queue (threads_of x)\<rparr> = Inl e \<Longrightarrow>
    process_step alloc stack einval recv n pool (Process x) (Failed e)"
| exit_failure: "producer (threads_of x) = Exiting \<Longrightarrow>
    process_step alloc stack einval recv n pool (Process x) (Exited 1)"

inductive_cases process_stepE: "process_step alloc stack einval recv n pool (Process x) y"

definition process_reaches ::
  "allocator \<Rightarrow> stack_bytes \<Rightarrow> bool \<Rightarrow> 's receiver \<Rightarrow> nat \<Rightarrow> thread_instance list
     \<Rightarrow> ('s, 'a) system \<Rightarrow> ('s, 'a) process \<Rightarrow> bool" where
  "process_reaches alloc stack einval recv n pool x y \<longleftrightarrow>
     (process_step alloc stack einval recv n pool)\<^sup>*\<^sup>* (Process x) y"

lemma leave_simps [simp]:
  "threads_of (leave ts x) = (threads_of x)\<lparr>producer := Exiting, queue := tasks ts\<rparr>"
  by (simp add: leave_def)

lemma from_process: "process_step alloc stack einval recv n pool y z \<Longrightarrow> \<exists>x. y = Process x"
  by (induction rule: process_step.induct) simp_all

text \<open>What survives every step that stays in the process holds of every state reached.\<close>

lemma process_invariant:
  assumes "process_reaches alloc stack einval recv n pool x0 (Process x)" and "P x0"
    and step: "\<And>x y. process_step alloc stack einval recv n pool (Process x) (Process y) \<Longrightarrow> P x \<Longrightarrow> P y"
  shows "P x"
proof -
  have "case y of Process x \<Rightarrow> P x | _ \<Rightarrow> True"
    if "(process_step alloc stack einval recv n pool)\<^sup>*\<^sup>* (Process x0) y" for y
    using that
  proof (induction rule: rtranclp_induct)
    case base
    then show ?case using assms(2) by simp
  next
    case (step y z)
    obtain x where y: "y = Process x" using from_process [OF step.hyps(2)] by blast
    then show ?case using step assms(3) [of x] by (cases z) auto
  qed
  from this [of "Process x"] show ?thesis using assms(1) by (simp add: process_reaches_def)
qed

lemma failed_step:
  assumes "process_reaches alloc stack einval recv n pool x0 (Failed e)"
  obtains x where "process_reaches alloc stack einval recv n pool x0 (Process x)"
    and "process_step alloc stack einval recv n pool (Process x) (Failed e)"
  using assms unfolding process_reaches_def
  by (metis from_process rtranclp.cases process.distinct(1))

section \<open>The release\<close>

text \<open>The sentinel is gone: every pull reads it, and the counter still counts.\<close>

definition released :: "task_queue \<Rightarrow> bool" where
  "released q \<longleftrightarrow> (\<exists>s. queue_head q = Some s \<and> conns q s = None)"

lemma released_pull: "released q \<Longrightarrow> pull_next_task r q = Inl Use_After_Free"
  by (auto simp: released_def pull_next_task_def node_at_def)

lemma queue_state_released:
  assumes "queue_state q"
  shows "\<exists>ts. free_thread_memory \<lparr>threads = Live pool, tasks = q\<rparr> = Inr (True, ts) \<and> released (tasks ts) \<and>
              num_connections (tasks ts) = int (length (contents q))"
proof -
  obtain s as where c: "chain q s as" using assms by (auto simp: queue_state_def queue_ok_def queue_dangling_def)
  then obtain m where "queue_head q = Some s" "conns q s = Some m"
    using chain_node [of q s as s] by (auto simp: chain_def)
  then show ?thesis
    using queue_state_counter [OF assms] by (simp add: free_thread_memory_def free_node_def released_def)
qed

text \<open>What holds of the threads from then on.\<close>

definition late :: "nat \<Rightarrow> pool \<Rightarrow> bool" where
  "late n s \<longleftrightarrow>
     producer s = Exiting \<and> released (queue s) \<and>
     (\<forall>w. critical (worker s w) \<longleftrightarrow> owner s = Some w) \<and> (\<forall>w. owner s = Some w \<longrightarrow> w < n) \<and>
     (\<forall>w. worker s w = Pulling \<longrightarrow> num_connections (queue s) \<noteq> 0)"

lemma lateD:
  assumes "late n s"
  shows "producer s = Exiting" and "released (queue s)" and "critical (worker s w) \<longleftrightarrow> owner s = Some w"
    and "owner s = Some w \<Longrightarrow> w < n" and "worker s w = Pulling \<Longrightarrow> num_connections (queue s) \<noteq> 0"
  using assms unfolding late_def by blast+

lemma owner_worker: "reachable n s \<Longrightarrow> owner s = Some w \<Longrightarrow> w < n"
proof -
  have "\<forall>w. owner s = Some w \<longrightarrow> w < n" if "reachable n s"
    using that unfolding reachable_def
  proof (induction rule: rtranclp_induct)
    case (step s s')
    from step.hyps(2) show ?case by (rule pool_stepE) (use step.IH in auto)
  qed (simp add: boot_pool_def)
  then show "reachable n s \<Longrightarrow> owner s = Some w \<Longrightarrow> w < n" by blast
qed

lemma late_move:
  assumes "late n s" and "critical pc \<longleftrightarrow> critical (worker s w)"
    and "pc = Pulling \<longrightarrow> num_connections (queue s) \<noteq> 0"
  shows "late n (move w pc s)"
  using lateD [OF assms(1)] assms(2,3) by (auto simp: late_def)

lemma late_take:
  assumes "late n s" and "owner s = None" and "w < n" and "critical pc" and "pc \<noteq> Pulling"
  shows "late n (move w pc s\<lparr>owner := Some w\<rparr>)"
  using lateD [OF assms(1)] assms(2-5) by (auto simp: late_def)

lemma late_release:
  assumes "late n s" and "critical (worker s w)" and "\<not> critical pc"
  shows "late n (move w pc s\<lparr>owner := None\<rparr>)"
proof -
  have "\<not> critical (worker s v)" if "v \<noteq> w" for v
    using lateD(3) [OF assms(1)] assms(2) that by (metis option.inject)
  then show ?thesis using lateD [OF assms(1)] assms(3) by (auto simp: late_def)
qed

text \<open>The threads keep the released queue as it is: nothing arrives, nothing is taken.\<close>

lemma late_step:
  assumes "pool_step n s t" and "late n s"
  shows "late n t \<and> queue t = queue s \<and> taken t = taken s \<and> arrived t = arrived s"
proof -
  note late = lateD(1,2) [OF assms(2)]
  note kept = late_move [OF assms(2)] late_take [OF assms(2)] late_release [OF assms(2)]
  from assms(1) show ?thesis
    by (rule pool_stepE) (use late in \<open>simp_all add: kept released_pull\<close>)
qed

definition exit_inv ::
  "allocator \<Rightarrow> stack_bytes \<Rightarrow> bool \<Rightarrow> 's receiver \<Rightarrow> nat \<Rightarrow> ('s, 'a) system \<Rightarrow> ('s, 'a) system \<Rightarrow> bool" where
  "exit_inv alloc stack einval recv n x0 x \<longleftrightarrow>
     (if producer (threads_of x) = Exiting then late n (threads_of x)
      else system_reaches alloc stack einval recv n x0 (Running x))"

lemma exit_inv_step:
  assumes "process_step alloc stack einval recv n pool (Process x) (Process y)"
    and "exit_inv alloc stack einval recv n (boot_system peers st k) x"
  shows "exit_inv alloc stack einval recv n (boot_system peers st k) y"
  using assms(1)
proof (rule process_stepE)
  fix y' assume y: "Process y = Process y'" "system_step alloc stack einval recv n (Running x) (Running y')"
  show ?thesis
  proof (cases "producer (threads_of x) = Exiting")
    case True
    then show ?thesis
      using late_step [OF system_step_pool [OF y(2)]] assms(2) y(1) by (auto simp: exit_inv_def lateD(1))
  next
    case False
    then have "system_reaches alloc stack einval recv n (boot_system peers st k) (Running y)"
      using assms(2) system_reaches_step y by (auto simp: exit_inv_def)
    then show ?thesis using reachable_loops [OF system_pool_reachable, of alloc stack einval recv n peers st k y] by (simp add: exit_inv_def)
  qed
next
  fix ok ts
  assume y: "Process y = Process (leave ts x)" and x: "producer (threads_of x) = Polling"
    and freed: "free_thread_memory \<lparr>threads = Live pool, tasks = queue (threads_of x)\<rparr> = Inr (ok, ts)"
  have "reachable n (threads_of x)"
    using assms(2) x system_pool_reachable by (auto simp: exit_inv_def)
  note reached = this reachable_inv [OF this]
  obtain ts' where "free_thread_memory \<lparr>threads = Live pool, tasks = queue (threads_of x)\<rparr> = Inr (True, ts')"
      "released (tasks ts')" "num_connections (tasks ts') = int (length (contents (queue (threads_of x))))"
    using queue_state_released pool_invD(2) [OF reached(2)] by blast
  with freed have "released (tasks ts)" "num_connections (tasks ts) = int (length (contents (queue (threads_of x))))"
    by simp_all
  then have "late n (threads_of y)"
    using y pool_invD(1,3) [OF reached(2)] owner_worker [OF reached(1)] by (auto simp: late_def)
  then show ?thesis by (simp add: exit_inv_def lateD(1))
qed simp_all

lemma process_exit_inv:
  assumes "process_reaches alloc stack einval recv n pool (boot_system peers st k) (Process x)"
  shows "exit_inv alloc stack einval recv n (boot_system peers st k) x"
  using assms
  by (rule process_invariant) (simp add: exit_inv_def system_reaches_start boot_system_def boot_pool_def, rule exit_inv_step)

lemma late_process_step:
  assumes "process_step alloc stack einval recv n pool (Process x) (Process y)" and "late n (threads_of x)"
  shows "late n (threads_of y) \<and> queue (threads_of y) = queue (threads_of x) \<and>
         taken (threads_of y) = taken (threads_of x) \<and> arrived (threads_of y) = arrived (threads_of x)"
  using assms(1)
  by (rule process_stepE) (use late_step [OF system_step_pool assms(2)] lateD(1) [OF assms(2)] in auto)

lemma late_process:
  assumes "process_reaches alloc stack einval recv n pool x (Process y)" and "late n (threads_of x)"
  shows "late n (threads_of y) \<and> queue (threads_of y) = queue (threads_of x) \<and>
         taken (threads_of y) = taken (threads_of x) \<and> arrived (threads_of y) = arrived (threads_of x)"
  by (rule process_invariant [OF assms(1)]) (use assms(2) late_process_step in fastforce)+

section \<open>After the release a queued task leads to a fault\<close>

lemma process_reaches_start: "process_reaches alloc stack einval recv n pool x (Process x)"
  by (simp add: process_reaches_def)

lemma process_reaches_step:
  "process_reaches alloc stack einval recv n pool x y \<Longrightarrow> process_step alloc stack einval recv n pool y z \<Longrightarrow>
     process_reaches alloc stack einval recv n pool x z"
  unfolding process_reaches_def by (rule rtranclp.rtrancl_into_rtrancl)

lemma process_reaches_front:
  "process_step alloc stack einval recv n pool (Process x) (Process y) \<Longrightarrow>
     process_reaches alloc stack einval recv n pool y z \<Longrightarrow> process_reaches alloc stack einval recv n pool x z"
  unfolding process_reaches_def by (rule converse_rtranclp_into_rtranclp)

text \<open>\<open>doomed s\<close>: whatever sockets and peers go with these threads, some run from here faults.\<close>

definition doomed ::
  "('s, 'a) system itself \<Rightarrow> allocator \<Rightarrow> stack_bytes \<Rightarrow> bool \<Rightarrow> 's receiver \<Rightarrow> nat \<Rightarrow> thread_instance list \<Rightarrow> pool \<Rightarrow> bool" where
  "doomed _ alloc stack einval recv n pool s \<longleftrightarrow>
     (\<forall>x :: ('s, 'a) system. threads_of x = s \<longrightarrow>
        (\<exists>e. process_reaches alloc stack einval recv n pool x (Failed e)))"

lemma doomed_step:
  fixes ty :: "('s, 'a) system itself"
  assumes "pool_step n s t" and "doomed ty alloc stack einval recv n pool t"
  shows "doomed ty alloc stack einval recv n pool s"
  unfolding doomed_def
proof (intro allI impI)
  fix x :: "('s, 'a) system" assume x: "threads_of x = s"
  with assms(1) have "pool_step n (threads_of x) t" by simp
  from lift_step [OF this, of alloc stack einval recv]
  show "\<exists>e. process_reaches alloc stack einval recv n pool x (Failed e)"
  proof (elim disjE exE conjE)
    fix y assume "system_step alloc stack einval recv n (Running x) (Running y)" "threads_of y = t"
    then show ?thesis using assms(2) process_reaches_front [OF threads_run] unfolding doomed_def by blast
  next
    fix fd assume "serves_faulty alloc stack einval recv n x fd"
    then obtain e where "system_step alloc stack einval recv n (Running x) (Crashed e)"
      using serve_fault unfolding serves_faulty_def by blast
    then show ?thesis using process_reaches_step [OF process_reaches_start threads_fault] by blast
  qed
qed

lemma doomed_pulling:
  fixes ty :: "('s, 'a) system itself"
  assumes "late n s" and "w < n" and "worker s w = Pulling"
  shows "doomed ty alloc stack einval recv n pool s"
  unfolding doomed_def
proof (intro allI impI)
  fix x :: "('s, 'a) system" assume "threads_of x = s"
  then have "system_step alloc stack einval recv n (Running x) (Crashed Use_After_Free)"
    using pull_fault [of w n x] assms released_pull [OF lateD(2) [OF assms(1)]] by simp
  then show "\<exists>e. process_reaches alloc stack einval recv n pool x (Failed e)"
    using process_reaches_step [OF process_reaches_start threads_fault] by blast
qed

lemma doomed_testing:
  assumes "late n s" and "w < n" and "worker s w = Testing" and "num_connections (queue s) \<noteq> 0"
  shows "doomed ty alloc stack einval recv n pool s"
proof (rule doomed_step [OF test_task [OF assms(2-4)]])
  show "doomed ty alloc stack einval recv n pool (move w Pulling s)"
    by (rule doomed_pulling [OF late_move [OF assms(1)] assms(2)]) (use assms(3,4) in simp_all)
qed

lemma doomed_free_lock:
  assumes "late n s" and "w < n" and "owner s = None" and "num_connections (queue s) \<noteq> 0"
  shows "doomed ty alloc stack einval recv n pool s"
proof -
  have enter: "doomed ty alloc stack einval recv n pool t"
    if "pool_step n t (move w Testing t\<lparr>owner := Some w\<rparr>)" "late n t" "owner t = None" "queue t = queue s" for t
    by (rule doomed_step [OF that(1) doomed_testing [where w = w]])
       (use late_take [OF that(2,3) assms(2)] assms(2,4) that(4) in simp_all)
  have locking: "doomed ty alloc stack einval recv n pool t"
    if "worker t w = Locking" "late n t" "owner t = None" "queue t = queue s" for t
    using enter [OF lock [OF assms(2) that(1,3)] that(2-4)] .
  have waking: "doomed ty alloc stack einval recv n pool t"
    if "worker t w = Waking" "late n t" "owner t = None" "queue t = queue s" for t
    using enter [OF relock [OF assms(2) that(1,3)] that(2-4)] .
  have free: "\<not> critical (worker s w)" using lateD(3) [OF assms(1)] assms(3) by simp
  show ?thesis
  proof (cases "worker s w")
    case Waiting
    show ?thesis
      by (rule doomed_step [OF spurious [OF assms(2) Waiting] waking])
         (use late_move [OF assms(1)] Waiting assms(3) in simp_all)
  next
    case (Serving fd)
    show ?thesis
      by (rule doomed_step [OF served [OF assms(2) Serving] locking])
         (use late_move [OF assms(1)] Serving assms(3) in simp_all)
  qed (use free locking [OF _ assms(1,3) refl] waking [OF _ assms(1,3) refl] in simp_all)
qed

lemma late_doomed:
  assumes "late n s" and "1 \<le> n" and "num_connections (queue s) \<noteq> 0"
  shows "doomed ty alloc stack einval recv n pool s"
proof (cases "owner s")
  case None
  then show ?thesis using doomed_free_lock [OF assms(1), of 0] assms(2,3) by simp
next
  case (Some w)
  then have w: "w < n" "critical (worker s w)" using lateD(3,4) [OF assms(1)] by simp_all
  have unlocked: "doomed ty alloc stack einval recv n pool s"
    if "pool_step n s (move w pc s\<lparr>owner := None\<rparr>)" "\<not> critical pc" for pc
    by (rule doomed_step [OF that(1) doomed_free_lock [OF late_release [OF assms(1) w(2) that(2)] w(1)]])
       (use assms(3) in simp_all)
  show ?thesis
  proof (cases "worker s w")
    case Testing
    then show ?thesis using doomed_testing assms(1,3) w(1) by blast
  next
    case Pulling
    then show ?thesis using doomed_pulling assms(1) w(1) by blast
  next
    case Going_To_Wait
    then show ?thesis using unlocked [OF wait [OF w(1)]] by simp
  next
    case (Pulled r)
    then show ?thesis using unlocked [OF give_up [OF w(1)]] unlocked [OF unlock [OF w(1)]] by (cases r) simp_all
  qed (use w(2) in simp_all)
qed

section \<open>Properties\<close>

lemma release_runs:
  assumes "process_reaches alloc stack einval recv n pool (boot_system peers st k) (Process x)"
    and "producer (threads_of x) = Polling"
  shows "\<exists>ts. process_step alloc stack einval recv n pool (Process x) (Process (leave ts x)) \<and>
              late n (threads_of (leave ts x)) \<and>
              num_connections (tasks ts) = int (length (contents (queue (threads_of x))))"
proof -
  note inv = process_exit_inv [OF assms(1)]
  then have "queue_state (queue (threads_of x))"
    using assms(2) pool_invD(2) [OF reachable_inv [OF system_pool_reachable]] by (auto simp: exit_inv_def)
  then obtain ts where ts: "free_thread_memory \<lparr>threads = Live pool, tasks = queue (threads_of x)\<rparr> = Inr (True, ts)"
      "num_connections (tasks ts) = int (length (contents (queue (threads_of x))))"
    using queue_state_released by blast
  from release [OF assms(2) ts(1)] have step: "process_step alloc stack einval recv n pool (Process x) (Process (leave ts x))" .
  then show ?thesis using exit_inv_step [OF step inv] ts(2) by (auto simp: exit_inv_def)
qed

lemma race_reached:
  assumes "process_reaches alloc stack einval recv n pool (boot_system peers st k) (Process x)"
    and "producer (threads_of x) = Polling" and "contents (queue (threads_of x)) \<noteq> []" and "1 \<le> n"
  shows "\<exists>y e. process_step alloc stack einval recv n pool (Process x) (Process y) \<and>
           producer (threads_of y) = Exiting \<and> process_reaches alloc stack einval recv n pool y (Failed e)"
proof -
  obtain ts where step: "process_step alloc stack einval recv n pool (Process x) (Process (leave ts x))"
      and late: "late n (threads_of (leave ts x))" and num: "num_connections (tasks ts) \<noteq> 0"
    using release_runs [OF assms(1,2)] assms(3) by auto
  have "doomed TYPE(('a, 'b) system) alloc stack einval recv n pool (threads_of (leave ts x))"
    by (rule late_doomed [OF late assms(4)]) (use num in simp)
  then obtain e where "process_reaches alloc stack einval recv n pool (leave ts x) (Failed e)"
    unfolding doomed_def by blast
  then show ?thesis using step by (intro exI [of _ "leave ts x"] exI [of _ e]) simp
qed

text \<open>A late fault is that of a request, or the pull of a worker that still found a task counted.\<close>

lemma late_fault:
  assumes "process_step alloc stack einval recv n pool (Process y) (Failed e)" and "late n (threads_of y)"
  shows "(\<exists>w fd. w < n \<and> worker (threads_of y) w = Serving fd \<and>
            process_request alloc stack einval recv (allocations y) fd (peer_of y fd) = Inl e) \<or>
         e = Use_After_Free \<and> num_connections (queue (threads_of y)) \<noteq> 0"
proof -
  note out = lateD(1,2) [OF assms(2)]
  from assms(1) have "system_step alloc stack einval recv n (Running y) (Crashed e)"
    by (rule process_stepE) (use out(1) in simp_all)
  then show ?thesis
  proof (rule system_stepE)
    fix w e'
    assume "Crashed e = Crashed e'" "worker (threads_of y) w = Pulling"
      "pull_next_task (- 1) (queue (threads_of y)) = Inl e'"
    then show ?thesis using lateD(5) [OF assms(2), of w] released_pull [OF out(2)] by simp
  qed (use out(1) in auto)
qed

text \<open>The status is the one \<open>main\<close> returns after a failure.\<close>

lemma exit_status:
  assumes "process_reaches alloc stack einval recv n pool x (Exited status)"
  shows "status = 1"
proof -
  from assms obtain y :: "('a, 'b) process" where "process_step alloc stack einval recv n pool y (Exited status)"
    unfolding process_reaches_def by (cases rule: rtranclp.cases) blast
  then show ?thesis by (rule process_step.cases) simp_all
qed

lemma system_process:
  assumes "system_reaches alloc stack einval recv n x (Running y)"
  shows "process_reaches alloc stack einval recv n pool x (Process y)"
proof (rule system_invariant [OF assms])
  show "process_reaches alloc stack einval recv n pool x (Process x)" by (rule process_reaches_start)
next
  fix y z
  assume "system_step alloc stack einval recv n (Running y) (Running z)"
    and "process_reaches alloc stack einval recv n pool x (Process y)"
  then show "process_reaches alloc stack einval recv n pool x (Process z)"
    using process_reaches_step threads_run by blast
qed

text \<open>
  C28: The exit races with the workers. From every state the process can be in when its event loop
  returns with a task still queued, \<open>main\<close> releases the memory of the pool without an error, and
  before it has returned the workers can bring the process to a fault.
\<close>

theorem exit_races_workers:
  assumes "process_reaches alloc stack einval recv n pool (boot_system peers st k) (Process x)"
    and "producer (threads_of x) = Polling" and "contents (queue (threads_of x)) \<noteq> []" and "1 \<le> n"
  shows "\<exists>y e. process_step alloc stack einval recv n pool (Process x) (Process y) \<and>
           producer (threads_of y) = Exiting \<and> process_reaches alloc stack einval recv n pool y (Failed e)"
  using assms by (rule race_reached)

text \<open>
  C18: What can follow the release. The workers take no task any more and the queue stays as it is;
  the exit status is \<open>EXIT_FAILURE\<close>; and a fault is that of a request still being served or a
  read of the freed sentinel, which needs a task left in the queue.
\<close>

theorem after_release:
  assumes "process_reaches alloc stack einval recv n pool (boot_system peers st k) (Process x)"
    and "producer (threads_of x) = Exiting" and "process_reaches alloc stack einval recv n pool x z"
  shows "case z of
           Process y \<Rightarrow> taken (threads_of y) = taken (threads_of x) \<and> queue (threads_of y) = queue (threads_of x)
         | Failed e \<Rightarrow>
             (\<exists>y w fd. process_reaches alloc stack einval recv n pool x (Process y) \<and> w < n \<and>
                worker (threads_of y) w = Serving fd \<and>
                process_request alloc stack einval recv (allocations y) fd (peer_of y fd) = Inl e) \<or>
             e = Use_After_Free \<and> num_connections (queue (threads_of x)) \<noteq> 0
         | Exited status \<Rightarrow> status = 1"
proof -
  have late: "late n (threads_of x)" using process_exit_inv [OF assms(1)] assms(2) by (simp add: exit_inv_def)
  show ?thesis
  proof (cases z)
    case (Process y)
    then show ?thesis using late_process [of alloc stack einval recv n pool x y] assms(3) late by simp
  next
    case (Failed e)
    then obtain y where y: "process_reaches alloc stack einval recv n pool x (Process y)"
        and fault: "process_step alloc stack einval recv n pool (Process y) (Failed e)"
      using failed_step assms(3) by blast
    then show ?thesis using late_fault [OF fault] late_process [OF y late] y by (auto simp: Failed)
  next
    case (Exited status)
    then show ?thesis using exit_status assms(3) by simp
  qed
qed

text \<open>One connection on 5 is queued and signalled, then the event loop ends.\<close>

lemma queued_in_process:
  "\<exists>x. process_reaches alloc stack einval recv n pool (boot_system peers st k) (Process x) \<and>
       producer (threads_of x) = Polling \<and> contents (queue (threads_of x)) = [to_cint a]"
proof -
  let ?b = "boot_system peers st k"
  obtain s where s: "system_reaches alloc stack einval recv n ?b (Running (?b\<lparr>threads_of := s\<rparr>))"
      "contents (queue s) = [to_cint a]" "producer s = Signalling" "\<forall>w. worker s w = Locking"
    using one_queued_reached by blast
  have "pool_step n s (s\<lparr>producer := Polling\<rparr>)" by (rule signal_lost) (simp_all add: s)
  then have "system_reaches alloc stack einval recv n ?b (Running (?b\<lparr>threads_of := s\<lparr>producer := Polling\<rparr>\<rparr>))"
    by (rule protocol_runs [OF s(1)]) (simp add: nobody_serves_def s)
  then have "process_reaches alloc stack einval recv n pool ?b (Process (?b\<lparr>threads_of := s\<lparr>producer := Polling\<rparr>\<rparr>))"
    by (rule system_process)
  then show ?thesis using s(2) by (intro exI [of _ "?b\<lparr>threads_of := s\<lparr>producer := Polling\<rparr>\<rparr>"]) simp
qed

theorem exit_races_workers_witness:
  "\<exists>(x :: (byte list list, unit) system) y e.
     contents (queue (threads_of x)) = [5] \<and>
     process_step (\<lambda>_. True) zero_stack True scripted 1 [] (Process x) (Process y) \<and>
     producer (threads_of y) = Exiting \<and> process_reaches (\<lambda>_. True) zero_stack True scripted 1 [] y (Failed e)"
proof -
  obtain x where x: "process_reaches (\<lambda>_. True) zero_stack True scripted 1 []
        (boot_system (\<lambda>_. []) (boot_conn :: unit conn_state) 0) (Process x)"
      "producer (threads_of x) = Polling" "contents (queue (threads_of x)) = [to_cint 5]"
    using queued_in_process by blast
  have "to_cint 5 = 5" by (simp add: to_cint_id)
  with x(3) exit_races_workers [OF x(1,2)] show ?thesis by auto
qed

theorem after_release_witness:
  "\<exists>(x :: (byte list list, unit) system) e.
     producer (threads_of x) = Exiting \<and> process_reaches (\<lambda>_. False) zero_stack True scripted 1 [] x (Failed e) \<and>
     ((\<exists>y w fd. process_reaches (\<lambda>_. False) zero_stack True scripted 1 [] x (Process y) \<and> w < 1 \<and>
         worker (threads_of y) w = Serving fd \<and>
         process_request (\<lambda>_. False) zero_stack True scripted (allocations y) fd (peer_of y fd) = Inl e) \<or>
      e = Use_After_Free \<and> num_connections (queue (threads_of x)) \<noteq> 0)"
proof -
  let ?b = "boot_system (\<lambda>_. []) boot_conn 0 :: (byte list list, unit) system"
  obtain x where x: "process_reaches (\<lambda>_. False) zero_stack True scripted 1 [] ?b (Process x)"
      "producer (threads_of x) = Polling" "contents (queue (threads_of x)) = [to_cint 5]"
    using queued_in_process by blast
  obtain y e where y: "process_step (\<lambda>_. False) zero_stack True scripted 1 [] (Process x) (Process y)"
      "producer (threads_of y) = Exiting" "process_reaches (\<lambda>_. False) zero_stack True scripted 1 [] y (Failed e)"
    using race_reached [OF x(1,2)] x(3) by auto
  show ?thesis
    using after_release [OF process_reaches_step [OF x(1) y(1)] y(2,3)] y(2,3) by (intro exI [of _ y] exI [of _ e]) simp
qed

end
