(* ===== verification/Host_Resolver.thy ===== *)
theory Host_Resolver
  imports Connection
begin

text \<open>
  \<open>services/tcp/host-resolver/host_resolver.c\<close>. \<open>getaddrinfo\<close> is a function from the
  port text to its status and the list of addresses (empty for NULL); \<open>inet_ntop\<close> is a
  function from an address to its text, \<open>None\<close> where it fails. The build is the debug build of \<open>CMakeLists.txt\<close>,
  so \<open>get_local_addresses\<close> lists what it found.
\<close>

section \<open>Local addresses\<close>

definition converts :: "('a \<Rightarrow> byte list option) \<Rightarrow> 'a \<Rightarrow> bool" where
  "converts inet_ntop a \<longleftrightarrow> inet_ntop a \<noteq> None"

text \<open>
  The debug listing. The result of \<open>inet_ntop\<close> is not looked at, and \<open>address_string\<close> is
  a new array without initialiser in every iteration: where the conversion fails, the message
  prints what the code never wrote.
\<close>

fun list_addresses :: "('a \<Rightarrow> byte list option) \<Rightarrow> 'a list \<Rightarrow> fault + printed" where
  "list_addresses inet_ntop [] = Inr []"
| "list_addresses inet_ntop (a # cursor) =
     cbind (case inet_ntop a of None \<Rightarrow> Inl Uninit_Read | Some address_string \<Rightarrow> Inr address_string)
       (\<lambda>address_string. cbind (list_addresses inet_ntop cursor)
         (\<lambda>out. Inr (DEBUG_LOG (chars ''get_local_addresses: Found Address '' @ address_string @ [46]) # out)))"

lemma list_addresses_run:
  "list_addresses inet_ntop as =
     (if list_all (converts inet_ntop) as
      then Inr (map (\<lambda>a. DEBUG_LOG (chars ''get_local_addresses: Found Address '' @ the (inet_ntop a) @ [46])) as)
      else Inl Uninit_Read)"
  by (induction as) (auto simp: converts_def split: option.split)

text \<open>
  \<open>malloc(sizeof(size_t))\<close> is a block of 8 bytes with the contents \<open>junk\<close>; without
  memory the conversion writes through NULL. The block is never freed.
\<close>

definition get_local_addresses ::
  "bool \<Rightarrow> (nat \<Rightarrow> byte) \<Rightarrow> (byte list \<Rightarrow> int \<times> 'a list) \<Rightarrow> ('a \<Rightarrow> byte list option) \<Rightarrow> configuration
     \<Rightarrow> fault + (bool \<times> 'a list)" where
  "get_local_addresses allocated junk getaddrinfo inet_ntop cfg =
     (if \<not> allocated then Inl Null_Deref
      else cbind (size_t_to_string (port cfg) (map junk [0..<8]))
        (\<lambda>(converted, port_string).
           if \<not> converted then Inr (False, [])
           else (let (status, address_list) = getaddrinfo (cstring port_string)
                 in if status \<noteq> 0 then Inr (False, address_list)
                    else if address_list = [] then Inr (False, address_list)
                    else cbind (list_addresses inet_ntop address_list) (\<lambda>_. Inr (True, address_list)))))"

section \<open>Printing addresses\<close>

text \<open>
  The nodes of \<open>types/address-types/address_types.h\<close>: a socket address and the next node. Of
  the system's \<open>sockaddr_in\<close> and \<open>sockaddr_in6\<close> the code uses the address (32 and 128 bits)
  and the port, two bytes in network order.
\<close>

record 'a sockaddr =
  sin_addr :: 'a
  sin_port :: "byte \<times> byte"

datatype 'a node = Node "'a sockaddr" "'a node option"

type_synonym ipv4_node = "32 word node"

type_synonym ipv6_node = "128 word node"

fun chain_of :: "'a node option \<Rightarrow> 'a sockaddr list" where
  "chain_of None = []"
| "chain_of (Some (Node a p)) = a # chain_of p"

fun ntohs :: "byte \<times> byte \<Rightarrow> nat" where
  "ntohs (high, low) = unat high * 256 + unat low"

text \<open>
  One of the two loops of \<open>print_local_addresses\<close>, from the cursor on: \<open>freed\<close> are the
  nodes released so far (the cleanup cursor is the node just printed), \<open>out\<close> what has been
  printed. On a failed conversion \<open>continue\<close> goes back to the test with the same cursor.
\<close>

partial_function (option) print_nodes ::
  "string \<Rightarrow> string \<Rightarrow> ('a \<Rightarrow> byte list option) \<Rightarrow> 'a node option \<Rightarrow> 'a sockaddr list \<Rightarrow> printed
     \<Rightarrow> ('a sockaddr list \<times> printed) option" where
  "print_nodes tag failure inet_ntop cursor freed out =
     (case cursor of
        None \<Rightarrow> Some (freed, out)
      | Some (Node a p) \<Rightarrow>
          (case inet_ntop (sin_addr a) of
             None \<Rightarrow> print_nodes tag failure inet_ntop cursor freed (out @ [DEBUG_LOG (chars failure)])
           | Some address \<Rightarrow>
               print_nodes tag failure inet_ntop p (freed @ [a])
                 (out @ [LOG tag (address @ [58] @ dec_digits (ntohs (sin_port a)) @ [46])])))"

text \<open>
  \<open>None\<close>: the function does not return. A list argument is \<open>None\<close> for NULL, else its head,
  which is neither printed nor freed. The \<open>free\<close> after each loop gets NULL. The results are
  the return value, the nodes freed and what was printed.
\<close>

definition print_local_addresses ::
  "(32 word \<Rightarrow> byte list option) \<Rightarrow> (128 word \<Rightarrow> byte list option) \<Rightarrow> ipv4_node option \<Rightarrow> ipv6_node option
     \<Rightarrow> (fault + (bool \<times> 32 word sockaddr list \<times> 128 word sockaddr list \<times> printed)) option" where
  "print_local_addresses inet_ntop4 inet_ntop6 ipv4_list ipv6_list =
     (case ipv4_list of
        None \<Rightarrow> Some (Inl Null_Deref)
      | Some (Node _ ipv4_cursor) \<Rightarrow>
          (case print_nodes ''[ IPv4 ]'' ''print_addresses: Failed to convert an IPv4 binary address into a string.''
                  inet_ntop4 ipv4_cursor [] [DEBUG_LOG (chars ''print_addresses: Printing provided addresses.'')] of
             None \<Rightarrow> None
           | Some (freed4, out4) \<Rightarrow>
               (case ipv6_list of
                  None \<Rightarrow> Some (Inl Null_Deref)
                | Some (Node _ ipv6_cursor) \<Rightarrow>
                    (case print_nodes ''[ IPv6 ]'' ''print_addresses: Failed to convert an IPv6 binary address into a string.''
                            inet_ntop6 ipv6_cursor [] out4 of
                       None \<Rightarrow> None
                     | Some (freed6, out6) \<Rightarrow>
                         Some (Inr (True, freed4, freed6, out6 @ [LOG ''[ LOG ]'' (chars ''List exhausted.'')]))))))"

section \<open>Lemmas\<close>

text \<open>The line for an address that converts.\<close>

definition address_line :: "string \<Rightarrow> ('a \<Rightarrow> byte list option) \<Rightarrow> 'a sockaddr \<Rightarrow> stream \<times> byte list" where
  "address_line tag inet_ntop a =
     LOG tag (the (inet_ntop (sin_addr a)) @ [58] @ dec_digits (ntohs (sin_port a)) @ [46])"

abbreviation all_convert :: "('a \<Rightarrow> byte list option) \<Rightarrow> 'a node option \<Rightarrow> bool" where
  "all_convert inet_ntop cursor \<equiv> list_all (\<lambda>a. converts inet_ntop (sin_addr a)) (chain_of cursor)"

lemma print_nodes_returns:
  "print_nodes tag failure inet_ntop cursor freed out = Some r \<Longrightarrow> all_convert inet_ntop cursor"
  by (erule print_nodes.raw_induct
        [where P = "\<lambda>tag failure inet_ntop cursor freed out r. all_convert inet_ntop cursor", rotated])
     (fastforce simp: converts_def split: option.splits node.splits)

lemma print_nodes_all:
  "all_convert inet_ntop cursor \<Longrightarrow>
     print_nodes tag failure inet_ntop cursor freed out =
       Some (freed @ chain_of cursor, out @ map (address_line tag inet_ntop) (chain_of cursor))"
proof (induction cursor arbitrary: freed out rule: chain_of.induct)
  case 1
  then show ?case by (subst print_nodes.simps) simp
next
  case (2 a p)
  then show ?case by (subst print_nodes.simps) (auto simp: converts_def address_line_def)
qed

lemma print_nodes_run:
  "print_nodes tag failure inet_ntop cursor freed out =
     (if all_convert inet_ntop cursor
      then Some (freed @ chain_of cursor, out @ map (address_line tag inet_ntop) (chain_of cursor)) else None)"
  using print_nodes_all print_nodes_returns by (metis not_None_eq)

text \<open>The port text fits in the block exactly below 10^7.\<close>

lemma dec_digits_long: "10 ^ k \<le> n \<Longrightarrow> k < length (dec_digits n)"
proof (induction k arbitrary: n)
  case (Suc k)
  have "(1 :: nat) \<le> 10 ^ k" by simp
  then have "\<not> n < 10" using Suc.prems unfolding power_Suc by linarith
  moreover have "10 ^ k \<le> n div 10" using Suc.prems by (simp add: less_eq_div_iff_mult_less_eq mult.commute)
  ultimately show ?case using Suc.IH [of "n div 10"] by (simp add: dec_digits.simps [of n])
qed simp

lemma dec_digits_no_nul: "0 \<notin> set (dec_digits n)"
  using dec_digits_are_digits by (fastforce simp: is_digit_def)

lemma port_text:
  "size_t_to_string p (map junk [0..<8]) =
     (if unat p < 10 ^ 7 then Inr (True, dec_digits (unat p) @ 0 # drop (Suc (length (dec_digits (unat p)))) (map junk [0..<8]))
      else Inl Out_Of_Bounds)"
proof (cases "unat p < 10 ^ 7")
  case True
  then have "length (dec_digits (unat p)) \<le> 7" by (rule dec_digits_short) simp
  with True show ?thesis by (simp add: size_t_to_string_spec Let_def)
next
  case False
  then have "7 < length (dec_digits (unat p))" by (intro dec_digits_long) simp
  with False show ?thesis by (simp add: size_t_to_string_spec Let_def)
qed

lemma get_local_addresses_run:
  "get_local_addresses True junk getaddrinfo inet_ntop cfg =
     (if unat (port cfg) < 10 ^ 7
      then (let (status, as) = getaddrinfo (dec_digits (unat (port cfg)))
            in if status = 0 \<and> \<not> list_all (converts inet_ntop) as then Inl Uninit_Read
               else Inr (status = 0 \<and> as \<noteq> [], as))
      else Inl Out_Of_Bounds)"
  by (auto simp: get_local_addresses_def port_text dec_digits_no_nul list_addresses_run Let_def split: prod.split)

section \<open>Properties\<close>

text \<open>
  C40: \<open>print_local_addresses\<close> returns exactly when every address behind the two heads converts.
  It has then printed one line for each, IPv4 first and in the order of the lists, with its port
  in host order, and has freed every one of these nodes once; a single address that does not
  convert keeps it in its loop for ever.
\<close>

theorem print_addresses_returns:
  "print_local_addresses inet_ntop4 inet_ntop6 (Some (Node head4 nodes4)) (Some (Node head6 nodes6)) =
     (if all_convert inet_ntop4 nodes4 \<and> all_convert inet_ntop6 nodes6
      then Some (Inr (True, chain_of nodes4, chain_of nodes6,
             [DEBUG_LOG (chars ''print_addresses: Printing provided addresses.'')] @
             map (address_line ''[ IPv4 ]'' inet_ntop4) (chain_of nodes4) @
             map (address_line ''[ IPv6 ]'' inet_ntop6) (chain_of nodes6) @
             [LOG ''[ LOG ]'' (chars ''List exhausted.'')]))
      else None)"
  by (simp add: print_local_addresses_def print_nodes_run)

end
