(* ===== verification/Orchestrator.thy ===== *)
theory Orchestrator
  imports Thread_Handler Host_Resolver Config_Properties
begin

text \<open>
  \<open>services/orchestration/orchestrator/orchestrator.c\<close> and \<open>main.c\<close>: boot, the event
  loop and its two handlers, the exit status of the process. The kernel's answers are
  arguments; what \<open>kevent\<close> delivers is a list of polls, each a status and its events, and a
  run that has used up the list is still in the loop.
\<close>

section \<open>The state\<close>

record 'a server =
  connections :: "'a conn_state"
  pool_threads :: thread_state
  event_queue :: int
  watched :: "int list"

definition boot_state :: "'a server" where
  "boot_state = \<lparr>connections = boot_conn, pool_threads = boot_threads, event_queue = 0, watched = []\<rparr>"

text \<open>
  An event, with the answers the kernel gives to the calls its handler makes: \<open>accept\<close>,
  \<open>setsockopt\<close> and \<open>kevent\<close> for a new connection, the allocation of the task for data.
\<close>

record event =
  ident :: nat
  eof :: bool
  accepted :: int
  timeout_set :: int
  registered :: int
  task_memory :: bool

section \<open>The handlers\<close>

definition process_connection_event :: "event \<Rightarrow> 'a server \<Rightarrow> bool \<times> 'a server" where
  "process_connection_event ev sv =
     (let (ok, client_descriptor, conn) = accept_connection (accepted ev) (timeout_set ev) (connections sv);
          sv1 = sv\<lparr>connections := conn\<rparr>
      in if \<not> ok \<or> client_descriptor = - 1 then (False, sv1)
         else if \<not> validate_syscall (registered ev) (Some ''process_connection_event'') then (False, sv1)
         else (True, sv1\<lparr>watched := watched sv1 @ [client_descriptor]\<rparr>))"

text \<open>
  \<open>ident\<close> is unsigned, so the test for a negative one never fires. At the end of the stream
  the result of the unsubscription is not looked at; \<open>kevent\<close> drops the descriptor.
\<close>

definition process_data_event :: "event \<Rightarrow> 'a server \<Rightarrow> fault + (bool \<times> 'a server)" where
  "process_data_event ev sv =
     cbind (enqueue_task (task_memory ev) (int (ident ev)) (tasks (pool_threads sv)))
       (\<lambda>(ok, q).
          let sv1 = sv\<lparr>pool_threads := (pool_threads sv)\<lparr>tasks := q\<rparr>\<rparr>
          in if \<not> ok then Inr (False, sv1)
             else if eof ev then
               (let sv2 = sv1\<lparr>watched := removeAll (int (ident ev)) (watched sv1)\<rparr>
                in if \<not> validate_syscall (to_cint (int (ident ev))) (Some ''pull_events'') then Inr (False, sv2)
                   else Inr (True, sv2))
             else Inr (True, sv1))"

text \<open>\<open>result\<close> and \<open>receipt\<close> are what \<open>kevent\<close> returns and stores in \<open>receipt.data\<close>.\<close>

definition enable_event :: "int \<Rightarrow> int \<Rightarrow> bool" where
  "enable_event result receipt =
     (if \<not> validate_syscall result (Some ''enable_event'') then False
      else if \<not> validate_syscall (to_cint receipt) (Some ''enable_event'') then False
      else True)"

section \<open>The event loop\<close>

fun process_events :: "int \<Rightarrow> event list \<Rightarrow> 'a server \<Rightarrow> fault + 'a server" where
  "process_events main_socket [] sv = Inr sv"
| "process_events main_socket (ev # events) sv =
     (if to_cint (int (ident ev)) = main_socket then
        process_events main_socket events (snd (process_connection_event ev sv))
      else
        cbind (process_data_event ev sv)
          (\<lambda>(_, sv'). process_events main_socket events sv'))"

text \<open>The result is \<open>None\<close> while the loop runs, else what the function returns.\<close>

fun poll_events :: "int \<Rightarrow> (int \<times> event list) list \<Rightarrow> 'a server \<Rightarrow> fault + (bool option \<times> 'a server)" where
  "poll_events main_socket [] sv = Inr (None, sv)"
| "poll_events main_socket ((num_events, events) # polls) sv =
     (if \<not> validate_syscall num_events (Some ''poll_events'') then Inr (Some False, sv)
      else cbind
        (if num_events > 0 then process_events main_socket (take (nat num_events) events) sv else Inr sv)
        (\<lambda>sv'. poll_events main_socket polls sv'))"

section \<open>Start-up\<close>

record start_answers =
  inits :: "int \<times> int \<times> int"
  memory :: allocator
  create :: "nat \<Rightarrow> int \<times> size_t"
  kqueue_fd :: int
  subscribed :: int
  polls :: "(int \<times> event list) list"

definition start_processing ::
  "start_answers \<Rightarrow> configuration \<Rightarrow> 'a server \<Rightarrow> fault + (bool option \<times> 'a server)" where
  "start_processing env cfg sv =
     (let (found, main_socket) = get_socket_descriptor (connections sv) (- 1)
      in if \<not> found \<or> main_socket < 0 then Inr (Some False, sv)
         else cbind (init_thread_handler (inits env) (memory env) 0 (create env) cfg (pool_threads sv))
           (\<lambda>(started, ts).
              let sv1 = sv\<lparr>pool_threads := ts\<rparr>
              in if \<not> started then Inr (Some False, sv1)
                 else (let sv2 = sv1\<lparr>event_queue := kqueue_fd env\<rparr>
                       in if \<not> validate_syscall (event_queue sv2) (Some ''start_processing'') then Inr (Some False, sv2)
                          else if \<not> validate_syscall (subscribed env) (Some ''start_processing'') then Inr (Some False, sv2)
                          else cbind
                            (poll_events main_socket (polls env)
                               (sv2\<lparr>watched := watched sv2 @ [main_socket]\<rparr>))
                            (\<lambda>(r, sv3). case r of
                               None \<Rightarrow> Inr (None, sv3)
                             | Some ok \<Rightarrow> if \<not> ok then Inr (Some False, sv3) else Inr (Some True, sv3)))))"

record 'a boot_answers =
  folder_found :: bool
  config_file :: "byte list option"
  sysctl :: "int \<Rightarrow> int \<times> int"
  port_memory :: bool
  port_junk :: "nat \<Rightarrow> byte"
  getaddrinfo :: "byte list \<Rightarrow> int \<times> 'a list"
  inet_ntop :: "'a \<Rightarrow> byte list option"
  sock :: "'a \<Rightarrow> int"
  bind_to :: "int \<Rightarrow> 'a \<Rightarrow> int"
  listen_on :: "int \<Rightarrow> int \<Rightarrow> int"

definition boot_server ::
  "'a boot_answers \<Rightarrow> configuration \<Rightarrow> 'a server \<Rightarrow> fault + (bool \<times> configuration \<times> 'a server)" where
  "boot_server env cfg sv =
     cbind (initialize_configuration (folder_found env) (config_file env) (sysctl env) cfg)
       (\<lambda>(ok, cfg').
          if \<not> ok then Inr (False, cfg', sv)
          else cbind (get_local_addresses (port_memory env) (port_junk env) (getaddrinfo env) (inet_ntop env) cfg')
            (\<lambda>(ok, addresses).
               if \<not> ok then Inr (False, cfg', sv)
               else (let (listening, conn) =
                           find_listen (sock env) (bind_to env) (listen_on env) cfg' addresses (connections sv)
                     in if \<not> listening then Inr (False, cfg', sv\<lparr>connections := conn\<rparr>)
                        else Inr (True, cfg', sv\<lparr>connections := free_addresses conn\<rparr>))))"

text \<open>\<open>main\<close>: the exit status, \<open>None\<close> while the server runs; \<open>EXIT_FAILURE\<close> is 1.\<close>

definition main_run ::
  "'a boot_answers \<Rightarrow> start_answers \<Rightarrow> configuration \<Rightarrow> 'a server \<Rightarrow> fault + nat option" where
  "main_run boot_env start_env cfg sv =
     cbind (boot_server boot_env cfg sv)
       (\<lambda>(booted, cfg', sv1).
          if \<not> booted then cbind (free_thread_memory (pool_threads sv1)) (\<lambda>_. Inr (Some 1))
          else cbind (start_processing start_env cfg' sv1)
            (\<lambda>(r, sv2). case r of
               None \<Rightarrow> Inr None
             | Some ok \<Rightarrow>
                 if \<not> ok then cbind (free_thread_memory (pool_threads sv2)) (\<lambda>_. Inr (Some 1))
                 else cbind (free_thread_memory (pool_threads sv2)) (\<lambda>_. Inr (Some 0))))"

section \<open>Lemmas\<close>

lemma poll_events_not_true: "poll_events fd ps sv \<noteq> Inr (Some True, sv')"
  by (induction fd ps sv rule: poll_events.induct) (auto simp: cbind_eq_Inr split: if_splits)

lemma start_processing_not_true: "start_processing env cfg sv \<noteq> Inr (Some True, sv')"
  using poll_events_not_true
  by (auto simp: start_processing_def Let_def cbind_eq_Inr split: if_splits prod.splits option.splits)

text \<open>Data events on a good queue: every descriptor is queued, in order.\<close>

lemma data_event_queued:
  assumes "queue_ok (tasks (pool_threads sv))" and "task_memory ev"
  shows "\<exists>ok sv'. process_data_event ev sv = Inr (ok, sv') \<and> queue_ok (tasks (pool_threads sv')) \<and>
           contents (tasks (pool_threads sv')) = contents (tasks (pool_threads sv)) @ [to_cint (int (ident ev))] \<and>
           connections sv' = connections sv"
  using enqueue_ok [OF assms(1), of "int (ident ev)"] assms(2)
  by (auto simp: process_data_event_def Let_def)

lemma connection_event_queue:
  "pool_threads (snd (process_connection_event ev sv)) = pool_threads sv"
  by (simp add: process_connection_event_def Let_def split: prod.split)

lemma events_queued:
  assumes "queue_ok (tasks (pool_threads sv))" and "list_all task_memory events"
  shows "\<exists>sv'. process_events fd events sv = Inr sv' \<and> queue_ok (tasks (pool_threads sv')) \<and>
           contents (tasks (pool_threads sv')) = contents (tasks (pool_threads sv)) @
             filter (\<lambda>d. d \<noteq> fd) (map (\<lambda>ev. to_cint (int (ident ev))) events)"
  using assms
proof (induction events arbitrary: sv)
  case (Cons ev events)
  show ?case
  proof (cases "to_cint (int (ident ev)) = fd")
    case True
    then show ?thesis
      using Cons.IH [of "snd (process_connection_event ev sv)"] Cons.prems by (simp add: connection_event_queue)
  next
    case False
    then show ?thesis
      using Cons data_event_queued [of sv ev] by fastforce
  qed
qed simp

end
