(* ===== verification/Server_Run.thy ===== *)
theory Server_Run
  imports Orchestrator
begin

text \<open>
  The server as one program: the event loop of \<open>orchestrator.c\<close> and the rounds of the
  workers of \<open>thread_handler.c\<close> on the shared queue and the descriptors, in any order. An
  action is one turn of the loop in \<open>poll_events\<close> or one round of \<open>thread_runner\<close>; the
  finer interleaving inside a round is the subject of \<open>Thread_Pool\<close>. The specification is a
  queue of descriptors and the list of those closed (\<open>spec_run\<close>); through \<open>view\<close> the code
  returns what it returns, whatever the order of the actions.
\<close>

section \<open>The run\<close>

datatype server_action = Poll int "event list" | Work

type_synonym ('s, 'a) running = "nat \<times> (int \<Rightarrow> 's) \<times> 'a server"

text \<open>The result is \<open>False\<close> when the loop has ended.\<close>

fun server_run ::
  "allocator \<Rightarrow> stack_bytes \<Rightarrow> bool \<Rightarrow> 's receiver \<Rightarrow> int \<Rightarrow> server_action list \<Rightarrow> ('s, 'a) running
     \<Rightarrow> fault + (bool \<times> ('s, 'a) running)" where
  "server_run alloc stack einval recv main_socket [] s = Inr (True, s)"
| "server_run alloc stack einval recv main_socket (Poll num_events events # actions) (n, peers, sv) =
     cbind (poll_events main_socket [(num_events, events)] sv)
       (\<lambda>(r, sv'). if r = None then server_run alloc stack einval recv main_socket actions (n, peers, sv')
                   else Inr (False, n, peers, sv'))"
| "server_run alloc stack einval recv main_socket (Work # actions) (n, peers, sv) =
     cbind (runner_step alloc stack einval recv n peers (tasks (pool_threads sv)) (connections sv))
       (\<lambda>(n', peers', q, conn).
          server_run alloc stack einval recv main_socket actions
            (n', peers', sv\<lparr>connections := conn, pool_threads := (pool_threads sv)\<lparr>tasks := q\<rparr>\<rparr>))"

section \<open>The specification\<close>

text \<open>The descriptors a turn queues: the idents of the data events there was memory for.\<close>

definition arrivals :: "int \<Rightarrow> event list \<Rightarrow> int list" where
  "arrivals main_socket events =
     map (\<lambda>ev. to_cint (int (ident ev)))
       (filter (\<lambda>ev. to_cint (int (ident ev)) \<noteq> main_socket \<and> task_memory ev) events)"

definition data_reported :: "int \<Rightarrow> event list \<Rightarrow> bool" where
  "data_reported main_socket events \<longleftrightarrow> list_ex (\<lambda>ev. to_cint (int (ident ev)) \<noteq> main_socket) events"

text \<open>
  The state of the specification: the allocations made, the peers, the descriptors pending and
  those closed, and whether a task has been taken out of exactly two, which breaks the queue. A
  broken queue faults at its next use, by a worker or by an event with data.
\<close>

type_synonym 's spec_state = "nat \<times> (int \<Rightarrow> 's) \<times> int list \<times> int list \<times> bool"

fun spec_run ::
  "allocator \<Rightarrow> stack_bytes \<Rightarrow> bool \<Rightarrow> 's receiver \<Rightarrow> int \<Rightarrow> server_action list \<Rightarrow> 's spec_state
     \<Rightarrow> fault + (bool \<times> 's spec_state)" where
  "spec_run alloc stack einval recv main_socket [] s = Inr (True, s)"
| "spec_run alloc stack einval recv main_socket (Poll num_events events # actions) (n, peers, pending, closed, broken) =
     (let reported = take (nat num_events) events
      in if num_events < 0 then Inr (False, n, peers, pending, closed, broken)
         else if broken \<and> data_reported main_socket reported then Inl Use_After_Free
         else spec_run alloc stack einval recv main_socket actions
                (n, peers, pending @ arrivals main_socket reported, closed, broken))"
| "spec_run alloc stack einval recv main_socket (Work # actions) (n, peers, [], closed, broken) =
     spec_run alloc stack einval recv main_socket actions (n, peers, [], closed, broken)"
| "spec_run alloc stack einval recv main_socket (Work # actions) (n, peers, d # pending, closed, broken) =
     (if broken then Inl Use_After_Free
      else if d < 0 then
        spec_run alloc stack einval recv main_socket actions (n, peers, pending, closed, length pending = 1)
      else (case process_request alloc stack einval recv n d (peers d) of
              Inl e \<Rightarrow> Inl e
            | Inr (_, _, _, n', peer') \<Rightarrow>
                spec_run alloc stack einval recv main_socket actions
                  (n', peers(d := peer'), pending, closed @ [d], length pending = 1)))"

section \<open>Refinement\<close>

definition queued :: "'a server \<Rightarrow> int list" where
  "queued sv = contents (tasks (pool_threads sv))"

definition queue_good :: "'a server \<Rightarrow> bool" where
  "queue_good sv \<longleftrightarrow> queue_ok (tasks (pool_threads sv))"

text \<open>The two states a queue can be in: good, or left behind by a pull from exactly two.\<close>

definition queue_broken :: "'a server \<Rightarrow> bool" where
  "queue_broken sv \<longleftrightarrow> queue_dangling (tasks (pool_threads sv))"

definition queue_usable :: "'a server \<Rightarrow> bool" where
  "queue_usable sv \<longleftrightarrow> queue_good sv \<or> queue_broken sv"

text \<open>What the specification sees of a running server.\<close>

fun view :: "('s, 'a) running \<Rightarrow> 's spec_state" where
  "view (n, peers, sv) = (n, peers, queued sv, closed_fds (connections sv), queue_broken sv)"

lemma good_not_broken: "queue_good sv \<Longrightarrow> \<not> queue_broken sv"
proof
  assume good: "queue_good sv" and "queue_broken sv"
  then have "enqueue_task False 0 (tasks (pool_threads sv)) = Inl Use_After_Free"
    using dangling_faults(1) by (auto simp: queue_broken_def)
  then show False using enqueue_fails [of "tasks (pool_threads sv)" 0] good by (auto simp: queue_good_def)
qed

lemma broken_counts:
  assumes "queue_broken sv"
  shows "queued sv \<noteq> [] \<and> num_connections (tasks (pool_threads sv)) \<noteq> 0"
proof -
  obtain s as where c: "chain (tasks (pool_threads sv)) s as" and "as \<noteq> []"
    using assms by (auto simp: queue_broken_def queue_dangling_def)
  then show ?thesis using contents_chain [OF c] by (simp add: queued_def chain_def)
qed

lemma connection_event_closed:
  "closed_fds (connections (snd (process_connection_event ev sv))) = closed_fds (connections sv)"
  by (simp add: process_connection_event_def accept_connection_def open_fd_def Let_def)

lemma data_event_refines:
  assumes "queue_good sv"
  shows "\<exists>ok sv'. process_data_event ev sv = Inr (ok, sv') \<and> queue_good sv' \<and>
           queued sv' = queued sv @ (if task_memory ev then [to_cint (int (ident ev))] else []) \<and>
           connections sv' = connections sv"
proof (cases "task_memory ev")
  case True
  then show ?thesis using data_event_queued [of sv ev] assms by (auto simp: queue_good_def queued_def)
next
  case False
  then show ?thesis
    using enqueue_fails [of "tasks (pool_threads sv)" "int (ident ev)"] assms
    by (auto simp: process_data_event_def queue_good_def queued_def Let_def)
qed

lemma events_refine:
  assumes "queue_good sv"
  shows "\<exists>sv'. process_events fd events sv = Inr sv' \<and> queue_good sv' \<and>
           queued sv' = queued sv @ arrivals fd events \<and> closed_fds (connections sv') = closed_fds (connections sv)"
  using assms
proof (induction events arbitrary: sv)
  case (Cons ev events)
  show ?case
  proof (cases "to_cint (int (ident ev)) = fd")
    case True
    have "queue_good (snd (process_connection_event ev sv))" "queued (snd (process_connection_event ev sv)) = queued sv"
      using Cons.prems by (simp_all add: queue_good_def queued_def connection_event_queue)
    with True Cons.IH [of "snd (process_connection_event ev sv)"] show ?thesis
      by (auto simp: arrivals_def connection_event_closed)
  next
    case False
    obtain ok sv1 where sv1: "process_data_event ev sv = Inr (ok, sv1)" "queue_good sv1"
        "queued sv1 = queued sv @ (if task_memory ev then [to_cint (int (ident ev))] else [])"
        "connections sv1 = connections sv"
      using data_event_refines [OF Cons.prems] by blast
    with False Cons.IH [OF sv1(2)] show ?thesis by (auto simp: arrivals_def)
  qed
qed (simp add: arrivals_def)

lemma poll_refines:
  assumes "queue_good sv"
  shows "\<exists>sv'. poll_events fd [(k, events)] sv = Inr (if k < 0 then Some False else None, sv') \<and> queue_good sv' \<and>
           queued sv' = queued sv @ (if k < 0 then [] else arrivals fd (take (nat k) events)) \<and>
           closed_fds (connections sv') = closed_fds (connections sv)"
proof (cases "0 < k")
  case True
  obtain sv' where "process_events fd (take (nat k) events) sv = Inr sv'" "queue_good sv'"
      "queued sv' = queued sv @ arrivals fd (take (nat k) events)"
      "closed_fds (connections sv') = closed_fds (connections sv)"
    using events_refine [OF assms] by blast
  with True show ?thesis by (simp add: validate_syscall_def)
next
  case False
  then show ?thesis using assms by (auto simp: validate_syscall_def arrivals_def)
qed

text \<open>A broken queue: connections are still accepted, data is a fault.\<close>

lemma broken_events:
  assumes "queue_broken sv"
  shows "if data_reported fd events then process_events fd events sv = Inl Use_After_Free
         else \<exists>sv'. process_events fd events sv = Inr sv' \<and> pool_threads sv' = pool_threads sv \<and>
                closed_fds (connections sv') = closed_fds (connections sv)"
  using assms
proof (induction events arbitrary: sv)
  case (Cons ev events)
  show ?case
  proof (cases "to_cint (int (ident ev)) = fd")
    case True
    have "queue_broken (snd (process_connection_event ev sv))"
      using Cons.prems by (simp add: queue_broken_def connection_event_queue)
    with True Cons.IH [of "snd (process_connection_event ev sv)"] show ?thesis
      by (auto simp: data_reported_def connection_event_closed connection_event_queue split: if_splits)
  next
    case False
    then show ?thesis
      using dangling_faults(1) Cons.prems
      by (simp add: data_reported_def process_data_event_def queue_broken_def)
  qed
qed (simp add: data_reported_def)

lemma broken_poll:
  assumes "queue_broken sv"
  shows "if 0 \<le> k \<and> data_reported fd (take (nat k) events) then poll_events fd [(k, events)] sv = Inl Use_After_Free
         else \<exists>sv'. poll_events fd [(k, events)] sv = Inr (if k < 0 then Some False else None, sv') \<and>
                pool_threads sv' = pool_threads sv \<and> closed_fds (connections sv') = closed_fds (connections sv)"
  using broken_events [OF assms, of fd "take (nat k) events"]
  by (auto simp: validate_syscall_def data_reported_def split: if_splits)

lemma unreported_arrivals: "\<not> data_reported fd events \<Longrightarrow> arrivals fd events = []"
  by (auto simp: data_reported_def arrivals_def list_ex_iff filter_empty_conv)

text \<open>A round of a worker: the oldest task is served and its socket closed.\<close>

lemma work_turn:
  assumes "queue_good sv" and "queued sv = d # ds"
  shows "\<exists>sv'. queue_usable sv' \<and> (queue_broken sv' \<longleftrightarrow> length ds = 1) \<and> queued sv' = ds \<and>
           closed_fds (connections sv') = closed_fds (connections sv) @ (if d < 0 then [] else [d]) \<and>
           server_run alloc stack einval recv fd (Work # actions) (n, peers, sv) =
             (if d < 0 then server_run alloc stack einval recv fd actions (n, peers, sv')
              else (case process_request alloc stack einval recv n d (peers d) of
                      Inl e \<Rightarrow> Inl e
                    | Inr (_, _, _, n', peer') \<Rightarrow>
                        server_run alloc stack einval recv fd actions (n', peers(d := peer'), sv')))"
proof -
  let ?q = "tasks (pool_threads sv)"
  obtain q1 where q1: "pull_next_task (- 1) ?q = Inr (0 \<le> d, if d < 0 then - 1 else d, q1)" "contents q1 = ds"
      "if length ds = 1 then queue_dangling q1 else queue_ok q1"
    using pull_ok [of ?q d ds "- 1"] assms by (auto simp: queue_good_def queued_def)
  have some: "num_connections ?q \<noteq> 0"
    using counter_ok [of ?q] assms by (simp add: queue_good_def queued_def)
  let ?sv = "sv\<lparr>connections := (if d < 0 then connections sv else close_fd d (connections sv)),
                pool_threads := (pool_threads sv)\<lparr>tasks := q1\<rparr>\<rparr>"
  have "queue_broken ?sv \<longleftrightarrow> length ds = 1" "queue_usable ?sv"
    using q1(3) good_not_broken [of ?sv]
    by (auto simp: queue_usable_def queue_broken_def queue_good_def split: if_splits)
  then show ?thesis
    using q1(1,2) some
    by (intro exI [of _ ?sv])
       (auto simp: queued_def close_fd_def runner_step_def Let_def split: sum.split prod.split)
qed

lemma work_idle:
  assumes "queue_good sv" and "queued sv = []"
  shows "server_run alloc stack einval recv fd (Work # actions) (n, peers, sv) =
           server_run alloc stack einval recv fd actions (n, peers, sv)"
proof -
  have "num_connections (tasks (pool_threads sv)) = 0"
    using counter_ok assms by (simp add: queue_good_def queued_def)
  then show ?thesis by (simp add: runner_step_def)
qed

lemma work_broken:
  assumes "queue_broken sv"
  shows "server_run alloc stack einval recv fd (Work # actions) (n, peers, sv) = Inl Use_After_Free"
  using dangling_faults(2) broken_counts [OF assms] assms by (simp add: runner_step_def queue_broken_def)

text \<open>A turn of the event loop.\<close>

lemma poll_turn:
  assumes "queue_usable sv"
  shows "if 0 \<le> k \<and> queue_broken sv \<and> data_reported fd (take (nat k) events)
         then server_run alloc stack einval recv fd (Poll k events # actions) (n, peers, sv) = Inl Use_After_Free
         else \<exists>sv'. queue_usable sv' \<and> queue_broken sv' = queue_broken sv \<and>
           queued sv' = queued sv @ (if k < 0 then [] else arrivals fd (take (nat k) events)) \<and>
           closed_fds (connections sv') = closed_fds (connections sv) \<and>
           server_run alloc stack einval recv fd (Poll k events # actions) (n, peers, sv) =
             (if k < 0 then Inr (False, n, peers, sv')
              else server_run alloc stack einval recv fd actions (n, peers, sv'))"
proof (cases "queue_broken sv")
  case broken: True
  note poll = broken_poll [OF broken, of k fd events]
  show ?thesis
  proof (cases "0 \<le> k \<and> data_reported fd (take (nat k) events)")
    case True
    then show ?thesis using poll broken by (simp del: poll_events.simps)
  next
    case False
    then obtain sv' where sv': "poll_events fd [(k, events)] sv = Inr (if k < 0 then Some False else None, sv')"
        "pool_threads sv' = pool_threads sv" "closed_fds (connections sv') = closed_fds (connections sv)"
      using poll by auto
    then have "queue_usable sv'" "queue_broken sv' = queue_broken sv" "queued sv' = queued sv"
      using broken by (simp_all add: queue_usable_def queue_broken_def queued_def)
    moreover have "k < 0 \<or> arrivals fd (take (nat k) events) = []" using False unreported_arrivals by auto
    ultimately show ?thesis
      using sv' False by (auto simp del: poll_events.simps)
  qed
next
  case False
  then have "queue_good sv" using assms by (simp add: queue_usable_def)
  then obtain sv' where sv': "poll_events fd [(k, events)] sv = Inr (if k < 0 then Some False else None, sv')"
      "queue_good sv'" "queued sv' = queued sv @ (if k < 0 then [] else arrivals fd (take (nat k) events))"
      "closed_fds (connections sv') = closed_fds (connections sv)"
    using poll_refines by blast
  then show ?thesis
    using False good_not_broken [OF sv'(2)] by (auto simp: queue_usable_def simp del: poll_events.simps)
qed

text \<open>The whole run, by induction over its turns.\<close>

fun run_view :: "fault + (bool \<times> ('s, 'a) running) \<Rightarrow> fault + (bool \<times> 's spec_state)" where
  "run_view (Inl e) = Inl e"
| "run_view (Inr (b, r)) = Inr (b, view r)"

lemma run_view_fault: "run_view r = Inl e \<longleftrightarrow> r = Inl e"
  by (cases r rule: run_view.cases) simp_all

lemma run_view_result:
  assumes "run_view r = Inr (b, v)"
  obtains n peers sv where "r = Inr (b, n, peers, sv)" and "v = view (n, peers, sv)"
  using assms by (cases r rule: run_view.cases) fastforce+

lemma server_run_refines:
  assumes "queue_usable sv"
  shows "run_view (server_run alloc stack einval recv fd actions (n, peers, sv)) =
           spec_run alloc stack einval recv fd actions (view (n, peers, sv))"
  using assms
proof (induction actions arbitrary: n peers sv)
  case (Cons act actions)
  show ?case
  proof (cases act)
    case (Poll k events)
    then show ?thesis
      using poll_turn [OF Cons.prems, of k fd events alloc stack einval recv actions n peers] Cons.IH
      by (auto simp: Let_def simp del: server_run.simps split: if_splits)
  next
    case Work
    consider (broken) "queue_broken sv" | (idle) "queue_good sv" "queued sv = []"
      | (task) d ds where "queue_good sv" "queued sv = d # ds"
      using Cons.prems by (cases "queued sv") (auto simp: queue_usable_def)
    then show ?thesis
    proof cases
      case broken
      then obtain d ds where "queued sv = d # ds" using broken_counts by (cases "queued sv") auto
      then show ?thesis by (simp add: Work broken work_broken del: server_run.simps)
    next
      case idle
      then show ?thesis
        using Cons.IH [OF Cons.prems] by (simp add: Work work_idle del: server_run.simps)
    next
      case task
      obtain sv' where sv': "queue_usable sv'" "queue_broken sv' \<longleftrightarrow> length ds = 1" "queued sv' = ds"
          "closed_fds (connections sv') = closed_fds (connections sv) @ (if d < 0 then [] else [d])"
          "server_run alloc stack einval recv fd (Work # actions) (n, peers, sv) =
             (if d < 0 then server_run alloc stack einval recv fd actions (n, peers, sv')
              else (case process_request alloc stack einval recv n d (peers d) of
                      Inl e \<Rightarrow> Inl e
                    | Inr (_, _, _, n', peer') \<Rightarrow>
                        server_run alloc stack einval recv fd actions (n', peers(d := peer'), sv')))"
        using work_turn [OF task] by blast
      show ?thesis
        using sv'(1-4) good_not_broken [OF task(1)] task(2)
        by (auto simp: Work sv'(5) Cons.IH fun_upd_def simp del: server_run.simps split: sum.split prod.split)
    qed
  qed
qed simp

section \<open>Property\<close>

text \<open>
  C2: The server is a queue of descriptors and the list of those closed. For every sequence of
  turns of the event loop (any kernel answers, failed allocations included) and rounds of the
  workers, from every state the queue can be in, the code and the specification return the
  same: the descriptors queued are the pending ones in order; the oldest is served next, by
  the request on its own peer, and closed once; the loop ends exactly when a poll fails; and a
  run faults exactly where its specification does, in the request being served, with the fault
  of that request, or at the first use of the queue, by a worker or for an event with data,
  after a worker took a task out of exactly two.
\<close>

theorem server_refines:
  assumes "queue_usable sv"
  shows "run_view (server_run alloc stack einval recv fd actions (n, peers, sv)) =
           spec_run alloc stack einval recv fd actions (view (n, peers, sv))"
  using assms by (rule server_run_refines)

text \<open>
  Two events (data on 5, a connection on the listener 3), a round, a poll that fails; no memory
  for the request, so the round returns.
\<close>

definition sample_event :: "nat \<Rightarrow> event" where
  "sample_event d = \<lparr>ident = d, eof = False, accepted = 9, timeout_set = 0, registered = 0, task_memory = True\<rparr>"

definition ready_server :: "unit server" where
  "ready_server = boot_state\<lparr>pool_threads := boot_threads\<lparr>tasks := init_queue boot_queue\<rparr>\<rparr>"

lemma ready_usable:
  "queue_good ready_server" "queue_usable ready_server" "queued ready_server = []"
  "closed_fds (connections ready_server) = []"
  using init_queue_ok
  by (simp_all add: queue_usable_def queue_good_def queued_def ready_server_def boot_state_def boot_conn_def)

lemma sample_spec:
  "spec_run (\<lambda>_. False) zero_stack True scripted 3 [Poll 2 [sample_event 5, sample_event 3], Work, Poll (- 1) []]
     (view (0, \<lambda>_. [], ready_server)) = Inr (False, 1, \<lambda>_. [], [], [5], False)"
  using ready_usable good_not_broken [OF ready_usable(1)]
  by (simp add: arrivals_def sample_event_def to_cint_id process_request_def fun_upd_idem)

theorem server_refines_witness:
  "run_view (server_run (\<lambda>_. False) zero_stack True scripted 3
       [Poll 2 [sample_event 5, sample_event 3], Work, Poll (- 1) []] (0, \<lambda>_. [], ready_server)) =
     Inr (False, 1, \<lambda>_. [], [], [5], False)"
  unfolding sample_spec [symmetric] by (rule server_refines [OF ready_usable(2)])

end
