(* ===== verification/Server_Safety.thy ===== *)
theory Server_Safety
  imports Server_Run
begin

text \<open>
  What holds of every run of the server that returns, refined or not: where closed descriptors
  come from, which descriptors are never closed, and what a worker that empties a queue of two
  does to the rest of the run. The invariant (\<open>queue_usable\<close>) includes the corrupted queue,
  which every further use turns into a fault.
\<close>

section \<open>Runs from a good or a corrupted queue\<close>

text \<open>The descriptors the event loop is told have data, the listening socket aside.\<close>

fun reported :: "int \<Rightarrow> server_action list \<Rightarrow> int set" where
  "reported main_socket [] = {}"
| "reported main_socket (Poll num_events events # actions) =
     set (map (\<lambda>ev. to_cint (int (ident ev))) events) - {main_socket} \<union> reported main_socket actions"
| "reported main_socket (Work # actions) = reported main_socket actions"

lemma listener_not_reported: "fd \<notin> reported fd actions"
  by (induction fd actions rule: reported.induct) auto

text \<open>What the server holds or has closed.\<close>

definition handled :: "'a server \<Rightarrow> int set" where
  "handled sv = set (queued sv) \<union> set (closed_fds (connections sv))"

lemma connection_event_keeps:
  "queue_usable (snd (process_connection_event ev sv)) = queue_usable sv"
  "handled (snd (process_connection_event ev sv)) = handled sv"
  "set (opened_fds (connections sv)) \<subseteq> set (opened_fds (connections (snd (process_connection_event ev sv))))"
  by (simp_all add: queue_usable_def queue_broken_def queue_good_def handled_def queued_def connection_event_queue
        connection_event_closed process_connection_event_def accept_connection_def open_fd_def Let_def subset_insertI)

lemma data_event_keeps:
  assumes "queue_usable sv" and "process_data_event ev sv = Inr (ok, sv')"
  shows "queue_usable sv' \<and> handled sv' \<subseteq> insert (to_cint (int (ident ev))) (handled sv) \<and>
           connections sv' = connections sv"
proof -
  have good: "queue_good sv"
    using assms dangling_faults(1) by (auto simp: queue_usable_def queue_broken_def process_data_event_def)
  show ?thesis
    using data_event_refines [OF good, where ev = ev] assms(2)
    by (auto simp: queue_usable_def queue_broken_def handled_def split: if_splits)
qed

lemma events_keep:
  assumes "queue_usable sv" and "process_events fd events sv = Inr sv'"
  shows "queue_usable sv' \<and> handled sv' \<subseteq> handled sv \<union> (set (map (\<lambda>ev. to_cint (int (ident ev))) events) - {fd}) \<and>
           set (opened_fds (connections sv)) \<subseteq> set (opened_fds (connections sv'))"
  using assms
proof (induction events arbitrary: sv)
  case (Cons ev events)
  show ?case
  proof (cases "to_cint (int (ident ev)) = fd")
    case True
    then show ?thesis
      using Cons.IH [of "snd (process_connection_event ev sv)"] Cons.prems connection_event_keeps [where ev = ev and sv = sv]
      by auto
  next
    case False
    with Cons.prems(2) obtain ok sv1 where sv1: "process_data_event ev sv = Inr (ok, sv1)"
        "process_events fd events sv1 = Inr sv'"
      by (auto simp: cbind_eq_Inr)
    show ?thesis
      using data_event_keeps [OF Cons.prems(1) sv1(1)] Cons.IH [OF _ sv1(2)] False by auto
  qed
qed simp

lemma poll_keeps:
  assumes "queue_usable sv" and "poll_events fd [(k, events)] sv = Inr (r, sv')"
  shows "queue_usable sv' \<and> handled sv' \<subseteq> handled sv \<union> (set (map (\<lambda>ev. to_cint (int (ident ev))) events) - {fd}) \<and>
           set (opened_fds (connections sv)) \<subseteq> set (opened_fds (connections sv'))"
proof (cases "0 < k")
  case True
  then have "process_events fd (take (nat k) events) sv = Inr sv'"
    using assms(2) by (auto simp: validate_syscall_def cbind_eq_Inr)
  from events_keep [OF assms(1) this] show ?thesis by (auto dest: in_set_takeD)
next
  case False
  then show ?thesis using assms by (auto simp: validate_syscall_def split: if_splits)
qed

lemma work_keeps:
  assumes "queue_usable sv" and "runner_step alloc stack einval recv n peers (tasks (pool_threads sv)) (connections sv)
             = Inr (n', peers', q', conn)"
    and "sv' = sv\<lparr>connections := conn, pool_threads := (pool_threads sv)\<lparr>tasks := q'\<rparr>\<rparr>"
  shows "queue_usable sv' \<and> handled sv' \<subseteq> handled sv \<and>
           opened_fds (connections sv') = opened_fds (connections sv)"
proof (cases "num_connections (tasks (pool_threads sv)) = 0")
  case True
  then show ?thesis using assms
    by (simp add: runner_step_def queue_usable_def queue_broken_def queue_good_def handled_def queued_def)
next
  case False
  let ?q = "tasks (pool_threads sv)"
  from assms(2) False obtain ok d q1 where pull: "pull_next_task (- 1) ?q = Inr (ok, d, q1)"
    by (auto simp: runner_step_def cbind_eq_Inr)
  have good: "queue_ok ?q"
    using assms(1) pull dangling_faults(2) by (auto simp: queue_usable_def queue_broken_def queue_good_def)
  then obtain e es where es: "contents ?q = e # es"
    using False counter_ok by (cases "contents ?q") auto
  have after: "d = (if e < 0 then - 1 else e)" "contents q1 = es" "queue_ok q1 \<or> queue_dangling q1"
    using pull_ok [OF good es, of "- 1"] pull by (auto split: if_splits)
  have "q' = q1" "conn = (if d = - 1 then connections sv else close_fd d (connections sv))"
    using assms(2) False pull
    by (auto simp: runner_step_def Let_def cbind_eq_Inr split: if_splits prod.splits)
  then show ?thesis
    using assms(3) after es by (auto simp: queue_usable_def queue_broken_def queue_good_def handled_def queued_def close_fd_def split: if_splits)
qed

lemma run_keeps:
  assumes "queue_usable sv" and "server_run alloc stack einval recv fd actions (n, peers, sv) = Inr (b, n', peers', sv')"
  shows "queue_usable sv' \<and> handled sv' \<subseteq> handled sv \<union> reported fd actions \<and>
           set (opened_fds (connections sv)) \<subseteq> set (opened_fds (connections sv'))"
  using assms
proof (induction actions arbitrary: n peers sv)
  case (Cons act actions)
  show ?case
  proof (cases act)
    case (Poll k events)
    with Cons.prems(2) obtain r sv1 where sv1: "poll_events fd [(k, events)] sv = Inr (r, sv1)"
        "(if r = None then server_run alloc stack einval recv fd actions (n, peers, sv1)
          else Inr (False, n, peers, sv1)) = Inr (b, n', peers', sv')"
      by (auto simp: cbind_eq_Inr simp del: poll_events.simps)
    note poll = poll_keeps [OF Cons.prems(1) sv1(1)]
    show ?thesis
    proof (cases r)
      case None
      then show ?thesis using sv1(2) Cons.IH [of sv1 n peers] poll by (auto simp: Poll)
    next
      case (Some x)
      then show ?thesis using sv1(2) poll by (auto simp: Poll)
    qed
  next
    case Work
    with Cons.prems(2) obtain n1 peers1 q1 conn where round:
        "runner_step alloc stack einval recv n peers (tasks (pool_threads sv)) (connections sv) = Inr (n1, peers1, q1, conn)"
        "server_run alloc stack einval recv fd actions
           (n1, peers1, sv\<lparr>connections := conn, pool_threads := (pool_threads sv)\<lparr>tasks := q1\<rparr>\<rparr>) = Inr (b, n', peers', sv')"
      by (auto simp: cbind_eq_Inr)
    show ?thesis
      using work_keeps [OF Cons.prems(1) round(1) refl] Cons.IH [OF _ round(2)] by (auto simp: Work)
  qed
qed simp

section \<open>Properties\<close>

text \<open>
  C16: Where closed descriptors come from. In every run of the event loop and the workers that
  returns, every descriptor closed was closed before, was queued at the start or is one the
  kernel reported data on, and everything still queued is too; the queue is good or the one
  that any further use faults on. In particular no worker ever closes the listening socket.
\<close>

theorem server_closes_only_reported:
  assumes "queue_usable sv"
    and "server_run alloc stack einval recv fd actions (n, peers, sv) = Inr (b, n', peers', sv')"
  shows "set (queued sv') \<union> set (closed_fds (connections sv')) \<subseteq>
           set (queued sv) \<union> set (closed_fds (connections sv)) \<union> reported fd actions \<and>
         (fd \<notin> set (queued sv) \<union> set (closed_fds (connections sv)) \<longrightarrow> fd \<notin> set (closed_fds (connections sv'))) \<and>
         queue_usable sv'"
  using run_keeps [OF assms] listener_not_reported [of fd actions] by (auto simp: handled_def)

text \<open>Data on 5 and a connection on the listener 3, a round without memory for the request, a poll that fails.\<close>

lemma sample_run:
  "\<exists>n' peers' sv'. server_run (\<lambda>_. False) zero_stack True scripted 3
     [Poll 2 [sample_event 5, sample_event 3], Work, Poll (- 1) []] (0, \<lambda>_. [], ready_server) = Inr (False, n', peers', sv')"
proof -
  have "run_view (server_run (\<lambda>_. False) zero_stack True scripted 3
      [Poll 2 [sample_event 5, sample_event 3], Work, Poll (- 1) []] (0, \<lambda>_. [], ready_server)) =
    Inr (False, 1, \<lambda>_. [], [], [5], False)"
    unfolding sample_spec [symmetric] by (rule server_run_refines [OF ready_usable(2)])
  then show ?thesis by (elim run_view_result) blast
qed

theorem server_closes_only_reported_witness:
  "\<exists>n' peers' sv'. server_run (\<lambda>_. False) zero_stack True scripted 3
       [Poll 2 [sample_event 5, sample_event 3], Work, Poll (- 1) []] (0, \<lambda>_. [], ready_server) = Inr (False, n', peers', sv') \<and>
     set (queued sv') \<union> set (closed_fds (connections sv')) \<subseteq> {5} \<and> 3 \<notin> set (closed_fds (connections sv')) \<and> queue_usable sv'"
proof -
  obtain n' peers' sv' where run: "server_run (\<lambda>_. False) zero_stack True scripted 3
     [Poll 2 [sample_event 5, sample_event 3], Work, Poll (- 1) []] (0, \<lambda>_. [], ready_server) = Inr (False, n', peers', sv')"
    using sample_run by blast
  have "reported 3 [Poll 2 [sample_event 5, sample_event 3], Work, Poll (- 1) []] = {5}"
    by (auto simp: sample_event_def to_cint_id)
  then show ?thesis
    using server_closes_only_reported [OF ready_usable(2) run] run by (simp add: ready_usable)
qed

text \<open>
  C31: A connection whose time-out cannot be set, or that cannot be subscribed to, is lost for
  good. The handler neither closes its descriptor nor watches it; since the kernel reports
  nothing on a descriptor nobody watches, it is still open and unqueued after every run of
  the server that returns, however long.
\<close>

theorem failed_connection_never_closed:
  assumes "queue_usable sv" and "to_cint (int (ident ev)) = fd" and "0 \<le> accepted ev"
    and "timeout_set ev < 0 \<or> registered ev < 0"
    and "accepted ev \<notin> set (queued sv) \<union> set (closed_fds (connections sv)) \<union> reported fd actions"
    and "server_run alloc stack einval recv fd (Poll 1 [ev] # actions) (n, peers, sv) = Inr (b, n', peers', sv')"
  shows "accepted ev \<in> set (opened_fds (connections sv')) \<and>
         accepted ev \<notin> set (queued sv') \<union> set (closed_fds (connections sv'))"
proof -
  let ?sv1 = "snd (process_connection_event ev sv)"
  have run: "server_run alloc stack einval recv fd actions (n, peers, ?sv1) = Inr (b, n', peers', sv')"
    using assms(2,6) by (simp add: validate_syscall_def)
  have opened: "accepted ev \<in> set (opened_fds (connections ?sv1))"
    using assms(3,4) by (auto simp: process_connection_event_def accept_connection_def open_fd_def Let_def)
  have "queue_usable ?sv1" using assms(1) by (simp add: connection_event_keeps)
  from run_keeps [OF this run] have "handled sv' \<subseteq> handled sv \<union> reported fd actions"
      "set (opened_fds (connections ?sv1)) \<subseteq> set (opened_fds (connections sv'))"
    by (simp_all add: connection_event_keeps)
  then show ?thesis using opened assms(5) by (auto simp: handled_def)
qed

definition unwatched_event :: event where
  "unwatched_event = \<lparr>ident = 3, eof = False, accepted = 9, timeout_set = - 1, registered = 0, task_memory = True\<rparr>"

theorem failed_connection_never_closed_witness:
  "\<exists>n' peers' sv'. server_run (\<lambda>_. True) zero_stack True scripted 3
       [Poll 1 [unwatched_event], Poll (- 1) []] (0, \<lambda>_. [], ready_server) = Inr (False, n', peers', sv') \<and>
     9 \<in> set (opened_fds (connections sv')) \<and> 9 \<notin> set (queued sv') \<union> set (closed_fds (connections sv'))"
proof -
  let ?sv1 = "snd (process_connection_event unwatched_event ready_server)"
  have run: "server_run (\<lambda>_. True) zero_stack True scripted 3 [Poll 1 [unwatched_event], Poll (- 1) []]
       (0, \<lambda>_. [], ready_server) = Inr (False, 0, \<lambda>_. [], ?sv1)"
    by (simp add: unwatched_event_def to_cint_id validate_syscall_def)
  show ?thesis
    using failed_connection_never_closed [OF ready_usable(2) _ _ _ _ run] run
    by (simp add: ready_usable unwatched_event_def to_cint_id)
qed

text \<open>
  C29: Two pending requests are too many. When a worker takes the first of exactly two queued
  tasks, the server does not survive the next use of its queue, be it another round of a worker
  or a poll that reports data anywhere among its events, whether or not there is memory for the
  task: the run ends in a read of freed memory, unless serving the first task has already ended
  it, with the fault of that request on that peer.
\<close>

theorem two_pending_fault:
  assumes "queue_good sv" and "queued sv = [d, e]"
    and "act = Work \<or> (\<exists>k events. act = Poll k events \<and> data_reported fd (take (nat k) events))"
  shows "server_run alloc stack einval recv fd (Work # act # actions) (n, peers, sv) =
           Inl (if d < 0 then Use_After_Free
                else (case process_request alloc stack einval recv n d (peers d) of
                        Inl f \<Rightarrow> f | Inr _ \<Rightarrow> Use_After_Free))"
proof -
  have no_poll: "\<not> data_reported fd (take (nat k) events)" if "k < 0" for k events
    using that by (simp add: data_reported_def)
  have first: "spec_run alloc stack einval recv fd (act # actions) (m, ps, [e], closed, True) = Inl Use_After_Free"
    for m ps closed
    using assms(3) no_poll by (auto simp: Let_def)
  have "run_view (server_run alloc stack einval recv fd (Work # act # actions) (n, peers, sv)) =
      spec_run alloc stack einval recv fd (Work # act # actions) (view (n, peers, sv))"
    by (rule server_run_refines) (simp add: queue_usable_def assms(1))
  also have "\<dots> = Inl (if d < 0 then Use_After_Free
                else (case process_request alloc stack einval recv n d (peers d) of
                        Inl f \<Rightarrow> f | Inr _ \<Rightarrow> Use_After_Free))"
    using good_not_broken [OF assms(1)] first assms(2) by (auto split: sum.split)
  finally show ?thesis by (simp add: run_view_fault)
qed

text \<open>
  Descriptors 5 and 6 are queued, and there is no memory for the requests; the poll reports a
  connection on the listener 3 and then data on 7.
\<close>

theorem two_pending_fault_witness:
  "server_run (\<lambda>_. False) zero_stack True scripted 3 [Work, Poll 2 [sample_event 3, sample_event 7]] (0, \<lambda>_. [],
         ready_server\<lparr>pool_threads := boot_threads\<lparr>tasks := two_tasks\<rparr>\<rparr>) = Inl Use_After_Free"
  by (subst two_pending_fault [where d = 5 and e = 6])
     (simp_all add: queue_good_def queued_def two_tasks_ok sample_event_def to_cint_id data_reported_def
        process_request_def)

end
