(* ===== verification/Router.thy ===== *)
theory Router
  imports Hash_Tools Http_Types Configuration
begin

text \<open>
  \<open>services/http/dynamic-router/dynamic_router.c\<close>: the start of the router,
  \<open>invoke_route\<close>, the key a route is stored under, and \<open>bind_route\<close> up to the
  \<open>if()\<close> without a condition that ends it and does not compile. \<open>bind_route_never_binds\<close>
  shows that no run would reach the \<open>if()\<close>.

  \<open>configured_routes\<close> is declared as an array of \<open>hash_entry\<close>, allocated as an array of
  pointers, indexed as an array of \<open>hash_entry\<close> and passed on by its address. The model keeps
  the block as its 8-byte cells: a cell is NULL or the pointer to a block of bytes.
\<close>

section \<open>The state\<close>

type_synonym route_cells = "byte list option list"

record router =
  initialized :: bool
  configured_routes :: "route_cells option"
  num_routes :: size_t
  route_limit :: size_t

definition boot_router :: router where
  "boot_router = \<lparr>initialized = False, configured_routes = None, num_routes = 0, route_limit = 0\<rparr>"

section \<open>The operations\<close>

text \<open>The result of \<open>hash_allocate\<close> is not looked at, only the table pointer.\<close>

definition initialize_router :: "bool \<Rightarrow> configuration \<Rightarrow> router \<Rightarrow> bool \<times> router" where
  "initialize_router allocated cfg r =
     (let r1 = r\<lparr>route_limit := max_num_routes cfg\<rparr>
      in if route_limit r1 < 1 then (False, r1\<lparr>initialized := False\<rparr>)
         else (let (_, table) = hash_allocate allocated (max_num_routes cfg) (configured_routes r1);
                   r2 = r1\<lparr>configured_routes := table\<rparr>
               in if configured_routes r2 = None then (False, r2\<lparr>initialized := False\<rparr>)
                  else (True, r2\<lparr>initialized := True\<rparr>)))"

definition invoke_route :: "http_request \<Rightarrow> router \<Rightarrow> bool" where
  "invoke_route request r = (if \<not> initialized r then False else True)"

text \<open>The copy loop; \<open>cursor\<close> is \<open>buf\<close> minus its start; \<open>buf\<close> is the array.\<close>

fun copy_path :: "byte list \<Rightarrow> byte list \<Rightarrow> nat \<Rightarrow> fault + (byte list \<times> nat)" where
  "copy_path [] buf cursor = Inl Out_Of_Bounds"
| "copy_path (c # source) buf cursor =
     (if c \<noteq> 0 then cbind (wr buf cursor c) (\<lambda>buf'. copy_path source buf' (Suc cursor))
      else Inr (buf, cursor))"

definition get_key ::
  "byte list \<Rightarrow> nat \<Rightarrow> http_request_method \<Rightarrow> byte list \<Rightarrow> nat \<Rightarrow> fault + (bool \<times> byte list)" where
  "get_key path path_size tag buf buf_size =
     (if buf_size \<le> path_size then Inr (False, buf)
      else cbind (copy_path path buf 0)
        (\<lambda>(buf', cursor). cbind (wr buf' (cursor + 1) (of_nat (method_number tag) + 48))
          (\<lambda>buf''. Inr (True, buf''))))"

section \<open>Binding a route\<close>

record route_metadata =
  route_method :: http_request_method
  route_path_size :: size_t
  route_path :: "byte list"

definition sizeof_route_metadata :: size_t where
  "sizeof_route_metadata = 16"

text \<open>
  \<open>configured_routes[i].value\<close>: an entry is 32 bytes and \<open>value\<close> is its last field, so
  it is the cell \<open>4 * i + 3\<close>.
\<close>

definition value_cell :: "size_t \<Rightarrow> nat" where
  "value_cell i = 4 * unat i + 3"

text \<open>
  The object \<open>metadata\<close> points at, with the copy of the path: \<open>block_size\<close> bytes were
  allocated for it.
\<close>

definition fill_metadata ::
  "http_request_method \<Rightarrow> size_t \<Rightarrow> byte list \<Rightarrow> size_t \<Rightarrow> fault + route_metadata" where
  "fill_metadata tag path_size path block_size =
     (if block_size < sizeof_route_metadata then Inl Out_Of_Bounds
      else cbind (c_load path (unat path_size))
        (\<lambda>bs. cbind (c_store (replicate (unat (block_size - sizeof_route_metadata)) 0) 0 bs)
          (\<lambda>stored. Inr \<lparr>route_method = tag, route_path_size = path_size, route_path = stored\<rparr>)))"

text \<open>
  \<open>bind_route\<close> up to the \<open>if()\<close>: the result is \<open>Some b\<close> for \<open>return b\<close> and
  \<open>None\<close> where control would reach it. \<open>alloc n\<close> is the allocation of the slot,
  \<open>alloc (n + 1)\<close> that of the metadata, \<open>alloc (n + 2)\<close> that of the hash entry. The array
  \<open>key\<close> holds whatever the stack held. \<open>hash_add_entry\<close> gets the addresses of two pointer
  variables: a table of the one cell \<open>configured_routes\<close> is in, read as a pointer to the
  entry \<open>misread\<close>, and the eight bytes \<open>address\<close> of \<open>metadata\<close>.
\<close>

definition bind_route ::
  "allocator \<Rightarrow> nat \<Rightarrow> (nat \<Rightarrow> byte) \<Rightarrow> hash_entry \<Rightarrow> byte list \<Rightarrow> configuration
     \<Rightarrow> http_request_method \<Rightarrow> size_t \<Rightarrow> byte list option \<Rightarrow> router \<Rightarrow> fault + (bool option \<times> router)" where
  "bind_route alloc n junk misread address cfg tag path_size path r =
     (if \<not> initialized r then Inr (Some False, r)
      else (case configured_routes r of
        None \<Rightarrow> Inr (Some False, r)
      | Some cells \<Rightarrow>
          if tag \<ge> TYPE_COUNT \<or> path = None \<or> path_size < 1 then Inr (Some False, r)
          else if num_routes r > max_num_routes cfg then Inr (Some False, r)
          else
            (let block_size = sizeof_route_metadata + path_size;
                 slot = (if alloc n then Some (replicate (unat block_size) 0) else None);
                 key_size = path_size + 1
             in cbind (wr cells (value_cell (num_routes r)) slot)
               (\<lambda>cells'.
                  let r1 = r\<lparr>configured_routes := Some cells'\<rparr>
                  in if slot = None then Inr (Some False, r1)
                     else cbind (get_key (the path) (unat path_size) tag (map junk [0..<unat key_size]) (unat key_size))
                       (\<lambda>(made, key).
                          if \<not> made then Inr (Some False, r1)
                          else if \<not> alloc (n + 1) then Inr (Some False, r1)
                          else cbind (fill_metadata tag path_size (the path) block_size)
                            (\<lambda>metadata. cbind
                               (hash_add_entry (alloc (n + 2)) (Some key) key_size (Some address) block_size
                                  (Some [Some misread]) (max_num_routes cfg) (Some (- 1)))
                               (\<lambda>(added, _, _). if \<not> added then Inr (Some False, r1) else Inr (None, r1))))))))"

section \<open>Lemmas\<close>

lemma copy_path_run:
  "0 \<notin> set p \<Longrightarrow> length p \<le> length old \<Longrightarrow>
     copy_path (p @ 0 # r) (pre @ old) (length pre) = Inr (pre @ p @ drop (length p) old, length pre + length p)"
proof (induction p arbitrary: pre old)
  case (Cons c p)
  then obtain x old' where old: "old = x # old'" by (cases old) auto
  have "copy_path ((c # p) @ 0 # r) (pre @ old) (length pre) = copy_path (p @ 0 # r) ((pre @ [c]) @ old') (length (pre @ [c]))"
    using Cons.prems by (simp add: old wr_append_next)
  also have "\<dots> = Inr ((pre @ [c]) @ p @ drop (length p) old', length (pre @ [c]) + length p)"
    by (rule Cons.IH) (use Cons.prems old in simp_all)
  finally show ?case by (simp add: old)
qed simp

text \<open>
  The key of a route. For a path of \<open>path_size\<close> characters, \<open>_get_key\<close> writes the
  method one byte behind the array of \<open>path_size + 1\<close> bytes its caller provides; given one
  byte more it succeeds, with the path, one byte it never wrote, and the method digit.
\<close>

lemma route_key:
  assumes "0 \<notin> set p" and "length buf = buf_size" and "length p < buf_size"
  shows "get_key (p @ 0 # r) (length p) tag buf buf_size =
           (if buf_size = length p + 1 then Inl Out_Of_Bounds
            else Inr (True, p @ buf ! length p # (of_nat (method_number tag) + 48) # drop (length p + 2) buf))"
proof -
  have copy: "copy_path (p @ 0 # r) buf 0 = Inr (p @ drop (length p) buf, length p)"
    using copy_path_run [of p buf r "[]"] assms by simp
  obtain x buf' where buf: "drop (length p) buf = x # buf'"
    using assms(2,3) by (cases "drop (length p) buf") auto
  have x: "buf ! length p = x" using assms(2,3) buf by (metis hd_drop_conv_nth list.sel(1))
  have len: "length buf' = buf_size - length p - 1"
    using arg_cong [OF buf, of length] assms(2) by simp
  have rest: "drop (Suc (Suc (length p))) buf = drop 1 buf'"
    using arg_cong [OF buf, of "drop 2"] by (simp add: numeral_2_eq_2)
  show ?thesis
  proof (cases buf')
    case Nil
    then have "buf_size = length p + 1" using len assms(3) by simp
    then show ?thesis using Nil by (simp add: get_key_def copy buf wr_out)
  next
    case (Cons y ys)
    then have "buf_size \<noteq> length p + 1" using len by auto
    moreover have "wr (p @ x # y # ys) (Suc (length p)) v = Inr (p @ x # v # ys)" for v
      using wr_append_next [of "Suc (length p)" "p @ [x]" y ys v] by simp
    ultimately show ?thesis
      using Cons x rest assms(3) by (simp add: get_key_def copy buf)
  qed
qed

text \<open>The hash function is given a table of one cell, and slot 0 is never used.\<close>

lemma generated_index:
  assumes "generate_hash_index (Some k) ks table_size (Some c) = Inr (True, cell)"
  shows "\<exists>i. cell = Some i \<and> i \<noteq> 0"
proof (cases "ks < 1 \<or> table_size < 2")
  case False
  then obtain x where "cell = Some (if x mod table_size = 0 then x mod table_size + 1 else x mod table_size)"
    using assms unfolding generate_hash_index_def option.case if_not_P [OF False] Let_def cbind_eq_Inr by blast
  then show ?thesis by simp
qed (use assms in \<open>simp add: generate_hash_index_def\<close>)

lemma one_cell_table:
  "hash_add_entry a kp ks vp vs (Some [slot]) table_size c \<noteq> Inr (True, t, h)"
proof
  assume added: "hash_add_entry a kp ks vp vs (Some [slot]) table_size c = Inr (True, t, h)"
  then obtain k v where kv: "kp = Some k" "vp = Some v"
    by (auto simp: hash_add_entry_def split: option.splits)
  from added obtain cell found where cell: "generate_hash_index (Some k) ks (table_size * 2) (Some 0) = Inr (True, cell)"
      and probe: "add_probe [slot] (unat (table_size * 2)) (unat (the cell)) 0 = Inr found"
    by (auto simp: kv hash_add_entry_def Let_def cbind_eq_Inr split: if_splits)
  obtain i where "cell = Some i" "i \<noteq> 0" using generated_index [OF cell] by blast
  then have "1 \<le> unat (the cell)" by (simp add: Suc_le_eq unat_gt_0)
  with probe show False by (subst (asm) add_probe.simps) (simp add: rd_out)
qed

lemma keygen_in: "n \<le> length k \<Longrightarrow> \<exists>v. keygen_loop k n a = Inr v"
  by (induction k n a rule: keygen_loop.induct) auto

lemma one_cell_overflow:
  assumes "k = Some kb" and "length kb = unat ks" and "ks \<noteq> 0" and "vs \<noteq> 0"
    and "table_size \<noteq> 0" and "2 \<le> table_size * 2" and "v = Some bytes"
  shows "hash_add_entry a k ks v vs (Some [slot]) table_size (Some c) = Inl Out_Of_Bounds"
proof -
  obtain x where x: "keygen_loop kb (unat ks) 0 = Inr x" using keygen_in assms(2) by fastforce
  define i where "i = (if x mod (table_size * 2) = 0 then 1 else x mod (table_size * 2))"
  have "x mod (table_size * 2) < table_size * 2"
    using assms(6) by (intro word_mod_less_divisor) (auto simp: word_gt_0)
  moreover have "1 < table_size * 2" using assms(6) by (simp add: word_le_nat_alt word_less_nat_alt)
  ultimately have i: "i \<noteq> 0" "\<not> table_size * 2 \<le> i" by (auto simp: i_def not_le)
  have "generate_hash_index (Some kb) ks (table_size * 2) (Some 0) = Inr (True, Some i)"
    using assms(3,6) x by (auto simp: generate_hash_index_def i_def Let_def not_less)
  moreover have "add_probe [slot] n (unat i) 0 = Inl Out_Of_Bounds" for n
    using i(1) by (subst add_probe.simps) (simp add: rd_out Suc_le_eq unat_gt_0)
  ultimately show ?thesis
    using assms i by (simp add: hash_add_entry_def not_less Let_def)
qed

section \<open>Properties\<close>

text \<open>
  No route is ever bound. Whatever the arguments, the state of the router and the allocator,
  a call of \<open>bind_route\<close> that returns returns false, and control never reaches its last
  statement: the table it hands to the hash function is the one cell of its own static variable.
\<close>

theorem bind_route_never_binds:
  "bind_route alloc n junk misread address cfg tag path_size path r \<noteq> Inr (Some True, r') \<and>
   bind_route alloc n junk misread address cfg tag path_size path r \<noteq> Inr (None, r')"
  using one_cell_table
  by (auto simp: bind_route_def Let_def cbind_eq_Inr split: option.splits if_splits prod.splits)

text \<open>A route table as the start of the router leaves it, and a key that fits its array.\<close>

lemma key_fits:
  assumes "0 \<notin> set p" and "length p < unat (path_size :: size_t)" and "unat path_size < 2 ^ 63" and "tag < TYPE_COUNT"
  shows "\<exists>key. get_key (p @ 0 # rest) (unat path_size) tag (map junk [0..<unat (path_size + 1)]) (unat (path_size + 1))
           = Inr (True, key) \<and> length key = unat (path_size + 1)"
proof -
  have key_size: "unat (path_size + 1) = Suc (unat path_size)"
    using assms(3) by (simp add: unat_word_ariths)
  let ?old = "map junk [0..<unat (path_size + 1)]"
  let ?copied = "p @ drop (length p) ?old"
  have "copy_path (p @ 0 # rest) ?old 0 = Inr (?copied, length p)"
    using copy_path_run [of p ?old rest "[]"] assms(1,2) key_size by simp
  moreover have "Suc (length p) < length ?copied" using assms(2) key_size by simp
  ultimately show ?thesis
    using key_size by (auto simp: get_key_def wr_def)
qed

text \<open>The metadata block has room for the path, and the path for what is read of it.\<close>

lemma metadata_block:
  assumes "unat path_size \<le> length path" and "unat path_size < 2 ^ 63"
  shows "sizeof_route_metadata + path_size \<noteq> 0 \<and>
         (\<exists>metadata. fill_metadata tag path_size path (sizeof_route_metadata + path_size) = Inr metadata)"
proof -
  let ?block = "sizeof_route_metadata + path_size"
  have block: "unat ?block = 16 + unat path_size"
    using assms(2) by (simp add: sizeof_route_metadata_def unat_word_ariths)
  then have "\<not> ?block < sizeof_route_metadata" by (simp add: word_less_nat_alt sizeof_route_metadata_def)
  moreover have "unat (?block - sizeof_route_metadata) = unat path_size" by simp
  ultimately have "\<exists>metadata. fill_metadata tag path_size path ?block = Inr metadata"
    using assms(1) by (simp add: fill_metadata_def c_store_def c_load_in)
  then show ?thesis using block by auto
qed

text \<open>
  C26: What binding a route does on a router that is ready. With valid arguments and memory it
  always ends in an access outside an object: behind the key when \<open>path_size\<close> is the length of
  the path, behind the static variable when the key has room for the method.
\<close>

theorem bind_route_overflows:
  assumes "initialized r" and "configured_routes r = Some cells" and "tag < TYPE_COUNT"
    and "0 \<notin> set p" and "length p \<le> unat path_size" and "unat path_size \<le> length (p @ 0 # rest)"
    and "1 \<le> path_size" and "unat path_size < 2 ^ 63" and "num_routes r \<le> max_num_routes cfg"
    and "2 \<le> max_num_routes cfg" and "unat (max_num_routes cfg) < 2 ^ 63" and "\<forall>i. alloc i"
  shows "bind_route alloc n junk misread address cfg tag path_size (Some (p @ 0 # rest)) r = Inl Out_Of_Bounds"
proof (cases "value_cell (num_routes r) < length cells")
  case False
  then show ?thesis using assms by (auto simp: bind_route_def wr_out not_le)
next
  case True
  have key_size: "unat (path_size + 1) = Suc (unat path_size)"
    using assms(8) by (simp add: unat_word_ariths)
  show ?thesis
  proof (cases "length p = unat path_size")
    case exact: True
    have "get_key (p @ 0 # rest) (unat path_size) tag (map junk [0..<unat (path_size + 1)]) (unat (path_size + 1))
        = Inl Out_Of_Bounds"
      using route_key [OF assms(4), of "map junk [0..<unat (path_size + 1)]" "unat (path_size + 1)" rest tag] exact key_size
      by simp
    then show ?thesis using assms True by (auto simp: bind_route_def wr_in Let_def not_le)
  next
    case False
    then obtain key where key: "get_key (p @ 0 # rest) (unat path_size) tag (map junk [0..<unat (path_size + 1)])
        (unat (path_size + 1)) = Inr (True, key)" "length key = unat (path_size + 1)"
      using key_fits [OF assms(4) _ assms(8,3), of rest junk] assms(5) by auto
    obtain metadata where metadata: "sizeof_route_metadata + path_size \<noteq> 0"
        "fill_metadata tag path_size (p @ 0 # rest) (sizeof_route_metadata + path_size) = Inr metadata"
      using metadata_block [OF assms(6,8)] by blast
    have "2 \<le> max_num_routes cfg * 2"
      using assms(10,11) by (simp add: word_le_nat_alt unat_mult_lem [THEN iffD1])
    moreover have "path_size + 1 \<noteq> 0" "max_num_routes cfg \<noteq> 0"
      using key_size assms(10) by (auto simp: word_le_nat_alt)
    ultimately have "hash_add_entry a (Some key) (path_size + 1) (Some address) (sizeof_route_metadata + path_size)
        (Some [Some misread]) (max_num_routes cfg) (Some (- 1)) = Inl Out_Of_Bounds" for a
      using metadata(1) by (intro one_cell_overflow [OF refl key(2)]) simp_all
    then show ?thesis
      using assms True key metadata(2) by (auto simp: bind_route_def wr_in Let_def not_le)
  qed
qed

text \<open>The path \<open>/a\<close> with its NUL counted, on a table for two routes.\<close>

theorem bind_route_overflows_witness:
  "bind_route (\<lambda>_. True) 0 (\<lambda>_. 7) \<lparr>entry_key_size = 0, entry_value_size = 0, entry_key = [], entry_value = []\<rparr>
     (replicate 8 1) default_config TYPE_GET 3 (Some ([47, 97] @ 0 # []))
     (boot_router\<lparr>initialized := True, configured_routes := Some [None, None, None, None]\<rparr>) = Inl Out_Of_Bounds"
  by (rule bind_route_overflows)
     (simp_all add: boot_router_def default_config_def less_http_request_method_def)

end
