(* ===== verification/Routing_Parser.thy ===== *)
theory Routing_Parser
  imports C_String
begin

text \<open>
  \<open>configuration/parsers/routing-parser/routing_parser.c\<close>: the parser of the routing files
  as far as it is written. Nothing calls it.
\<close>

text \<open>
  The result is \<open>None\<close> where control falls off the end of the function without a
  \<open>return\<close>, so that it has no value.
\<close>

definition parse_routing_configurations :: "byte list option \<Rightarrow> bool option" where
  "parse_routing_configurations file_path = (if file_path = None then Some False else None)"

end
