(* ===== verification/Spec2Isabelle.thy ===== *)
theory Spec2Isabelle
  imports Hash_Properties Http_Invariant Config_Reference Pool_Shutdown Server_Safety Router Routing_Parser
begin

text \<open>
  orb-weaver is an HTTP server in C17 (\<open>src/orb-weaver\<close>). \<open>main\<close> boots it (configuration
  file, local addresses, listening socket) and starts an event loop on \<open>kqueue\<close>; the loop
  accepts connections and puts every descriptor with data on a task queue; worker threads take
  descriptors from the queue, read a request into a buffer, parse it, and close the socket.
  A hash table and a router for later use stand beside this path. This development models all
  of it but what is listed at the end, and states what each part does and where it does not do
  what it means to.

  \<^bold>\<open>Conventions.\<close> A run is a value of \<open>fault + 'a\<close> (\<open>Orb_Prelude\<close>): \<open>Inl\<close> an
  access C leaves undefined, \<open>Inr\<close> what the function returns, the C \<open>bool\<close> first. Arrays
  and heap blocks are lists of cells, pointers to objects the code frees are \<open>ptr\<close>,
  \<open>size_t\<close> is a 64-bit word where its wrap-around can matter and a natural where it counts
  cells in memory. What is outside the program is an argument: whether the k-th allocation
  succeeds (\<open>allocator\<close>), the bytes of uninitialised automatic arrays (\<open>stack_bytes\<close>), the
  answers of the kernel and of the resolver. \<open>char\<close> is signed, as on the platform the program
  is written for; the build is the debug build of \<open>CMakeLists.txt\<close>. What is printed is modelled
  where printing is what a function is for (\<open>Logging\<close>). A variable-length array of length
  zero is the empty array, as the compilers make it.

  \<^bold>\<open>Theories, from the bottom.\<close>

  \<^item> \<open>Orb_Prelude\<close>: runs, cells, pointers; \<open>C_String\<close>: the functions of \<open>string.h\<close>.
  \<^item> \<open>String_Tools\<close> (\<open>utilities/string-tools\<close>): the three conversions. The decimal printer is
    exact and its bound on the buffer is the best possible; the other two store nothing.
  \<^item> \<open>Logging\<close> (\<open>services/logging\<close>): the three macros. \<open>Error_Handler\<close>
    (\<open>utilities/error-handler\<close>): \<open>validate_syscall\<close>, which prints exactly when it refuses.
  \<^item> \<open>Hash_Tools\<close> (\<open>utilities/hash-tools\<close>): the open-addressing table, its hash, its two
    probe loops. \<open>Hash_Map\<close> reduces both loops to a search along \<open>probe_order\<close> and gives
    the invariants \<open>table_ok\<close>, \<open>keys_unique\<close> and the abstraction \<open>table_map\<close>;
    \<open>Hash_Store\<close> states the contract of a key-value store as the locale \<open>kv_store\<close> and
    interprets it on the table; \<open>Hash_Properties\<close> has the refinement theorems.
  \<^item> \<open>Task_Queue\<close> (\<open>thread_handler.c\<close>, \<open>enqueue_task\<close> and \<open>_pull_next_task\<close>): the doubly
    linked queue in an explicit heap, since its tail pointer points into nodes that get freed.
    \<open>Task_Fifo\<close> states the contract as the locale \<open>fifo\<close> and interprets it on the queue.
  \<^item> \<open>Thread_Pool\<close>: the interleavings of \<open>thread_runner\<close> and \<open>enqueue_task\<close> as the step
    relation \<open>pool_step\<close> over that queue, with its reachability and invariant.
    \<open>Pool_Liveness\<close>: with two workers or more somebody always watches a queued task, and the
    oldest task can always be taken next; with one worker a wakeup can be lost.
    \<open>Pool_Serving\<close> adds what the workers do between two rounds (\<open>system_step\<close>): a request
    and the close of its socket, or the end of the program in a fault. Its steps are steps of
    the protocol; every descriptor is closed, held or queued, exactly once; and a crash is
    possible next exactly when a request being served faults or the queue is the one a pull from
    two left behind, which three connections reach from any start. \<open>Pool_Progress\<close>: a queued
    connection can always be taken, served and closed without further arrivals, unless a request
    that had arrived faults on the way. \<open>Pool_Shutdown\<close> adds the end of \<open>main\<close>
    (\<open>process_step\<close>): the memory of the pool is released under the running workers, which
    take no task any more and fault where one was left.
  \<^item> \<open>Http_Types\<close> (\<open>types/http-types\<close>) and \<open>Http_Handler\<close> (\<open>services/http/http-handler\<close>):
    the request and the whole parser. \<open>Http_Request_Line\<close>, \<open>Http_Header\<close> and
    \<open>Http_Metadata\<close> run it on words, lines and sections; \<open>Http_Properties\<close> has the round
    trip of a rendered request and the requests that are refused or that break the parser.
    \<open>Http_Reference\<close> states a reference parser that works on lines and words and proves the
    code equal to it on every section of plain lines, for every allocator; from it follows
    exactly which requests are safe to parse. \<open>Http_Invariant\<close> proves, for all input
    whatever, the type invariant \<open>request_wf\<close> of an accepted request.
  \<^item> \<open>Configuration\<close> (\<open>configuration/parsers/configuration-handler\<close>): record, table, parser
    and fetches; \<open>Config_Properties\<close>: the round trip of a file, and files that are not read;
    \<open>Config_Reference\<close>: the parser equals a line-by-line reference on good and bad files.
  \<^item> \<open>Connection\<close> and \<open>Host_Resolver\<close> (\<open>services/tcp\<close>): sockets and addresses, with a log
    of the descriptors opened and closed; first fit of \<open>find_bind\<close>; the nodes of
    \<open>types/address-types\<close> and the termination and output of \<open>print_local_addresses\<close> (a
    \<open>partial_function\<close>, \<open>None\<close> where it does not return).
  \<^item> \<open>Request_Reader\<close> and \<open>Reader_Properties\<close> (\<open>thread_handler.c\<close>): a request from a socket.
    \<open>recv\<close> is an argument bounded by its contract \<open>recv_bounded\<close>; the reader is safe and
    complete for the header section, and is shown to be neither for the body.
  \<^item> \<open>Thread_Handler\<close> (\<open>thread_handler.c\<close>): a round of a worker, start and release of the pool.
  \<^item> \<open>Router\<close> (\<open>services/http/dynamic-router\<close>): the router, \<open>bind_route\<close> up to its last
    statement, an \<open>if()\<close> that does not compile; no call ever gets that far.
    \<open>Routing_Parser\<close> (\<open>configuration/parsers/routing-parser\<close>): a stub.
  \<^item> \<open>Orchestrator\<close> (\<open>services/orchestration/orchestrator\<close>, \<open>main.c\<close>): boot, event loop, exit.
    \<open>Server_Run\<close> composes the event loop with the rounds of the workers and proves that every
    run returns what a specification over the queue of descriptors and the list of those closed
    returns, faults included. \<open>Server_Safety\<close> has what holds
    of every run that returns, the corrupted queue included: only descriptors with reported data
    are ever closed, a connection whose set-up fails never is, and a run that takes a task out
    of exactly two ends at the next use of the queue.
  \<^item> This theory: what spans components: from the configuration file to the listening socket,
    from the events to the queue, from \<open>main\<close> to the first turn of the event loop
    (\<open>runs_from_boot\<close>) and on to the request that ends the program, the boot that is
    refused, the exit status.

  \<^bold>\<open>Termination and bounds.\<close> Every loop of the program but two is a total function with the
  measure the code counts by: the header loop of the reader, for instance, by the bytes left of
  8192, since an empty piece ends it. The two are \<open>print_local_addresses\<close> and the event loop,
  whose runs are over the list of polls the kernel delivers; \<open>walk\<close>, which reads a queue
  off its heap, is bounded by the number of nodes ever allocated, which exceeds its length
  (\<open>chain_length\<close>).

  \<^bold>\<open>Not modelled.\<close> The \<open>if()\<close> that ends \<open>bind_route\<close> (it has no condition), the progress and
  error messages inside the functions, \<open>errno\<close>, the names \<open>address_types.h\<close> gives to types
  of the socket library (and its \<open>hostname\<close>, which nothing uses), and what CMake generates. \<open>Server_Run\<close> interleaves whole rounds of the
  workers with the event loop; \<open>Pool_Serving\<close> interleaves the steps inside a round, where a
  request is one step, since requests share nothing but the allocator, and the event loop is
  any sequence of \<open>enqueue_task\<close>; in \<open>Pool_Shutdown\<close> the release is one step, although the code
  holds no lock around it. The unlocked read of \<open>num_connections\<close> is atomic in the
  model; in C it is a data race. A fault ends a
  run; what a machine does after undefined behaviour is not modelled.
\<close>

section \<open>Boot\<close>

lemma port_configured:
  assumes "list_all line_ok ls" and "map_of (rev (concat (map line_setting ls))) CONFIG_PORT = Some n"
  shows "unat (port ((fold apply_line ls cfg)\<lparr>num_cores := c\<rparr>)) = n"
proof -
  have "n < 2 ^ 64" using settings_in_file [OF assms] by simp
  moreover have "port (fold apply_line ls cfg) = of_nat n"
    using config_field_fold [of CONFIG_PORT ls cfg] assms(2) by simp
  ultimately show ?thesis by (simp add: unat_of_nat take_bit_nat_eq_self)
qed

text \<open>
  C35: A configuration file whose port has eight digits or more is accepted by the parser, and
  the boot then writes behind the 8-byte block it allocates for the text of the port.
\<close>

theorem boot_port_overflow:
  assumes "list_all line_ok ls" and "map_of (rev (concat (map line_setting ls))) CONFIG_PORT = Some n"
    and "10 ^ 7 \<le> n" and "folder_found env" and "config_file env = Some (file_bytes ls)"
    and "sysctl env (- 1) = (status, cores)" and "0 \<le> status" and "0 \<le> cores" and "port_memory env"
  shows "boot_server env cfg sv = Inl Out_Of_Bounds"
  using initialize_run [where sysctl = "sysctl env" and cfg = cfg, OF assms(1,6-8)] port_configured [OF assms(1,2), where cfg = cfg and c = "word_of_int cores"] assms(3-5,9)
  by (simp add: boot_server_def get_local_addresses_run)

definition sample_boot :: "config_line list \<Rightarrow> nat boot_answers" where
  "sample_boot ls = \<lparr>folder_found = True, config_file = Some (file_bytes ls), sysctl = (\<lambda>_. (0, 4)),
     port_memory = True, port_junk = (\<lambda>_. 7), getaddrinfo = (\<lambda>_. (0, [1, 2])), inet_ntop = (\<lambda>_. Some [49]),
     sock = (\<lambda>a. int a + 2), bind_to = (\<lambda>fd a. if a = 1 then - 1 else 0), listen_on = (\<lambda>_ _. 0)\<rparr>"

definition sample_start :: start_answers where
  "sample_start = \<lparr>inits = (0, 0, 0), memory = (\<lambda>_. True), create = (\<lambda>k. (0, of_nat k)), kqueue_fd = 4,
     subscribed = 0, polls = []\<rparr>"

theorem boot_port_overflow_witness:
  "boot_server (sample_boot [Setting CONFIG_PORT 10000000]) default_config boot_state = Inl Out_Of_Bounds"
  by (rule boot_port_overflow [where ls = "[Setting CONFIG_PORT 10000000]" and n = 10000000 and status = 0 and cores = 4])
     (simp_all add: sample_boot_def)

lemma boot_runs:
  assumes "list_all line_ok ls" and "map_of (rev (concat (map line_setting ls))) CONFIG_PORT = Some n"
    and "n < 10 ^ 7" and "folder_found env" and "config_file env = Some (file_bytes ls)"
    and "sysctl env (- 1) = (status, cores)" and "0 \<le> status" and "0 \<le> cores" and "port_memory env"
    and "getaddrinfo env (dec_digits n) = (0, addresses)" and "list_all (converts (inet_ntop env)) addresses"
    and "find (binds (sock env) (bind_to env)) addresses = Some a"
    and "\<forall>backlog. 0 \<le> listen_on env (sock env a) backlog"
  shows "\<exists>cfg' sv'. boot_server env cfg sv = Inr (True, cfg', sv') \<and>
           num_cores cfg' = word_of_int cores \<and> unat (port cfg') = n \<and>
           listener (connections sv') = sock env a \<and> bound_address (connections sv') = Freed \<and>
           (\<exists>tried. opened_fds (connections sv') = opened_fds (connections sv) @ tried @ [sock env a] \<and>
                    closed_fds (connections sv') = closed_fds (connections sv) @ tried)"
proof -
  let ?cfg = "(fold apply_line ls cfg)\<lparr>num_cores := word_of_int cores\<rparr>"
  have n: "unat (port ?cfg) = n" by (rule port_configured [OF assms(1,2)])
  have some: "addresses \<noteq> []" using assms(12) by auto
  obtain conn where conn: "find_bind (sock env) (bind_to env) addresses (connections sv) = (True, conn)"
      "listener conn = sock env a" "bound_address conn = Live a"
      "\<exists>tried. opened_fds conn = opened_fds (connections sv) @ tried @ [sock env a] \<and>
               closed_fds conn = closed_fds (connections sv) @ tried"
    using find_bind_first_fit [of "sock env" "bind_to env" addresses "connections sv"] assms(12)
    by (auto simp: Let_def)
  have "boot_server env cfg sv = Inr (True, ?cfg, sv\<lparr>connections := free_addresses conn\<rparr>)"
    using initialize_run [where sysctl = "sysctl env" and cfg = cfg, OF assms(1,6-8)] n assms(3-5,9,10,11,13) some conn
    by (simp add: boot_server_def get_local_addresses_run find_listen_def)
  then show ?thesis using n conn(2-4) by (auto simp: free_addresses_def)
qed

text \<open>
  C24: With a good configuration file and a port below 10^7 the server boots on the first
  address that gives a socket and binds: that socket is the listening one, every socket tried
  before it has been closed, the number of cores is the machine's, and the text of the port
  handed to \<open>getaddrinfo\<close> is its decimal numeral. The pointer to the bound address dangles
  from then on, since the list it points into has been freed.
\<close>

theorem boot_first_fit:
  assumes "list_all line_ok ls" and "map_of (rev (concat (map line_setting ls))) CONFIG_PORT = Some n"
    and "n < 10 ^ 7" and "folder_found env" and "config_file env = Some (file_bytes ls)"
    and "sysctl env (- 1) = (status, cores)" and "0 \<le> status" and "0 \<le> cores" and "port_memory env"
    and "getaddrinfo env (dec_digits n) = (0, addresses)" and "list_all (converts (inet_ntop env)) addresses"
    and "find (binds (sock env) (bind_to env)) addresses = Some a"
    and "\<forall>backlog. 0 \<le> listen_on env (sock env a) backlog"
  shows "\<exists>cfg' sv'. boot_server env cfg sv = Inr (True, cfg', sv') \<and>
           num_cores cfg' = word_of_int cores \<and> unat (port cfg') = n \<and>
           listener (connections sv') = sock env a \<and> bound_address (connections sv') = Freed \<and>
           (\<exists>tried. opened_fds (connections sv') = opened_fds (connections sv) @ tried @ [sock env a] \<and>
                    closed_fds (connections sv') = closed_fds (connections sv) @ tried)"
  using assms by (rule boot_runs)

theorem boot_first_fit_witness:
  "\<exists>cfg' sv'. boot_server (sample_boot [Blank, Setting CONFIG_PORT 8080]) default_config boot_state = Inr (True, cfg', sv') \<and>
     num_cores cfg' = word_of_int 4 \<and> unat (port cfg') = 8080 \<and>
     listener (connections sv') = sock (sample_boot [Blank, Setting CONFIG_PORT 8080]) 2 \<and>
     bound_address (connections sv') = Freed \<and>
     (\<exists>tried. opened_fds (connections sv') = opened_fds (connections (boot_state :: nat server)) @ tried @
                [sock (sample_boot [Blank, Setting CONFIG_PORT 8080]) 2] \<and>
              closed_fds (connections sv') = closed_fds (connections (boot_state :: nat server)) @ tried)"
  by (rule boot_first_fit [where n = 8080 and ls = "[Blank, Setting CONFIG_PORT 8080]" and status = 0 and cores = 4
        and addresses = "[1, 2]"])
     (simp_all add: sample_boot_def binds_def converts_def)

text \<open>Where a boot can be refused: before any socket is opened, or in \<open>find_listen\<close>.\<close>

lemma refused_boot_state:
  assumes "boot_server env cfg0 boot_state = Inr (False, cfg, sv)"
  shows "pool_threads sv = boot_threads \<and> watched sv = [] \<and>
         (connections sv = boot_conn \<or>
          (\<exists>cfg addresses. find_listen (sock env) (bind_to env) (listen_on env) cfg addresses boot_conn = (False, connections sv)))"
proof -
  note boot = assms [unfolded boot_server_def]
  from boot obtain configured cfg' where init:
      "initialize_configuration (folder_found env) (config_file env) (sysctl env) cfg0 = Inr (configured, cfg')"
    by (auto elim!: cbind_eq_InrE)
  show ?thesis
  proof (cases configured)
    case False
    then show ?thesis using boot by (auto simp: init boot_state_def)
  next
    case True
    with boot obtain found addresses where found:
        "get_local_addresses (port_memory env) (port_junk env) (getaddrinfo env) (inet_ntop env) cfg' = Inr (found, addresses)"
      by (auto simp: init elim!: cbind_eq_InrE)
    show ?thesis
    proof (cases found)
      case False
      then show ?thesis using boot True by (auto simp: init found boot_state_def)
    next
      case listen: True
      obtain listening conn where
          "find_listen (sock env) (bind_to env) (listen_on env) cfg' addresses boot_conn = (listening, conn)"
        by (cases "find_listen (sock env) (bind_to env) (listen_on env) cfg' addresses boot_conn")
      then show ?thesis using boot True listen by (auto simp: init found boot_state_def split: if_splits)
    qed
  qed
qed

text \<open>
  C30: A boot that is refused ends the process in order, whatever the machine answers: \<open>main\<close> returns
  \<open>EXIT_FAILURE\<close> without a fault, nothing is watched, no thread was started, and every socket
  the search for an address opened has been closed, except the one that was bound when
  \<open>listen\<close> then failed: that one is still open and still the listening socket.
\<close>

theorem refused_boot_exits:
  assumes "boot_server env default_config boot_state = Inr (False, cfg, sv)"
  shows "main_run env start_env default_config boot_state = Inr (Some 1) \<and>
         watched sv = [] \<and> threads (pool_threads sv) = Null \<and>
         opened_fds (connections sv) = closed_fds (connections sv) @
           (if 0 \<le> listener (connections sv) then [listener (connections sv)] else [])"
proof -
  note sv = refused_boot_state [OF assms]
  have "opened_fds conn = closed_fds conn @ (if 0 \<le> listener conn then [listener conn] else [])"
    if "find_listen (sock env) (bind_to env) (listen_on env) cfg addresses boot_conn = (False, conn)" for cfg addresses conn
  proof -
    from that obtain bound where "find_bind (sock env) (bind_to env) addresses boot_conn = (bound, conn)"
      by (auto simp: find_listen_def split: prod.splits if_splits)
    then show ?thesis
      using find_bind_first_fit [of "sock env" "bind_to env" addresses "boot_conn :: 'a conn_state"]
      by (auto simp: boot_conn_def binds_def find_Some_iff Let_def split: option.splits if_splits)
  qed
  then have "opened_fds (connections sv) = closed_fds (connections sv) @
      (if 0 \<le> listener (connections sv) then [listener (connections sv)] else [])"
    using sv by (auto simp: boot_conn_def)
  moreover have "main_run env start_env default_config boot_state = Inr (Some 1)"
    using assms sv by (simp add: main_run_def free_thread_memory_def boot_threads_def boot_queue_def)
  ultimately show ?thesis using sv by (simp add: boot_threads_def)
qed

text \<open>A machine on which \<open>listen\<close> fails: socket 4 stays open.\<close>

theorem refused_boot_exits_witness:
  "\<exists>cfg sv. boot_server ((sample_boot release_lines)\<lparr>listen_on := \<lambda>_ _. - 1\<rparr>) default_config boot_state = Inr (False, cfg, sv) \<and>
     main_run ((sample_boot release_lines)\<lparr>listen_on := \<lambda>_ _. - 1\<rparr>) sample_start default_config boot_state = Inr (Some 1) \<and>
     opened_fds (connections sv) = [3, 4] \<and> closed_fds (connections sv) = [3] \<and> listener (connections sv) = 4"
proof -
  let ?env = "(sample_boot release_lines)\<lparr>listen_on := \<lambda>_ _. - 1\<rparr>"
  let ?cfg = "(fold apply_line release_lines default_config)\<lparr>num_cores := word_of_int 4\<rparr>"
  have lines: "list_all line_ok release_lines" "map_of (rev (concat (map line_setting release_lines))) CONFIG_PORT = Some 8888"
    by (simp_all add: release_lines_def)
  have n: "unat (port ?cfg) = 8888" by (rule port_configured [OF lines])
  have "\<exists>sv. boot_server ?env default_config boot_state = Inr (False, ?cfg, sv) \<and>
      opened_fds (connections sv) = [3, 4] \<and> closed_fds (connections sv) = [3] \<and> listener (connections sv) = 4"
    using initialize_run [where sysctl = "sysctl ?env" and cfg = default_config, OF lines(1), where status = 0 and cores = 4] n
    by (simp add: boot_server_def get_local_addresses_run find_listen_def sample_boot_def converts_def
        open_fd_def close_fd_def boot_state_def boot_conn_def)
  then obtain sv where sv: "boot_server ?env default_config boot_state = Inr (False, ?cfg, sv)"
      "opened_fds (connections sv) = [3, 4]" "closed_fds (connections sv) = [3]" "listener (connections sv) = 4"
    by blast
  then show ?thesis using refused_boot_exits [OF sv(1)] by blast
qed

section \<open>Events\<close>

text \<open>
  From the socket to the queue: a poll hands every descriptor that has data to the task
  queue, in the order of the events and behind the tasks already there, whatever connection
  events lie in between; the events of the listening socket are not queued. The queue stays
  good and the loop goes on.
\<close>

theorem poll_queues_data:
  assumes "queue_ok (tasks (pool_threads sv))" and "list_all task_memory events"
    and "num_events = int (length events)"
  shows "\<exists>sv'. poll_events fd [(num_events, events)] sv = Inr (None, sv') \<and>
           queue_ok (tasks (pool_threads sv')) \<and>
           contents (tasks (pool_threads sv')) = contents (tasks (pool_threads sv)) @
             filter (\<lambda>d. d \<noteq> fd) (map (\<lambda>ev. to_cint (int (ident ev))) events)"
  using events_queued [OF assms(1,2), of fd] assms by (cases events) auto

definition data_on :: "nat \<Rightarrow> event" where
  "data_on fd = \<lparr>ident = fd, eof = False, accepted = - 1, timeout_set = 0, registered = 0, task_memory = True\<rparr>"

definition queue_server :: "unit server" where
  "queue_server = boot_state\<lparr>pool_threads := boot_threads\<lparr>tasks := init_queue boot_queue\<rparr>\<rparr>"

theorem poll_queues_data_witness:
  "\<exists>sv'. poll_events 3 [(3, [data_on 7, data_on 3, data_on 8])] queue_server = Inr (None, sv') \<and>
     queue_ok (tasks (pool_threads sv')) \<and>
     contents (tasks (pool_threads sv')) = contents (tasks (pool_threads queue_server)) @
       filter (\<lambda>d. d \<noteq> 3) (map (\<lambda>ev. to_cint (int (ident ev))) [data_on 7, data_on 3, data_on 8])"
  by (rule poll_queues_data) (simp_all add: data_on_def queue_server_def init_queue_ok)

section \<open>The whole program\<close>

text \<open>
  A boot and a start that both succeed, from the static initialisers on, up to the first turn of
  the event loop. The witnesses boot from the configuration file of the repository.
\<close>

definition runs_from_boot ::
  "'a boot_answers \<Rightarrow> start_answers \<Rightarrow> configuration \<Rightarrow> 'a server \<Rightarrow> bool" where
  "runs_from_boot boot_env start_env cfg sv \<longleftrightarrow>
     polls start_env = [] \<and>
     (\<exists>sv1. boot_server boot_env default_config boot_state = Inr (True, cfg, sv1) \<and>
            start_processing start_env cfg sv1 = Inr (None, sv))"

lemma booted_state:
  assumes "boot_server env cfg0 boot_state = Inr (True, cfg, sv)"
  shows "pool_threads sv = boot_threads \<and> watched sv = [] \<and> 0 \<le> listener (connections sv) \<and>
         (\<exists>tried. opened_fds (connections sv) = tried @ [listener (connections sv)] \<and>
                  closed_fds (connections sv) = tried)"
proof -
  from assms obtain addresses conn where conn:
      "find_listen (sock env) (bind_to env) (listen_on env) cfg addresses boot_conn = (True, conn)"
      "sv = boot_state\<lparr>connections := free_addresses conn\<rparr>"
    by (auto simp: boot_server_def cbind_eq_Inr boot_state_def split: if_splits prod.splits)
  then obtain st where "find_bind (sock env) (bind_to env) addresses boot_conn = (True, st)" "conn = st"
    by (auto simp: find_listen_def split: prod.splits if_splits)
  then have "0 \<le> listener conn \<and> (\<exists>tried. opened_fds conn = tried @ [listener conn] \<and> closed_fds conn = tried)"
    using find_bind_first_fit [of "sock env" "bind_to env" addresses "boot_conn :: 'a conn_state"]
    by (auto simp: boot_conn_def binds_def find_Some_iff Let_def split: option.splits if_splits)
  then show ?thesis by (simp add: conn(2) boot_state_def free_addresses_def)
qed

lemma started_state:
  assumes "start_processing env cfg sv = Inr (None, sv')" and "polls env = []"
  shows "0 \<le> listener (connections sv) \<and> connections sv' = connections sv \<and>
         watched sv' = watched sv @ [listener (connections sv)] \<and>
         tasks (pool_threads sv') = init_queue (tasks (pool_threads sv))"
  using assms
  by (auto simp: start_processing_def get_socket_descriptor_def init_thread_handler_def cbind_eq_Inr Let_def
      split: if_splits prod.splits)

lemma from_boot:
  assumes "runs_from_boot boot_env start_env cfg sv"
  shows "queue_good sv \<and> queued sv = [] \<and> 0 \<le> listener (connections sv) \<and>
         watched sv = [listener (connections sv)] \<and>
         opened_fds (connections sv) = closed_fds (connections sv) @ [listener (connections sv)]"
proof -
  obtain sv1 where boot: "boot_server boot_env default_config boot_state = Inr (True, cfg, sv1)"
      and start: "start_processing start_env cfg sv1 = Inr (None, sv)" "polls start_env = []"
    using assms by (auto simp: runs_from_boot_def)
  show ?thesis
    using booted_state [OF boot] started_state [OF start] init_queue_ok
    by (auto simp: queue_good_def queued_def boot_threads_def)
qed

text \<open>
  From \<open>main\<close> to the event loop. Whatever the machine answers, a boot and a start that
  succeed leave the program in the state every run of the event loop and the workers is proved
  from: a good and empty task queue, one watched descriptor, the listening socket, and as
  many sockets open as were opened less those the search for an address closed again.
\<close>

theorem program_starts_good:
  assumes "runs_from_boot boot_env start_env cfg sv"
  shows "queue_good sv \<and> queued sv = [] \<and> 0 \<le> listener (connections sv) \<and>
         watched sv = [listener (connections sv)] \<and>
         opened_fds (connections sv) = closed_fds (connections sv) @ [listener (connections sv)]"
  using assms by (rule from_boot)

lemma sample_runs_from_boot:
  "\<exists>cfg sv. runs_from_boot (sample_boot release_lines) sample_start cfg sv \<and> listener (connections sv) = 4"
proof -
  obtain cfg sv1 where boot: "boot_server (sample_boot release_lines) default_config boot_state = Inr (True, cfg, sv1)"
      "num_cores cfg = word_of_int 4" "listener (connections sv1) = 4"
    using boot_runs [where ls = release_lines and env = "sample_boot release_lines" and n = 8888 and status = 0
        and cores = 4 and addresses = "[1, 2]" and a = 2 and cfg = default_config and sv = boot_state]
    by (auto simp: sample_boot_def binds_def converts_def release_lines_def)
  have "list_all (loop_accepts (create sample_start)) [0..<4]"
    by (simp add: sample_start_def loop_accepts_def upt_rec)
  then obtain ts where "init_thread_handler (0, 0, 0) (memory sample_start) 0 (create sample_start) cfg (pool_threads sv1) = Inr (True, ts)"
    using init_thread_handler_run [of "memory sample_start" 0 cfg "create sample_start" "pool_threads sv1"] boot(2)
    by (auto simp: sample_start_def)
  then have "\<exists>sv. start_processing sample_start cfg sv1 = Inr (None, sv)"
    using boot(3) by (simp add: start_processing_def get_socket_descriptor_def sample_start_def)
  then obtain sv where sv: "start_processing sample_start cfg sv1 = Inr (None, sv)" by blast
  then have "connections sv = connections sv1" using started_state by (fastforce simp: sample_start_def)
  with boot sv show ?thesis by (auto simp: runs_from_boot_def sample_start_def)
qed

theorem program_starts_good_witness:
  "\<exists>cfg sv. runs_from_boot (sample_boot release_lines) sample_start cfg sv \<and>
     queue_good sv \<and> queued sv = [] \<and> 0 \<le> listener (connections sv) \<and>
     watched sv = [listener (connections sv)] \<and>
     opened_fds (connections sv) = closed_fds (connections sv) @ [listener (connections sv)]"
  using sample_runs_from_boot program_starts_good by blast

text \<open>
  A client that sends a well-formed request without a body: a supported request line, a Host
  field, at most 8192 bytes, in any pieces.
\<close>

definition sends_good_request :: "stack_bytes \<Rightarrow> 's receiver \<Rightarrow> 's \<Rightarrow> bool" where
  "sends_good_request stack recv peer \<longleftrightarrow>
     (\<exists>cs peer' m r p hs. delivers recv peer cs peer' \<and> [] \<notin> set cs \<and> ends_with_piece cs \<and>
        length (concat cs) \<le> MAX_HTTP_HEADER_LINE_SIZE \<and> concat cs = request_bytes m r p hs [] \<and>
        \<not> sublist CONTENT_LENGTH_HEADER (concat cs) \<and> request_line_ok stack fresh_request m r p \<and>
        list_all field_ok hs \<and> length hs \<le> MAX_HTTP_HEADER_COUNT \<and> host_values hs \<noteq> [])"

text \<open>
  C14: One good request ends the program. From every boot and start that succeed, with memory for
  everything: when the kernel reports data of a client that sends a well-formed request, the
  next round of a worker is an invalid \<open>free\<close>, whatever would follow.
\<close>

theorem one_request_ends_program:
  assumes "runs_from_boot boot_env start_env cfg sv" and "recv_bounded recv" and "\<forall>i. alloc i"
    and "ident ev < 2 ^ 31" and "int (ident ev) \<noteq> listener (connections sv)" and "task_memory ev"
    and "sends_good_request stack recv (peers (int (ident ev)))"
  shows "server_run alloc stack einval recv (listener (connections sv)) (Poll 1 [ev] # Work # actions) (n, peers, sv) =
           Inl Invalid_Free"
proof -
  let ?d = "int (ident ev)" and ?fd = "listener (connections sv)"
  have good: "queue_good sv" "queued sv = []" using from_boot [OF assms(1)] by blast+
  have d: "to_cint ?d = ?d" using assms(4) by (intro to_cint_id) simp_all
  obtain sv1 where sv1: "poll_events ?fd [(1, [ev])] sv = Inr (None, sv1)" "queue_good sv1" "queued sv1 = [?d]"
    using poll_refines [OF good(1), of ?fd 1 "[ev]"] good(2) assms(5,6) d by (auto simp: arrivals_def simp del: poll_events.simps)
  have served: "process_request alloc stack einval recv n ?d (peers ?d) = Inl Invalid_Free"
    using assms(7) unfolding sends_good_request_def
    by (elim exE conjE) (rule served_invalid_free [OF assms(2) _ _ _ _ _ _ _ _ assms(3)]; assumption)
  let ?q = "tasks (pool_threads sv1)"
  have q: "queue_ok ?q" "contents ?q = [?d]" using sv1(2,3) by (simp_all add: queue_good_def queued_def)
  then have "num_connections ?q \<noteq> 0" by (simp add: counter_ok)
  with pull_ok [OF q, of "- 1"] served
  have "runner_step alloc stack einval recv n peers ?q (connections sv1) = Inl Invalid_Free"
    by (auto simp: runner_step_def Let_def)
  then show ?thesis using sv1(1) by (simp del: poll_events.simps)
qed

lemma scripted_sends_good_request:
  "sends_good_request zero_stack scripted [request_bytes get_method root_route http_1_1 [host_field] []]"
proof -
  let ?r = "request_bytes get_method root_route http_1_1 [host_field] []"
  have "delivers scripted [?r] [?r] []" "ends_with_piece [?r]" "\<not> sublist CONTENT_LENGTH_HEADER ?r"
    by (simp_all add: sample_request MAX_HTTP_HEADER_LINE_SIZE_def ends_with_piece_def END_OF_BUFFER_def c_memmem_def
        CONTENT_LENGTH_HEADER_def sublist_Cons_right)
  then show ?thesis
    unfolding sends_good_request_def
    by (intro exI [of _ "[?r]"] exI [of _ "[]"] exI [of _ get_method] exI [of _ root_route] exI [of _ http_1_1]
        exI [of _ "[host_field]"])
      (simp add: sample_line_ok sample_fields_ok sample_host sample_request MAX_HTTP_HEADER_LINE_SIZE_def
        MAX_HTTP_HEADER_COUNT_def)
qed

theorem one_request_ends_program_witness:
  "\<exists>cfg sv. runs_from_boot (sample_boot release_lines) sample_start cfg sv \<and>
     server_run (\<lambda>_. True) zero_stack True scripted (listener (connections sv)) [Poll 1 [sample_event 9], Work]
       (0, \<lambda>_. [request_bytes get_method root_route http_1_1 [host_field] []], sv) = Inl Invalid_Free"
proof -
  obtain cfg sv where sv: "runs_from_boot (sample_boot release_lines) sample_start cfg sv"
      "listener (connections sv) = 4"
    using sample_runs_from_boot by blast
  have "server_run (\<lambda>_. True) zero_stack True scripted (listener (connections sv)) [Poll 1 [sample_event 9], Work]
       (0, \<lambda>_. [request_bytes get_method root_route http_1_1 [host_field] []], sv) = Inl Invalid_Free"
    by (rule one_request_ends_program [OF sv(1) scripted_bounded])
      (simp_all add: sv(2) sample_event_def scripted_sends_good_request)
  with sv(1) show ?thesis by blast
qed

section \<open>The process\<close>

text \<open>
  The process never exits with success: once it has booted it runs until a call of the
  kernel fails, and every way out of \<open>main\<close> that returns returns \<open>EXIT_FAILURE\<close>.
\<close>

theorem main_never_succeeds:
  "main_run boot_env start_env cfg sv \<noteq> Inr (Some 0)"
  using start_processing_not_true
  by (auto simp: main_run_def cbind_eq_Inr split: if_splits option.splits)

end
